(* ===== verification/Prelude.thy ===== *)
theory Prelude
  imports Main "HOL-Library.Word" "HOL-Library.AList"
begin

section \<open>Prelude: machine types, result codes and shared lemmas\<close>

text \<open>
  What every component of the development shares: the widths of the C++ integer types, the
  transaction result codes of \<^verbatim>\<open>include/xrpl/protocol/TER.h\<close> that the modelled code returns,
  the result type of code that may throw, and generic lemmas on association lists, sums and
  words. A signed 64-bit quantity (drops) is an \<open>int\<close>; where the code multiplies such
  quantities the 64-bit wrap-around is written out with \<open>s64\<close>.
\<close>

subsection \<open>Types\<close>

type_synonym u8 = "8 word"
type_synonym u32 = "32 word"
type_synonym u64 = "64 word"
type_synonym u256 = "256 word"
type_synonym account = "160 word"
type_synonym mptid = "192 word"
type_synonym blob = "u8 list"
type_synonym drops = int

named_theorems field_simps32 \<open>reading SoeDefault and SoeOptional fields\<close>
named_theorems ledger_simps \<open>look-ups after writes to the state map\<close>
named_theorems held_simps \<open>drops held by the state map after a write\<close>

subsection \<open>Result codes\<close>

datatype ter =
    tesSUCCESS
  | telINSUF_FEE_P | telWRONG_NETWORK | telREQUIRES_NETWORK_ID | telNETWORK_ID_MAKES_TX_NON_CANONICAL
  | temMALFORMED | temBAD_AMOUNT | temBAD_FEE | temINVALID_FLAG | temDISABLED
  | temBAD_AMM_TOKENS | temSEQ_AND_TICKET | temINVALID | temBAD_SRC_ACCOUNT | temBAD_SIGNATURE
  | tefFAILURE | tefINTERNAL | tefBAD_LEDGER | tefEXCEPTION | tefPAST_SEQ | tefNO_TICKET
  | tefINVARIANT_FAILED | tefALREADY | tefWRONG_PRIOR | tefMAX_LEDGER | tefBAD_AUTH
  | tefMASTER_DISABLED
  | terNO_ACCOUNT | terINSUF_FEE_B | terPRE_SEQ | terPRE_TICKET
  | tecDIR_FULL | tecUNFUNDED | tecINSUFF_FEE | tecNO_PERMISSION | tecNO_ENTRY
  | tecEXPIRED | tecDUPLICATE | tecTOO_SOON | tecINVARIANT_FAILED | tecOVERSIZE

text \<open>The numeric values of the enumerations, in the order of the header.\<close>

fun TERtoInt :: "ter \<Rightarrow> int" where
  "TERtoInt tesSUCCESS = 0"
| "TERtoInt telINSUF_FEE_P = - 394"
| "TERtoInt temMALFORMED = - 299"
| "TERtoInt temBAD_AMOUNT = - 298"
| "TERtoInt temBAD_FEE = - 295"
| "TERtoInt temINVALID_FLAG = - 276"
| "TERtoInt temDISABLED = - 273"
| "TERtoInt temBAD_AMM_TOKENS = - 261"
| "TERtoInt temSEQ_AND_TICKET = - 263"
| "TERtoInt temINVALID = - 277"
| "TERtoInt temBAD_SRC_ACCOUNT = - 281"
| "TERtoInt tefALREADY = - 198"
| "TERtoInt tefWRONG_PRIOR = - 189"
| "TERtoInt tefMAX_LEDGER = - 187"
| "TERtoInt temBAD_SIGNATURE = - 282"
| "TERtoInt tefBAD_AUTH = - 196"
| "TERtoInt tefMASTER_DISABLED = - 188"
| "TERtoInt telWRONG_NETWORK = - 386"
| "TERtoInt telREQUIRES_NETWORK_ID = - 385"
| "TERtoInt telNETWORK_ID_MAKES_TX_NON_CANONICAL = - 384"
| "TERtoInt tefFAILURE = - 199"
| "TERtoInt tefINTERNAL = - 192"
| "TERtoInt tefBAD_LEDGER = - 195"
| "TERtoInt tefEXCEPTION = - 193"
| "TERtoInt tefPAST_SEQ = - 190"
| "TERtoInt tefNO_TICKET = - 180"
| "TERtoInt tefINVARIANT_FAILED = - 182"
| "TERtoInt terNO_ACCOUNT = - 96"
| "TERtoInt terINSUF_FEE_B = - 97"
| "TERtoInt terPRE_SEQ = - 92"
| "TERtoInt terPRE_TICKET = - 88"
| "TERtoInt tecDIR_FULL = 121"
| "TERtoInt tecUNFUNDED = 129"
| "TERtoInt tecINSUFF_FEE = 136"
| "TERtoInt tecNO_PERMISSION = 139"
| "TERtoInt tecNO_ENTRY = 140"
| "TERtoInt tecOVERSIZE = 145"
| "TERtoInt tecINVARIANT_FAILED = 147"
| "TERtoInt tecEXPIRED = 148"
| "TERtoInt tecDUPLICATE = 149"
| "TERtoInt tecTOO_SOON = 152"

definition isTesSuccess :: "ter \<Rightarrow> bool" where
  "isTesSuccess x \<longleftrightarrow> TERtoInt x = 0"

definition isTelLocal :: "ter \<Rightarrow> bool" where
  "isTelLocal x \<longleftrightarrow> - 399 \<le> TERtoInt x \<and> TERtoInt x < - 299"

definition isTemMalformed :: "ter \<Rightarrow> bool" where
  "isTemMalformed x \<longleftrightarrow> - 299 \<le> TERtoInt x \<and> TERtoInt x < - 199"

definition isTefFailure :: "ter \<Rightarrow> bool" where
  "isTefFailure x \<longleftrightarrow> - 199 \<le> TERtoInt x \<and> TERtoInt x < - 99"

definition isTerRetry :: "ter \<Rightarrow> bool" where
  "isTerRetry x \<longleftrightarrow> - 99 \<le> TERtoInt x \<and> TERtoInt x < 0"

definition isTecClaim :: "ter \<Rightarrow> bool" where
  "isTecClaim x \<longleftrightarrow> TERtoInt x \<ge> 100"

lemma isTesSuccess_iff [simp]: "isTesSuccess x \<longleftrightarrow> x = tesSUCCESS"
  by (cases x) (simp_all add: isTesSuccess_def)

lemma isTecClaim_not_success: "isTecClaim x \<Longrightarrow> x \<noteq> tesSUCCESS"
  by (auto simp: isTecClaim_def)

lemma ter_classes: "isTelLocal x \<or> isTemMalformed x \<or> isTefFailure x \<or> isTerRetry x \<or> x = tesSUCCESS \<or> isTecClaim x"
  by (cases x) (simp_all add: isTelLocal_def isTemMalformed_def isTefFailure_def isTerRetry_def isTecClaim_def)

text \<open>C++ exceptions that the modelled code raises; the framework catches them.\<close>

datatype exn = LogicError string

type_synonym 'a result = "exn + 'a"

subsection \<open>Fields\<close>

text \<open>
  \<open>getFieldU32\<close> and \<open>getFieldU64\<close> return 0 for an absent field, \<open>getFieldVL\<close> and
  \<open>getFieldV256\<close> the empty value.
\<close>

definition getU :: "'a::len word option \<Rightarrow> 'a word" where
  "getU f = (case f of None \<Rightarrow> 0 | Some v \<Rightarrow> v)"

definition getL :: "'a list option \<Rightarrow> 'a list" where
  "getL f = (case f of None \<Rightarrow> [] | Some v \<Rightarrow> v)"

lemma getU_simps [simp, field_simps32]: "getU None = 0" "getU (Some v) = v"
  by (simp_all add: getU_def)

lemma getL_simps [simp, field_simps32]: "getL None = []" "getL (Some v) = v"
  by (simp_all add: getL_def)

text \<open>\<open>std::clamp\<close>.\<close>

definition clamp :: "'a::linorder \<Rightarrow> 'a \<Rightarrow> 'a \<Rightarrow> 'a" where
  "clamp v lo hi = (if v < lo then lo else if hi < v then hi else v)"

lemma clamp_bounds: "lo \<le> hi \<Longrightarrow> lo \<le> clamp v lo hi \<and> clamp v lo hi \<le> hi"
  by (auto simp: clamp_def)

lemma clamp_id: "lo \<le> v \<Longrightarrow> v \<le> hi \<Longrightarrow> clamp v lo hi = v"
  by (auto simp: clamp_def)

subsection \<open>Signed 64-bit arithmetic\<close>

definition s64 :: "int \<Rightarrow> int" where
  "s64 x = (x + 2 ^ 63) mod 2 ^ 64 - 2 ^ 63"

lemma s64_id: "- (2 ^ 63) \<le> x \<Longrightarrow> x < 2 ^ 63 \<Longrightarrow> s64 x = x"
  by (simp add: s64_def)

lemma s64_range: "- (2 ^ 63) \<le> s64 x \<and> s64 x < 2 ^ 63"
  unfolding s64_def using pos_mod_bound [of "2 ^ 64" "x + 2 ^ 63"]
    pos_mod_sign [of "2 ^ 64" "x + 2 ^ 63"] by simp

text \<open>\<open>std::int64_t / std::int64_t\<close> truncates towards zero.\<close>

definition c_div :: "int \<Rightarrow> int \<Rightarrow> int" where
  "c_div a b = sgn a * sgn b * (\<bar>a\<bar> div \<bar>b\<bar>)"

definition c_mod :: "int \<Rightarrow> int \<Rightarrow> int" where
  "c_mod a b = a - c_div a b * b"

lemma c_div_nonneg: "0 \<le> a \<Longrightarrow> 0 < b \<Longrightarrow> c_div a b = a div b"
  by (cases "a = 0") (simp_all add: c_div_def)

lemma c_mod_nonneg: "0 \<le> a \<Longrightarrow> 0 < b \<Longrightarrow> c_mod a b = a mod b"
  by (simp add: c_mod_def c_div_nonneg minus_div_mult_eq_mod)

subsection \<open>Association lists\<close>

lemma map_of_update [simp]: "map_of (AList.update k v al) x = (if x = k then Some v else map_of al x)"
  by (simp add: update_conv')

lemma map_of_delete [simp]: "map_of (AList.delete k al) x = (if x = k then None else map_of al x)"
  by (simp add: delete_conv')

definition keys_distinct :: "('k \<times> 'v) list \<Rightarrow> bool" where
  "keys_distinct al \<longleftrightarrow> distinct (map fst al)"

lemma keys_distinct_update [intro]: "keys_distinct al \<Longrightarrow> keys_distinct (AList.update k v al)"
  by (simp add: keys_distinct_def distinct_update)

lemma keys_distinct_delete [intro]: "keys_distinct al \<Longrightarrow> keys_distinct (AList.delete k al)"
  unfolding keys_distinct_def by (rule distinct_delete)

text \<open>The sum of a measure over the values of an association list.\<close>

definition val_sum :: "('v \<Rightarrow> int) \<Rightarrow> ('k \<times> 'v) list \<Rightarrow> int" where
  "val_sum f al = sum_list (map (f \<circ> snd) al)"

definition opt_val :: "('v \<Rightarrow> int) \<Rightarrow> 'v option \<Rightarrow> int" where
  "opt_val f m = (case m of None \<Rightarrow> 0 | Some v \<Rightarrow> f v)"

lemma opt_val_simps [simp]: "opt_val f None = 0" "opt_val f (Some v) = f v"
  by (simp_all add: opt_val_def)

lemma val_sum_Nil [simp]: "val_sum f [] = 0"
  by (simp add: val_sum_def)

lemma val_sum_Cons [simp]: "val_sum f (p # al) = f (snd p) + val_sum f al"
  by (simp add: val_sum_def)

lemma val_sum_absent: "k \<notin> fst ` set al \<Longrightarrow> val_sum f (AList.update k v al) = val_sum f al + f v"
  by (induction al) auto

lemma val_sum_update:
  "keys_distinct al \<Longrightarrow>
   val_sum f (AList.update k v al) = val_sum f al - opt_val f (map_of al k) + f v"
proof (induction al)
  case Nil
  then show ?case by simp
next
  case (Cons p al)
  then have d: "keys_distinct al" and n: "fst p \<notin> fst ` set al"
    by (auto simp: keys_distinct_def)
  then have "map_of al (fst p) = None" by (simp add: map_of_eq_None_iff)
  with Cons.IH [OF d] n show ?case by (cases p) auto
qed

lemma val_sum_delete:
  "keys_distinct al \<Longrightarrow>
   val_sum f (AList.delete k al) = val_sum f al - opt_val f (map_of al k)"
proof (induction al)
  case Nil
  then show ?case by simp
next
  case (Cons p al)
  then have d: "keys_distinct al" and n: "fst p \<notin> fst ` set al"
    by (auto simp: keys_distinct_def)
  then have none: "map_of al (fst p) = None" by (simp add: map_of_eq_None_iff)
  show ?case
  proof (cases "fst p = k")
    case True
    with n have "AList.delete k al = al" by (simp add: delete_id)
    with True none show ?thesis by (cases p) auto
  next
    case False
    with Cons.IH [OF d] show ?thesis by (cases p) auto
  qed
qed

lemma val_sum_mono_member:
  "(\<And>v. v \<in> snd ` set al \<Longrightarrow> 0 \<le> f v) \<Longrightarrow> map_of al k = Some v \<Longrightarrow> f v \<le> val_sum f al"
proof (induction al)
  case Nil
  then show ?case by simp
next
  case (Cons p al)
  have nn: "0 \<le> val_sum f al"
    unfolding val_sum_def by (rule sum_list_nonneg) (use Cons.prems(1) in auto)
  from Cons.prems(1) have fp: "0 \<le> f (snd p)" by simp
  from Cons show ?case using nn fp by (cases p) (fastforce split: if_splits)
qed

lemma val_sum_nonneg: "(\<And>v. v \<in> snd ` set al \<Longrightarrow> 0 \<le> f v) \<Longrightarrow> 0 \<le> val_sum f al"
  unfolding val_sum_def by (rule sum_list_nonneg) auto

text \<open>The entries of any set of keys weigh at most the whole.\<close>

lemma val_sum_keys_le:
  assumes "keys_distinct al" "finite S" "\<And>v. 0 \<le> f v"
  shows "(\<Sum>k\<in>S. opt_val f (map_of al k)) \<le> val_sum f al"
  using assms(2,1)
proof (induction S arbitrary: al)
  case empty
  then show ?case by (simp add: val_sum_nonneg assms(3))
next
  case (insert k S)
  have "map_of (AList.delete k al) x = map_of al x" if "x \<in> S" for x using that insert.hyps by auto
  then have "(\<Sum>x\<in>S. opt_val f (map_of al x)) = (\<Sum>x\<in>S. opt_val f (map_of (AList.delete k al) x))" by simp
  also have "\<dots> \<le> val_sum f (AList.delete k al)" using insert.prems by (intro insert.IH) auto
  also have "\<dots> = val_sum f al - opt_val f (map_of al k)" using insert.prems by (rule val_sum_delete)
  finally show ?case using insert.hyps by simp
qed

subsection \<open>Words\<close>

lemma xor_cancel: "(xor a p = xor b p) = (a = (b :: 'a::len word))"
proof
  assume "xor a p = xor b p"
  then have "xor (xor a p) p = xor (xor b p) p" by simp
  then show "a = b" by (simp add: xor.assoc)
qed simp

lemma unat_min: "unat (min a b) = min (unat a) (unat (b :: 'a::len word))"
  by (simp add: min_def word_le_nat_alt)

lemma unat_max: "unat (max a b) = max (unat a) (unat (b :: 'a::len word))"
  by (simp add: max_def word_le_nat_alt)

lemma uint_min: "uint (min a b) = min (uint a) (uint (b :: 'a::len word))"
  by (simp add: min_def word_le_def)

lemma uint_pos: "(w :: 'a::len word) \<noteq> 0 \<Longrightarrow> 0 < uint w"
  using word_less_def [of 0 w] by (simp add: word_neq_0_conv)

lemma unat_bound: "unat (w :: 'a::len word) < 2 ^ LENGTH('a)"
  by (rule unsigned_less)

lemma unat32_lt: "unat (w :: u32) < 2 ^ 32"
  using unat_bound [of w] by simp

lemma unat64_lt: "unat (w :: u64) < 2 ^ 64"
  using unat_bound [of w] by simp

lemma uint32_lt: "uint (w :: u32) < 2 ^ 32"
  using uint_bounded [of w] by simp

lemma uint_int_unat: "uint (w :: 'a::len word) = int (unat w)"
  by simp

lemma mult_div_le_self: "0 < d \<Longrightarrow> d * (x div d) \<le> (x :: int)"
  using mult_div_mod_eq [of d x] pos_mod_sign [of d x] by linarith

text \<open>Sums of floored proportional shares never exceed the whole.\<close>

lemma sum_floor_div_le:
  fixes a d :: int and w :: "'a \<Rightarrow> int"
  assumes "0 \<le> a" "0 < d" "finite S" "\<And>x. x \<in> S \<Longrightarrow> 0 \<le> w x" "sum w S \<le> d"
  shows "(\<Sum>x\<in>S. a * w x div d) \<le> a"
proof -
  have "d * (\<Sum>x\<in>S. a * w x div d) = (\<Sum>x\<in>S. d * (a * w x div d))"
    by (simp add: sum_distrib_left)
  also have "\<dots> \<le> (\<Sum>x\<in>S. a * w x)"
    by (rule sum_mono) (rule mult_div_le_self [OF \<open>0 < d\<close>])
  also have "\<dots> = a * sum w S"
    by (simp add: sum_distrib_left)
  also have "\<dots> \<le> d * a"
    using assms by (metis mult.commute mult_left_mono)
  finally show ?thesis using \<open>0 < d\<close> by simp
qed

subsection \<open>Time locks on 32-bit ledger sequences\<close>

text \<open>
  A lock that opens \<open>lock\<close> ledgers after its start, tested with 32-bit arithmetic. Below the wrap
  it opens exactly then; a start so late that the sum wraps is not locked at all.
\<close>

locale ledger_lock =
  fixes lock :: u32 and too_soon :: "u32 \<Rightarrow> u32 \<Rightarrow> bool"
  assumes too_soon_law: "too_soon start now \<longleftrightarrow> now < start + lock"
begin

lemma too_soon_iff:
  "unat start + unat lock < 2 ^ 32 \<Longrightarrow> too_soon start now \<longleftrightarrow> unat now < unat start + unat lock"
  by (simp add: too_soon_law word_less_nat_alt unat_word_ariths)

lemma open_after:
  assumes "\<not> too_soon start now" "unat start + unat lock < 2 ^ 32"
  shows "unat start + unat lock \<le> unat now"
  using assms too_soon_iff [of start now] by simp

lemma open_at_once_when_wrapped:
  assumes "2 ^ 32 \<le> unat start + unat lock"
  shows "\<not> too_soon start start"
proof -
  have "unat (start + lock) = unat start + unat lock - 2 ^ 32"
    using assms unat32_lt [of start] unat32_lt [of lock]
    by (simp add: unat_word_ariths mod_if)
  then show ?thesis using unat32_lt [of lock] by (simp add: too_soon_law word_less_nat_alt)
qed

end

subsection \<open>Sequences of steps\<close>

text \<open>
  A system whose every step keeps an invariant and relates the state before to the state after by
  a preorder; so does every sequence of steps.
\<close>

locale step_system =
  fixes step :: "'c \<Rightarrow> 's \<Rightarrow> 's" and inv :: "'s \<Rightarrow> bool" and rel :: "'s \<Rightarrow> 's \<Rightarrow> bool"
  assumes step_law: "inv s \<Longrightarrow> inv (step c s) \<and> rel s (step c s)"
    and rel_refl: "inv s \<Longrightarrow> rel s s"
    and rel_trans: "rel s s' \<Longrightarrow> rel s' s'' \<Longrightarrow> rel s s''"
begin

lemma run_law: "inv s \<Longrightarrow> inv (fold step cs s) \<and> rel s (fold step cs s)"
proof (induction cs arbitrary: s)
  case (Cons c cs)
  with step_law have "inv (step c s)" "rel s (step c s)" by auto
  with Cons.IH [of "step c s"] show ?case by (auto intro: rel_trans)
qed (simp add: rel_refl)

end

end
