(* ===== verification/QXRPConstants.thy ===== *)
theory QXRPConstants
  imports Prelude
begin

section \<open>Protocol constants\<close>

text \<open>
  The constants of \<^verbatim>\<open>include/xrpl/protocol/QXRPConstants.h\<close> and the supply constants of
  \<^verbatim>\<open>SystemParameters.h\<close>, at the width the header declares, for the default build (no
  \<^verbatim>\<open>QXRP_EPOCH_LEDGERS\<close> and no \<^verbatim>\<open>QXRP_FIRST_EMISSION_EPOCH\<close> override). The header's
  \<^verbatim>\<open>static_assert\<close>s are the lemmas at the end. The collection \<open>qxrp_const\<close> unfolds them.
\<close>

named_theorems qxrp_const \<open>the protocol constants\<close>

subsection \<open>Supply\<close>

definition kDROPS_PER_XRP :: drops where [qxrp_const]: "kDROPS_PER_XRP = 1000000"
definition kINITIAL_XRP :: drops where [qxrp_const]: "kINITIAL_XRP = 200000000000 * kDROPS_PER_XRP"
definition kQXRP_GENESIS_ALLOCATION :: drops where
  [qxrp_const]: "kQXRP_GENESIS_ALLOCATION = 4000000000 * kDROPS_PER_XRP"
definition kQXRP_TREASURY_ALLOCATION :: drops where
  [qxrp_const]: "kQXRP_TREASURY_ALLOCATION = 196000000000 * kDROPS_PER_XRP"

subsection \<open>Epochs and emission\<close>

definition kQXRP_LEDGERS_PER_EPOCH :: u32 where [qxrp_const]: "kQXRP_LEDGERS_PER_EPOCH = 172800"
definition kQXRP_FIRST_EMISSION_EPOCH :: u32 where [qxrp_const]: "kQXRP_FIRST_EMISSION_EPOCH = 8"
definition kQXRP_EPOCHS_PER_YEAR :: u32 where [qxrp_const]: "kQXRP_EPOCHS_PER_YEAR = 52"
definition kQXRP_CID_YEAR1_AVG_BPS :: u32 where [qxrp_const]: "kQXRP_CID_YEAR1_AVG_BPS = 1200"
definition kQXRP_CID_YEAR5_AVG_BPS :: u32 where [qxrp_const]: "kQXRP_CID_YEAR5_AVG_BPS = 450"
definition kQXRP_CID_YEARLY_FLOOR_BPS :: u32 where [qxrp_const]: "kQXRP_CID_YEARLY_FLOOR_BPS = 150"
definition kQXRP_CID_EPOCH_FLOOR_BPS :: u32 where [qxrp_const]: "kQXRP_CID_EPOCH_FLOOR_BPS = 3"
definition kQXRP_CID_DECLINE_NUM :: u32 where [qxrp_const]: "kQXRP_CID_DECLINE_NUM = 750"
definition kQXRP_CID_DECLINE_DEN :: u32 where [qxrp_const]: "kQXRP_CID_DECLINE_DEN = 10816"
definition kQXRP_POPL_LP_BPS_PER_PROVIDER :: u32 where
  [qxrp_const]: "kQXRP_POPL_LP_BPS_PER_PROVIDER = 100"
definition kQXRP_POPL_LP_MAX_PROVIDERS :: u32 where [qxrp_const]: "kQXRP_POPL_LP_MAX_PROVIDERS = 25"
definition kQXRP_POPL_LP_MAX_BPS :: u32 where [qxrp_const]: "kQXRP_POPL_LP_MAX_BPS = 2500"
definition kQXRP_POPL_AMM_LP_BPS_PER_PROVIDER :: u32 where
  [qxrp_const]: "kQXRP_POPL_AMM_LP_BPS_PER_PROVIDER = 100"
definition kQXRP_POPL_AMM_LP_MAX_PROVIDERS :: u32 where
  [qxrp_const]: "kQXRP_POPL_AMM_LP_MAX_PROVIDERS = 25"
definition kQXRP_POPL_AMM_LP_MAX_BPS :: u32 where [qxrp_const]: "kQXRP_POPL_AMM_LP_MAX_BPS = 2500"

subsection \<open>Fee split\<close>

definition kBPS_DENOM :: u32 where [qxrp_const]: "kBPS_DENOM = 10000"
definition kFEE_BURN_MIN_BPS :: u32 where [qxrp_const]: "kFEE_BURN_MIN_BPS = 4000"
definition kFEE_BURN_MAX_BPS :: u32 where [qxrp_const]: "kFEE_BURN_MAX_BPS = 7000"
definition kFEE_BURN_DEFAULT_BPS :: u32 where [qxrp_const]: "kFEE_BURN_DEFAULT_BPS = 5500"
definition kFEE_TREASURY_SENSITIVITY_BPS :: u32 where
  [qxrp_const]: "kFEE_TREASURY_SENSITIVITY_BPS = 1000"

subsection \<open>Bonds and names\<close>

definition kQXRP_MIN_BOND_DROPS :: drops where [qxrp_const]: "kQXRP_MIN_BOND_DROPS = 1000 * kDROPS_PER_XRP"
definition kUNBONDING_LOCK_LEDGERS :: u32 where [qxrp_const]: "kUNBONDING_LOCK_LEDGERS = 262800"
definition kNAME_BOND_DROPS :: drops where [qxrp_const]: "kNAME_BOND_DROPS = 100 * kDROPS_PER_XRP"
definition kNAME_MIN_LEN :: nat where [qxrp_const]: "kNAME_MIN_LEN = 3"
definition kNAME_MAX_LEN :: nat where [qxrp_const]: "kNAME_MAX_LEN = 32"
definition kNAME_UNBOND_LEDGERS :: u32 where [qxrp_const]: "kNAME_UNBOND_LEDGERS = kQXRP_LEDGERS_PER_EPOCH"
definition kBOND_STATUS_REGISTERED :: u32 where [qxrp_const]: "kBOND_STATUS_REGISTERED = 0"
definition kBOND_STATUS_BONDED :: u32 where [qxrp_const]: "kBOND_STATUS_BONDED = 1"
definition kBOND_STATUS_UNBONDING :: u32 where [qxrp_const]: "kBOND_STATUS_UNBONDING = 2"
definition kNAME_STATUS_ACTIVE :: u32 where [qxrp_const]: "kNAME_STATUS_ACTIVE = 0"
definition kNAME_STATUS_RELEASING :: u32 where [qxrp_const]: "kNAME_STATUS_RELEASING = 1"

subsection \<open>Scores\<close>

definition kSCORE_WEIGHT_UPTIME :: u32 where [qxrp_const]: "kSCORE_WEIGHT_UPTIME = 40"
definition kSCORE_WEIGHT_VOTE_ACC :: u32 where [qxrp_const]: "kSCORE_WEIGHT_VOTE_ACC = 30"
definition kSCORE_WEIGHT_LATENCY :: u32 where [qxrp_const]: "kSCORE_WEIGHT_LATENCY = 15"
definition kSCORE_WEIGHT_CONSISTENCY :: u32 where [qxrp_const]: "kSCORE_WEIGHT_CONSISTENCY = 10"
definition kSCORE_WEIGHT_SLASH_MULT :: u32 where [qxrp_const]: "kSCORE_WEIGHT_SLASH_MULT = 5"
definition kSCORE_EMA_NEW_BPS :: u32 where [qxrp_const]: "kSCORE_EMA_NEW_BPS = 3500"
definition kLATENCY_PENALTY_BPS_PER_10MS :: u32 where
  [qxrp_const]: "kLATENCY_PENALTY_BPS_PER_10MS = 1"
definition kMIN_COMPOSITE_SCORE_BPS :: u32 where [qxrp_const]: "kMIN_COMPOSITE_SCORE_BPS = 500"
definition kFLAG_LEDGER_INTERVAL :: u32 where [qxrp_const]: "kFLAG_LEDGER_INTERVAL = 256"

subsection \<open>Slashing and governance\<close>

definition kSLASH_OFFENSE_DOUBLE_SIGN :: u32 where [qxrp_const]: "kSLASH_OFFENSE_DOUBLE_SIGN = 1"
definition kSLASH_OFFENSE_ABSENCE :: u32 where [qxrp_const]: "kSLASH_OFFENSE_ABSENCE = 2"
definition kSLASH_OFFENSE_INVALID_VOTE :: u32 where [qxrp_const]: "kSLASH_OFFENSE_INVALID_VOTE = 3"
definition kSLASH_DOUBLE_SIGN_BPS :: u32 where [qxrp_const]: "kSLASH_DOUBLE_SIGN_BPS = kBPS_DENOM"
definition kPROPOSAL_TYPE_BURN_BPS :: u32 where [qxrp_const]: "kPROPOSAL_TYPE_BURN_BPS = 1"
definition kGOVERNANCE_SUPERMAJORITY_BPS :: u32 where
  [qxrp_const]: "kGOVERNANCE_SUPERMAJORITY_BPS = 6700"
definition kGOVERNANCE_VOTING_LEDGERS :: u32 where [qxrp_const]: "kGOVERNANCE_VOTING_LEDGERS = 172800"

subsection \<open>The header's static assertions\<close>

lemma supply_split: "kQXRP_GENESIS_ALLOCATION + kQXRP_TREASURY_ALLOCATION = kINITIAL_XRP"
  by (simp add: qxrp_const)

lemma treasury_divisible: "kQXRP_TREASURY_ALLOCATION mod 10000 = 0"
  by (simp add: qxrp_const)

lemma score_weights_sum:
  "kSCORE_WEIGHT_UPTIME + kSCORE_WEIGHT_VOTE_ACC + kSCORE_WEIGHT_LATENCY +
   kSCORE_WEIGHT_CONSISTENCY + kSCORE_WEIGHT_SLASH_MULT = 100"
  by (simp add: qxrp_const)

lemma ema_weight_le: "kSCORE_EMA_NEW_BPS \<le> kBPS_DENOM"
  by (simp add: qxrp_const word_le_nat_alt)

lemma initial_xrp_fits: "kINITIAL_XRP < 2 ^ 63"
  by (simp add: qxrp_const)

end
