(* ===== verification/LedgerState.thy ===== *)
theory LedgerState
  imports QXRPConstants "HOL-Library.Product_Lexorder"
begin

section \<open>Ledger entries, keylets and the view\<close>

text \<open>
  The state a transactor works on. A ledger entry is one constructor of \<open>sle\<close> over a record with
  the fields of its template in \<^verbatim>\<open>ledger_entries.macro\<close> that the modelled code touches; a field that
  the template marks \<^verbatim>\<open>SoeDefault\<close> or \<^verbatim>\<open>SoeOptional\<close> is an \<open>option\<close>, absent being \<open>None\<close>. A ledger
  index (a 256-bit hash of a name space and its arguments in \<^verbatim>\<open>Indexes.cpp\<close>) is a term of the
  datatype \<open>key\<close>: one constructor per name space, so two keylets are equal exactly when their name
  space and arguments are. This idealises the hash as collision free. The order in which the code
  sorts indexes comes from the hash itself, which is the parameter \<open>e_key_hash\<close> of the environment.

  Drops amounts are integers; the supply invariants of the development bound them by the
  header's total, which is far below \<open>2 ^ 63\<close>.
\<close>

subsection \<open>Assets and amounts\<close>

type_synonym currency = "160 word"

text \<open>
  \<open>Asset\<close> of \<^verbatim>\<open>Asset.h\<close>. An \<^verbatim>\<open>Issue\<close> whose currency is zero is the native asset, and two native
  issues compare equal whatever their account, so the native asset is a constructor of its own.
\<close>

datatype asset = XRPIssue | IOUIssue currency account | MPTIssue mptid

definition asset_native :: "asset \<Rightarrow> bool" where
  "asset_native a \<longleftrightarrow> a = XRPIssue"

text \<open>\<open>operator<=>\<close>: every \<^verbatim>\<open>MPTIssue\<close> is below every \<^verbatim>\<open>Issue\<close>; issues compare by currency, then account.\<close>

fun asset_rank :: "asset \<Rightarrow> nat \<times> nat \<times> nat" where
  "asset_rank (MPTIssue m) = (0, unat m, 0)"
| "asset_rank XRPIssue = (1, 0, 0)"
| "asset_rank (IOUIssue c a) = (2, unat c, unat a)"

lemma asset_rank_inj: "asset_rank a = asset_rank b \<Longrightarrow> a = b"
  by (cases a; cases b) (auto simp: word_unat_eq_iff)

instantiation asset :: linorder
begin

definition less_eq_asset :: "asset \<Rightarrow> asset \<Rightarrow> bool" where
  "less_eq_asset a b \<longleftrightarrow> asset_rank a \<le> asset_rank b"

definition less_asset :: "asset \<Rightarrow> asset \<Rightarrow> bool" where
  "less_asset a b \<longleftrightarrow> asset_rank a < asset_rank b"

instance
  by standard (auto simp: less_eq_asset_def less_asset_def dest: asset_rank_inj)

end

datatype stamount = Native int | IOU currency account bool u64 int

text \<open>An issued amount has a sign, a 64-bit mantissa and an exponent.\<close>

fun stamount_native :: "stamount \<Rightarrow> bool" where
  "stamount_native (Native _) = True"
| "stamount_native (IOU _ _ _ _ _) = False"

fun signum :: "stamount \<Rightarrow> int" where
  "signum (Native d) = sgn d"
| "signum (IOU _ _ neg m _) = (if m = 0 then 0 else if neg then - 1 else 1)"

fun mantissa :: "stamount \<Rightarrow> u64" where
  "mantissa (Native d) = word_of_int \<bar>d\<bar>"
| "mantissa (IOU _ _ _ m _) = m"

fun negate :: "stamount \<Rightarrow> stamount" where
  "negate (Native d) = Native (- d)"
| "negate (IOU c i neg m e) = (if m = 0 then IOU c i neg m e else IOU c i (\<not> neg) m e)"

subsection \<open>Ledger indexes\<close>

datatype key =
    KAccount account
  | KOwnerDir account
  | KPage key u64
  | KBond account
  | KRewardEpoch
  | KGovParams
  | KProposal account u32
  | KPopLp account key
  | KAccountName blob
  | KVault account u32
  | KMptIssuance mptid
  | KMPToken mptid account
  | KAmm asset asset
  | KLine account account currency
  | KTicket account u32
  | KEscrow account u32
  | KPayChan account account u32
  | KSkip
  | KSkipAt u32                     \<comment> \<open>\<^verbatim>\<open>skip(ledger)\<close>, hashed over \<^verbatim>\<open>ledger >> 16\<close>\<close>
  | KNegativeUNL
  | KOther u256

definition keylet_page :: "key \<Rightarrow> u64 \<Rightarrow> key" where
  "keylet_page k index = (if index = 0 then k else KPage k index)"

definition keylet_amm :: "asset \<Rightarrow> asset \<Rightarrow> key" where
  "keylet_amm asset1 asset2 = KAmm (min asset1 asset2) (max asset1 asset2)"

definition keylet_line :: "account \<Rightarrow> account \<Rightarrow> currency \<Rightarrow> key" where
  "keylet_line id0 id1 currency = KLine (min id0 id1) (max id0 id1) currency"

lemma keylet_page_0 [simp]: "keylet_page k 0 = k"
  by (simp add: keylet_page_def)

lemma KPage_neq [simp]: "KPage k i \<noteq> k" "k \<noteq> KPage k i"
proof -
  have "size k < size (KPage k i)" by simp
  then show "KPage k i \<noteq> k" "k \<noteq> KPage k i" by (metis less_irrefl)+
qed

lemma keylet_page_inj [simp]: "keylet_page k i = keylet_page k j \<longleftrightarrow> i = j"
  by (auto simp: keylet_page_def)

lemma keylet_page_root [simp]: "keylet_page k i = k \<longleftrightarrow> i = 0" "k = keylet_page k i \<longleftrightarrow> i = 0"
  by (auto simp: keylet_page_def)

lemma keylet_amm_commute: "keylet_amm a b = keylet_amm b a"
  by (simp add: keylet_amm_def min.commute max.commute)

lemma keylet_line_commute: "keylet_line a b c = keylet_line b a c"
  by (simp add: keylet_line_def min.commute max.commute)

subsection \<open>Ledger entries\<close>

record account_root =
  acc_Account :: account
  acc_Balance :: drops
  acc_Sequence :: u32
  acc_OwnerCount :: u32
  acc_Flags :: u32
  acc_TicketCount :: "u32 option"
  acc_AccountTxnID :: "u256 option"
  acc_AccountName :: "key option"
  acc_RegularKey :: "account option"

record dir_node =
  dn_Owner :: "account option"
  dn_RootIndex :: key
  dn_Indexes :: "key list"
  dn_IndexNext :: "u64 option"
  dn_IndexPrevious :: "u64 option"

record validator_bond =
  bond_Account :: account
  bond_PublicKey :: blob
  bond_ConsensusKey :: blob
  bond_BondedAmount :: drops
  bond_BondStatus :: u32
  bond_UptimeBps :: "u32 option"
  bond_VoteAccuracyBps :: "u32 option"
  bond_LatencyScoreBps :: "u32 option"
  bond_ConsistencyBps :: "u32 option"
  bond_SlashMultiplier :: u32
  bond_CompositeScore :: "u32 option"
  bond_SlashCount :: "u32 option"
  bond_LastClaimedEpoch :: "u32 option"
  bond_UnbondingStartLedger :: "u32 option"
  bond_OwnerNode :: u64
  bond_PreviousTxnID :: u256
  bond_PreviousTxnLgrSeq :: u32

record reward_epoch =
  ep_EpochNumber :: u32
  ep_EpochStartLedger :: u32
  ep_EpochPoolBalance :: drops
  ep_EmissionRate :: drops
  ep_CurrentBurnBps :: u32
  ep_FeeVolumeEMA :: "u32 option"
  ep_AggregateCompositeScore :: "u32 option"
  ep_LPAllocationBps :: "u32 option"
  ep_AggregateLPShares :: "u64 option"
  ep_AmmLPAllocationBps :: "u32 option"
  ep_AggregateAmmTvlDrops :: "u64 option"
  ep_Proposals :: "key list option"
  ep_PreviousTxnID :: u256
  ep_PreviousTxnLgrSeq :: u32

text \<open>
  The tally stores a proposal's ledger index in \<^verbatim>\<open>sfPreviousTxnID\<close>; the field holds either a
  transaction identifier or an index.
\<close>

datatype txn_ref = TxnId u256 | IndexRef key

record governance_params =
  gp_CurrentBurnBps :: "u32 option"
  gp_PreviousTxnID :: txn_ref
  gp_PreviousTxnLgrSeq :: u32

record governance_proposal =
  pr_Account :: account
  pr_ProposalType :: u32
  pr_ProposalValue :: u32
  pr_ProposalExpiry :: u32
  pr_ProposalState :: u32
  pr_VotedFor :: "u32 option"
  pr_VotedAgainst :: "u32 option"
  pr_VoterList :: "blob option"
  pr_OwnerNode :: u64
  pr_PreviousTxnID :: txn_ref
  pr_PreviousTxnLgrSeq :: u32

record pop_lp_state =
  pl_Account :: account
  pl_VaultID :: key
  pl_LastClaimedEpoch :: "u32 option"
  pl_PreviousTxnID :: u256
  pl_PreviousTxnLgrSeq :: u32

record account_name =
  nm_Name :: blob
  nm_Account :: account
  nm_BondedAmount :: drops
  nm_NameStatus :: u32
  nm_UnbondingStartLedger :: "u32 option"
  nm_OwnerNode :: u64
  nm_PreviousTxnID :: u256
  nm_PreviousTxnLgrSeq :: u32

record amm_entry =
  amm_Account :: account
  amm_Asset :: asset
  amm_Asset2 :: asset
  amm_LPTokenBalance :: stamount

record ripple_state =
  rs_Balance :: stamount
  rs_LowLimit :: stamount
  rs_HighLimit :: stamount
  rs_Flags :: u32

record ticket_entry =
  tk_Account :: account
  tk_TicketSequence :: u32
  tk_OwnerNode :: u64

record mptoken =
  mt_Account :: account
  mt_MPTokenIssuanceID :: mptid
  mt_MPTAmount :: "u64 option"

record ledger_hashes =
  lh_Hashes :: "u256 list"
  lh_LastLedgerSequence :: "u32 option"

record negative_unl =
  nu_DisabledValidators :: "(blob \<times> u32) list option"   \<comment> \<open>\<^verbatim>\<open>sfPublicKey\<close>, \<^verbatim>\<open>sfFirstLedgerSequence\<close>\<close>
  nu_ValidatorToDisable :: "blob option"
  nu_ValidatorToReEnable :: "blob option"

datatype sle =
    SAccount account_root
  | SDir dir_node
  | SBond validator_bond
  | SEpoch reward_epoch
  | SGovParams governance_params
  | SProposal governance_proposal
  | SPopLp pop_lp_state
  | SName account_name
  | SVault mptid                    \<comment> \<open>\<^verbatim>\<open>sfShareMPTID\<close>\<close>
  | SMptIssuance u64                \<comment> \<open>\<^verbatim>\<open>sfOutstandingAmount\<close>\<close>
  | SMPToken mptoken
  | SAmm amm_entry
  | SRippleState ripple_state
  | STicket ticket_entry
  | SEscrow stamount                \<comment> \<open>\<^verbatim>\<open>sfAmount\<close>\<close>
  | SPayChan drops drops            \<comment> \<open>\<^verbatim>\<open>sfAmount\<close>, \<^verbatim>\<open>sfBalance\<close>\<close>
  | SSkipList ledger_hashes
  | SNegativeUNL negative_unl
  | SOther nat

subsection \<open>The view\<close>

record view =
  v_seq :: u32
  v_drops :: drops                  \<comment> \<open>the header's total\<close>
  v_sles :: "(key \<times> sle) list"

definition find_sle :: "view \<Rightarrow> key \<Rightarrow> sle option" where
  "find_sle v k = map_of (v_sles v) k"

definition put :: "view \<Rightarrow> key \<Rightarrow> sle \<Rightarrow> view" where
  "put v k s = v\<lparr>v_sles := AList.update k s (v_sles v)\<rparr>"

definition del :: "view \<Rightarrow> key \<Rightarrow> view" where
  "del v k = v\<lparr>v_sles := AList.delete k (v_sles v)\<rparr>"

text \<open>\<open>insert\<close> of an entry whose key is in use is a logic error.\<close>

definition insert_sle :: "view \<Rightarrow> key \<Rightarrow> sle \<Rightarrow> view result" where
  "insert_sle v k s =
     (case find_sle v k of None \<Rightarrow> Inr (put v k s)
      | Some _ \<Rightarrow> Inl (LogicError ''insert: key already exists''))"

definition rawDestroyXRP :: "view \<Rightarrow> drops \<Rightarrow> view" where
  "rawDestroyXRP v fee = v\<lparr>v_drops := v_drops v - fee\<rparr>"

text \<open>
  The typed readers: \<open>read\<close> and \<open>peek\<close> of a keylet return nothing when the entry under its key has
  another type (\<^verbatim>\<open>Keylet::check\<close>).
\<close>

definition read_account :: "view \<Rightarrow> account \<Rightarrow> account_root option" where
  "read_account v a = (case find_sle v (KAccount a) of Some (SAccount r) \<Rightarrow> Some r | _ \<Rightarrow> None)"

definition read_dir :: "view \<Rightarrow> key \<Rightarrow> dir_node option" where
  "read_dir v k = (case find_sle v k of Some (SDir r) \<Rightarrow> Some r | _ \<Rightarrow> None)"

definition read_bond :: "view \<Rightarrow> account \<Rightarrow> validator_bond option" where
  "read_bond v a = (case find_sle v (KBond a) of Some (SBond r) \<Rightarrow> Some r | _ \<Rightarrow> None)"

definition read_epoch :: "view \<Rightarrow> reward_epoch option" where
  "read_epoch v = (case find_sle v KRewardEpoch of Some (SEpoch r) \<Rightarrow> Some r | _ \<Rightarrow> None)"

definition read_gov_params :: "view \<Rightarrow> governance_params option" where
  "read_gov_params v = (case find_sle v KGovParams of Some (SGovParams r) \<Rightarrow> Some r | _ \<Rightarrow> None)"

definition read_proposal :: "view \<Rightarrow> key \<Rightarrow> governance_proposal option" where
  "read_proposal v k = (case find_sle v k of Some (SProposal r) \<Rightarrow> Some r | _ \<Rightarrow> None)"

definition read_pop_lp :: "view \<Rightarrow> account \<Rightarrow> key \<Rightarrow> pop_lp_state option" where
  "read_pop_lp v a k = (case find_sle v (KPopLp a k) of Some (SPopLp r) \<Rightarrow> Some r | _ \<Rightarrow> None)"

definition read_name :: "view \<Rightarrow> key \<Rightarrow> account_name option" where
  "read_name v k = (case find_sle v k of Some (SName r) \<Rightarrow> Some r | _ \<Rightarrow> None)"

definition read_vault :: "view \<Rightarrow> key \<Rightarrow> mptid option" where
  "read_vault v k = (case find_sle v k of Some (SVault m) \<Rightarrow> Some m | _ \<Rightarrow> None)"

definition read_issuance :: "view \<Rightarrow> mptid \<Rightarrow> u64 option" where
  "read_issuance v m =
     (case find_sle v (KMptIssuance m) of Some (SMptIssuance a) \<Rightarrow> Some a | _ \<Rightarrow> None)"

definition read_mptoken :: "view \<Rightarrow> mptid \<Rightarrow> account \<Rightarrow> mptoken option" where
  "read_mptoken v m a = (case find_sle v (KMPToken m a) of Some (SMPToken r) \<Rightarrow> Some r | _ \<Rightarrow> None)"

definition read_amm :: "view \<Rightarrow> key \<Rightarrow> amm_entry option" where
  "read_amm v k = (case find_sle v k of Some (SAmm r) \<Rightarrow> Some r | _ \<Rightarrow> None)"

definition read_line :: "view \<Rightarrow> key \<Rightarrow> ripple_state option" where
  "read_line v k = (case find_sle v k of Some (SRippleState r) \<Rightarrow> Some r | _ \<Rightarrow> None)"

definition read_ticket :: "view \<Rightarrow> key \<Rightarrow> ticket_entry option" where
  "read_ticket v k = (case find_sle v k of Some (STicket r) \<Rightarrow> Some r | _ \<Rightarrow> None)"

definition read_skip :: "view \<Rightarrow> key \<Rightarrow> ledger_hashes option" where
  "read_skip v k = (case find_sle v k of Some (SSkipList r) \<Rightarrow> Some r | _ \<Rightarrow> None)"

definition read_negative_unl :: "view \<Rightarrow> negative_unl option" where
  "read_negative_unl v = (case find_sle v KNegativeUNL of Some (SNegativeUNL r) \<Rightarrow> Some r | _ \<Rightarrow> None)"

lemmas read_defs = read_account_def read_dir_def read_bond_def read_epoch_def read_gov_params_def
  read_proposal_def read_pop_lp_def read_name_def read_vault_def read_issuance_def
  read_mptoken_def read_amm_def read_line_def read_ticket_def read_skip_def read_negative_unl_def

text \<open>Writers: \<open>update\<close> of a peeked entry.\<close>

definition put_account :: "view \<Rightarrow> account \<Rightarrow> account_root \<Rightarrow> view" where
  "put_account v a r = put v (KAccount a) (SAccount r)"

definition put_bond :: "view \<Rightarrow> account \<Rightarrow> validator_bond \<Rightarrow> view" where
  "put_bond v a r = put v (KBond a) (SBond r)"

definition put_epoch :: "view \<Rightarrow> reward_epoch \<Rightarrow> view" where
  "put_epoch v r = put v KRewardEpoch (SEpoch r)"

lemmas put_defs = put_account_def put_bond_def put_epoch_def


subsection \<open>Look-up laws\<close>

text \<open>
  The contract of a key-value state: what a look-up returns after a write, and how a total of a
  measure of its entries changes. Clients that move value between entries are proved to conserve
  the total once, for every implementation of the contract.
\<close>

locale state_map =
  fixes lookup :: "'s \<Rightarrow> 'k \<Rightarrow> 'v option"
    and upd :: "'s \<Rightarrow> 'k \<Rightarrow> 'v \<Rightarrow> 's"
    and rem :: "'s \<Rightarrow> 'k \<Rightarrow> 's"
  assumes lookup_upd: "lookup (upd s k v) k' = (if k' = k then Some v else lookup s k')"
    and lookup_rem: "lookup (rem s k) k' = (if k' = k then None else lookup s k')"

locale metered_map = state_map lookup upd rem
  for lookup :: "'s \<Rightarrow> 'k \<Rightarrow> 'v option"
    and upd :: "'s \<Rightarrow> 'k \<Rightarrow> 'v \<Rightarrow> 's"
    and rem :: "'s \<Rightarrow> 'k \<Rightarrow> 's" +
  fixes inv :: "'s \<Rightarrow> bool" and total :: "'s \<Rightarrow> int" and weight :: "'v \<Rightarrow> int"
  assumes inv_upd: "inv s \<Longrightarrow> inv (upd s k v)"
    and inv_rem: "inv s \<Longrightarrow> inv (rem s k)"
    and total_upd: "inv s \<Longrightarrow> total (upd s k v) = total s - opt_val weight (lookup s k) + weight v"
    and total_rem: "inv s \<Longrightarrow> total (rem s k) = total s - opt_val weight (lookup s k)"
begin

text \<open>Value moved between two entries leaves the total unchanged.\<close>

lemma total_transfer:
  assumes "inv s" "lookup s a = Some x" "lookup s b = Some y" "a \<noteq> b"
    and "weight x' + weight y' = weight x + weight y"
  shows "total (upd (upd s a x') b y') = total s"
  using assms by (simp add: total_upd inv_upd lookup_upd)

text \<open>An entry is created with value taken from another one.\<close>

lemma total_split_off:
  assumes "inv s" "lookup s a = Some x" "lookup s b = None" "a \<noteq> b"
    and "weight x' + weight y' = weight x"
  shows "total (upd (upd s a x') b y') = total s"
  using assms by (simp add: total_upd inv_upd lookup_upd)

text \<open>An entry is erased and its value given to another one.\<close>

lemma total_merge:
  assumes "inv s" "lookup s a = Some x" "lookup s b = Some y" "a \<noteq> b"
    and "weight x' = weight x + weight y"
  shows "total (rem (upd s a x') b) = total s"
  using assms by (simp add: total_upd total_rem inv_upd lookup_upd)

lemma total_same:
  assumes "inv s" "lookup s a = Some x" "weight x' = weight x"
  shows "total (upd s a x') = total s"
  using assms by (simp add: total_upd)

end

text \<open>
  The drops an entry holds: the accounting of \<open>QXRPDropConservation::visitEntry\<close>.
\<close>

fun sle_drops :: "sle \<Rightarrow> drops" where
  "sle_drops (SAccount r) = acc_Balance r"
| "sle_drops (SPayChan amount balance) = amount - balance"
| "sle_drops (SEscrow (Native d)) = d"
| "sle_drops (SBond r) = bond_BondedAmount r"
| "sle_drops (SName r) = nm_BondedAmount r"
| "sle_drops _ = 0"

definition held :: "view \<Rightarrow> drops" where
  "held v = val_sum sle_drops (v_sles v)"

definition wf_view :: "view \<Rightarrow> bool" where
  "wf_view v \<longleftrightarrow> keys_distinct (v_sles v)"

lemma find_sle_put [simp, ledger_simps]:
  "find_sle (put v k s) k' = (if k' = k then Some s else find_sle v k')"
  by (simp add: find_sle_def put_def)

lemma find_sle_del [simp, ledger_simps]:
  "find_sle (del v k) k' = (if k' = k then None else find_sle v k')"
  by (simp add: find_sle_def del_def)

lemma wf_view_put [simp, intro]: "wf_view v \<Longrightarrow> wf_view (put v k s)"
  by (simp add: wf_view_def put_def keys_distinct_update)

lemma wf_view_del [simp, intro]: "wf_view v \<Longrightarrow> wf_view (del v k)"
  by (simp add: wf_view_def del_def keys_distinct_delete)

lemma held_put [held_simps]:
  "wf_view v \<Longrightarrow> held (put v k s) = held v - opt_val sle_drops (find_sle v k) + sle_drops s"
  by (simp add: wf_view_def held_def put_def find_sle_def val_sum_update)

lemma held_del [held_simps]:
  "wf_view v \<Longrightarrow> held (del v k) = held v - opt_val sle_drops (find_sle v k)"
  by (simp add: wf_view_def held_def del_def find_sle_def val_sum_delete)

interpretation lv: metered_map find_sle put del wf_view held sle_drops
  by unfold_locales (simp_all add: held_put held_del wf_view_put wf_view_del)

lemma view_put_simps [simp, ledger_simps]:
  "v_seq (put v k s) = v_seq v" "v_drops (put v k s) = v_drops v"
  "v_seq (del v k) = v_seq v" "v_drops (del v k) = v_drops v"
  by (simp_all add: put_def del_def)

lemma rawDestroyXRP_simps [simp, ledger_simps]:
  "find_sle (rawDestroyXRP v d) k = find_sle v k" "v_seq (rawDestroyXRP v d) = v_seq v"
  "v_drops (rawDestroyXRP v d) = v_drops v - d" "held (rawDestroyXRP v d) = held v"
  "wf_view (rawDestroyXRP v d) = wf_view v"
  by (simp_all add: rawDestroyXRP_def find_sle_def held_def wf_view_def)

lemma read_account_put [simp, ledger_simps]:
  "read_account (put v k s) a =
     (if k = KAccount a then (case s of SAccount r \<Rightarrow> Some r | _ \<Rightarrow> None) else read_account v a)"
  by (simp add: read_account_def)

lemma read_bond_put [simp, ledger_simps]:
  "read_bond (put v k s) a =
     (if k = KBond a then (case s of SBond r \<Rightarrow> Some r | _ \<Rightarrow> None) else read_bond v a)"
  by (simp add: read_bond_def)

lemma read_epoch_put [simp, ledger_simps]:
  "read_epoch (put v k s) =
     (if k = KRewardEpoch then (case s of SEpoch r \<Rightarrow> Some r | _ \<Rightarrow> None) else read_epoch v)"
  by (simp add: read_epoch_def)

lemma read_pop_lp_put [simp, ledger_simps]:
  "read_pop_lp (put v k s) a j =
     (if k = KPopLp a j then (case s of SPopLp r \<Rightarrow> Some r | _ \<Rightarrow> None) else read_pop_lp v a j)"
  by (simp add: read_pop_lp_def)

lemma read_name_put [simp, ledger_simps]:
  "read_name (put v k s) j =
     (if k = j then (case s of SName r \<Rightarrow> Some r | _ \<Rightarrow> None) else read_name v j)"
  by (simp add: read_name_def)

lemma read_dir_put [simp, ledger_simps]:
  "read_dir (put v k s) j =
     (if k = j then (case s of SDir r \<Rightarrow> Some r | _ \<Rightarrow> None) else read_dir v j)"
  by (simp add: read_dir_def)

lemma read_proposal_put [simp, ledger_simps]:
  "read_proposal (put v k s) j =
     (if k = j then (case s of SProposal r \<Rightarrow> Some r | _ \<Rightarrow> None) else read_proposal v j)"
  by (simp add: read_proposal_def)

lemma read_del [simp, ledger_simps]:
  "read_account (del v k) a = (if k = KAccount a then None else read_account v a)"
  "read_bond (del v k) a = (if k = KBond a then None else read_bond v a)"
  "read_epoch (del v k) = (if k = KRewardEpoch then None else read_epoch v)"
  "read_name (del v k) j = (if k = j then None else read_name v j)"
  "read_dir (del v k) j = (if k = j then None else read_dir v j)"
  by (simp_all add: read_defs)

lemma read_SomeD:
  "read_account v a = Some r \<Longrightarrow> find_sle v (KAccount a) = Some (SAccount r)"
  "read_bond v a = Some b \<Longrightarrow> find_sle v (KBond a) = Some (SBond b)"
  "read_epoch v = Some e \<Longrightarrow> find_sle v KRewardEpoch = Some (SEpoch e)"
  "read_name v k = Some n \<Longrightarrow> find_sle v k = Some (SName n)"
  "read_dir v k = Some d \<Longrightarrow> find_sle v k = Some (SDir d)"
  "read_proposal v k = Some p \<Longrightarrow> find_sle v k = Some (SProposal p)"
  "read_pop_lp v a k = Some l \<Longrightarrow> find_sle v (KPopLp a k) = Some (SPopLp l)"
  by (auto simp: read_defs split: option.splits sle.splits)

lemma read_cong:
  "find_sle v' (KAccount a) = find_sle v (KAccount a) \<Longrightarrow> read_account v' a = read_account v a"
  "find_sle v' (KBond a) = find_sle v (KBond a) \<Longrightarrow> read_bond v' a = read_bond v a"
  "find_sle v' KRewardEpoch = find_sle v KRewardEpoch \<Longrightarrow> read_epoch v' = read_epoch v"
  "find_sle v' k = find_sle v k \<Longrightarrow> read_name v' k = read_name v k"
  by (simp_all add: read_defs)

lemma insert_sle_InrD: "insert_sle v k s = Inr v' \<Longrightarrow> v' = put v k s \<and> find_sle v k = None"
  by (auto simp: insert_sle_def split: option.splits)

lemma insert_sle_fresh [simp]: "find_sle v k = None \<Longrightarrow> insert_sle v k s = Inr (put v k s)"
  by (simp add: insert_sle_def)

subsection \<open>Environment and transactions\<close>

text \<open>
  What the modelled code takes from code outside the sources or from hashing: the 256-bit value of
  an index, the 160-bit hash of a key blob, the parsed and signature-checked form of a serialized
  validation, the seed-derived treasury account, the enabled amendments.
\<close>

record validation =
  val_SignerPublic :: blob
  val_LedgerSequence :: u32
  val_LedgerHash :: u256

record env =
  e_key_hash :: "key \<Rightarrow> u256"
  e_calcValidatorBondID :: "blob \<Rightarrow> account"
  e_calcAccountID :: "blob \<Rightarrow> account"
  e_parseValidation :: "blob \<Rightarrow> validation option"
  e_ammLPTCurrency :: "asset \<Rightarrow> asset \<Rightarrow> currency"
  e_TreasuryAccountID :: account
  e_featureProofOfParticipation :: bool
  e_featureAccountNames :: bool
  e_fixDirectoryLimit :: bool

datatype tx_body =
    ValidatorRegister blob blob              \<comment> \<open>\<^verbatim>\<open>sfPublicKey\<close>, \<^verbatim>\<open>sfConsensusKey\<close>\<close>
  | ValidatorBond blob stamount              \<comment> \<open>\<^verbatim>\<open>sfConsensusKey\<close>, \<^verbatim>\<open>sfBondedAmount\<close>\<close>
  | ValidatorUnbond blob                     \<comment> \<open>\<^verbatim>\<open>sfConsensusKey\<close>\<close>
  | ReleaseBond account                      \<comment> \<open>\<^verbatim>\<open>sfSlashTarget\<close>\<close>
  | ValidatorSlash account u32 "blob option" "blob option"
  | ClaimReward blob                         \<comment> \<open>\<^verbatim>\<open>sfConsensusKey\<close>\<close>
  | ClaimLPReward "key option"               \<comment> \<open>\<^verbatim>\<open>sfVaultID\<close>\<close>
  | ClaimAmmLpReward "asset option" "asset option"
  | GovernanceProposal blob u32 u32          \<comment> \<open>key, \<^verbatim>\<open>sfProposalType\<close>, \<^verbatim>\<open>sfProposalValue\<close>\<close>
  | GovernanceVote blob key u32              \<comment> \<open>key, \<^verbatim>\<open>sfProposalID\<close>, \<^verbatim>\<open>sfVoteWeight\<close>\<close>
  | NameSet "blob option"
  | NameUnbond "blob option"
  | NameRelease "blob option"

record tx =
  tx_Account :: account
  tx_Sequence :: u32
  tx_TicketSequence :: "u32 option"
  tx_Fee :: drops
  tx_ID :: u256
  tx_AccountTxnID :: "u256 option"
  tx_LastLedgerSequence :: "u32 option"
  tx_Flags :: u32
  tx_NetworkID :: "u32 option"
  tx_SigningPubKey :: blob
  tx_TxnSignature :: "blob option"
  tx_body :: tx_body

type_synonym applied = "(ter \<times> view) result"

text \<open>
  \<open>doApply\<close> keeps the two numbers the supply argument is about in step: the drops held by entries
  and the total of the header differ by the same amount before and after.
\<close>

definition supply_gap :: "view \<Rightarrow> drops" where
  "supply_gap v = held v - v_drops v"

text \<open>No entry holds a negative amount.\<close>

definition solvent :: "view \<Rightarrow> bool" where
  "solvent v \<longleftrightarrow> (\<forall>k s. find_sle v k = Some s \<longrightarrow> 0 \<le> sle_drops s)"

definition sound_view :: "view \<Rightarrow> bool" where
  "sound_view v \<longleftrightarrow> wf_view v \<and> solvent v"

text \<open>What every transactor guarantees of the supply when it succeeds.\<close>

definition conserves :: "view \<Rightarrow> view \<Rightarrow> bool" where
  "conserves v v' \<longleftrightarrow> sound_view v' \<and> supply_gap v' = supply_gap v \<and> v_seq v' = v_seq v"

lemma solventD: "solvent v \<Longrightarrow> find_sle v k = Some s \<Longrightarrow> 0 \<le> sle_drops s"
  by (simp add: solvent_def)

lemma solvent_put: "solvent v \<Longrightarrow> 0 \<le> sle_drops s \<Longrightarrow> solvent (put v k s)"
  by (simp add: solvent_def)

lemma solvent_del: "solvent v \<Longrightarrow> solvent (del v k)"
  by (simp add: solvent_def)

lemma held_nonneg: "sound_view v \<Longrightarrow> 0 \<le> held v"
proof -
  assume "sound_view v"
  then have "\<forall>p \<in> set (v_sles v). 0 \<le> sle_drops (snd p)"
    by (auto simp: sound_view_def wf_view_def keys_distinct_def solvent_def find_sle_def)
  then show ?thesis unfolding held_def val_sum_def by (intro sum_list_nonneg) auto
qed

text \<open>In a sound view no entry holds more than all entries together.\<close>

lemma entry_le_held:
  assumes "sound_view v" "find_sle v k = Some s"
  shows "sle_drops s \<le> held v"
proof -
  have "sound_view (del v k)" using assms by (auto simp: sound_view_def intro: solvent_del)
  then have "0 \<le> held (del v k)" by (rule held_nonneg)
  with assms show ?thesis by (simp add: held_del sound_view_def)
qed

lemma conserves_refl: "sound_view v \<Longrightarrow> conserves v v"
  by (simp add: conserves_def)

lemma conserves_trans: "conserves u v \<Longrightarrow> conserves v w \<Longrightarrow> conserves u w"
  by (simp add: conserves_def)

text \<open>
  The writes of the transactors, as steps that conserve the supply: an entry is rewritten with the
  same drops; drops move between two entries; an entry is created from another's drops; an entry
  is erased and its drops given to another.
\<close>

lemma conserves_same:
  assumes "sound_view v" "opt_val sle_drops (find_sle v k) = sle_drops s" "0 \<le> sle_drops s"
  shows "conserves v (put v k s)"
  using assms by (simp add: conserves_def sound_view_def supply_gap_def held_put solvent_put)

lemma conserves_transfer:
  assumes "sound_view v" "find_sle v a = Some x" "find_sle v b = Some y" "a \<noteq> b"
    and "sle_drops x' + sle_drops y' = sle_drops x + sle_drops y" "0 \<le> sle_drops x'" "0 \<le> sle_drops y'"
  shows "conserves v (put (put v a x') b y')"
  using assms lv.total_transfer [of v a x b y x' y']
  by (simp add: conserves_def sound_view_def supply_gap_def solvent_put)

lemma conserves_del:
  assumes "sound_view v" "opt_val sle_drops (find_sle v k) = 0"
  shows "conserves v (del v k)"
  using assms by (simp add: conserves_def sound_view_def supply_gap_def held_del solvent_del)

subsection \<open>Templates\<close>

text \<open>
  An entry is read back from the state tree through \<open>STObject::applyTemplate\<close>, which throws when a
  \<^verbatim>\<open>SoeDefault\<close> field is present with its default value (0, or empty). An entry that passes can be
  stored and read again.
\<close>

definition default_ok :: "'a::zero option \<Rightarrow> bool" where
  "default_ok f \<longleftrightarrow> f \<noteq> Some 0"

definition default_list_ok :: "'a list option \<Rightarrow> bool" where
  "default_list_ok f \<longleftrightarrow> f \<noteq> Some []"

fun applyTemplate_ok :: "sle \<Rightarrow> bool" where
  "applyTemplate_ok (SBond b) =
     (default_ok (bond_UptimeBps b) \<and> default_ok (bond_VoteAccuracyBps b) \<and> default_ok (bond_LatencyScoreBps b)
      \<and> default_ok (bond_ConsistencyBps b) \<and> default_ok (bond_CompositeScore b) \<and> default_ok (bond_SlashCount b)
      \<and> default_ok (bond_LastClaimedEpoch b) \<and> default_ok (bond_UnbondingStartLedger b))"
| "applyTemplate_ok (SEpoch ep) =
     (default_ok (ep_FeeVolumeEMA ep) \<and> default_ok (ep_AggregateCompositeScore ep)
      \<and> default_ok (ep_LPAllocationBps ep) \<and> default_ok (ep_AggregateLPShares ep)
      \<and> default_ok (ep_AmmLPAllocationBps ep) \<and> default_ok (ep_AggregateAmmTvlDrops ep)
      \<and> default_list_ok (ep_Proposals ep))"
| "applyTemplate_ok (SGovParams g) = default_ok (gp_CurrentBurnBps g)"
| "applyTemplate_ok (SProposal p) =
     (default_ok (pr_VotedFor p) \<and> default_ok (pr_VotedAgainst p) \<and> default_list_ok (pr_VoterList p))"
| "applyTemplate_ok (SPopLp l) = default_ok (pl_LastClaimedEpoch l)"
| "applyTemplate_ok (SName n) = default_ok (nm_UnbondingStartLedger n)"
| "applyTemplate_ok _ = True"

lemma default_ok_simps [simp]:
  "default_ok None" "default_ok (Some x) = (x \<noteq> 0)" "default_list_ok None" "default_list_ok (Some xs) = (xs \<noteq> [])"
  by (simp_all add: default_ok_def default_list_ok_def)

end
