(* ===== verification/Directory.thy ===== *)
theory Directory
  imports LedgerState
begin

section \<open>Directories\<close>

text \<open>
  The paged directories of \<^verbatim>\<open>src/libxrpl/ledger/ApplyView.cpp\<close>: a root page and a chain of further
  pages, linked through page numbers with 0 for the root, each with at most 32 indexes. The
  theory models every operation, shows which entries of the state they can touch, and shows that
  a directory behaves as a set of (page, index) pairs: adding adds one pair, removing removes
  one, and an erased page is always empty.

  The C++ code keeps shared pointers to pages, and two of them may denote the same page; the model
  reads a page from the view at each use, so that it sees the writes made through the other one.
\<close>

subsection \<open>Operations\<close>

definition kDIR_NODE_MAX_ENTRIES :: nat where "kDIR_NODE_MAX_ENTRIES = 32"

definition kDIR_NODE_MAX_PAGES :: u64 where "kDIR_NODE_MAX_PAGES = 262144"

definition new_page :: "key \<Rightarrow> dir_node" where
  "new_page d = \<lparr>dn_Owner = None, dn_RootIndex = d, dn_Indexes = [], dn_IndexNext = None,
     dn_IndexPrevious = None\<rparr>"

definition describeOwnerDir :: "account \<Rightarrow> dir_node \<Rightarrow> dir_node" where
  "describeOwnerDir a n = n\<lparr>dn_Owner := Some a\<rparr>"

definition put_dir :: "view \<Rightarrow> key \<Rightarrow> dir_node \<Rightarrow> view" where
  "put_dir v k n = put v k (SDir n)"

definition createRoot :: "view \<Rightarrow> key \<Rightarrow> key \<Rightarrow> (dir_node \<Rightarrow> dir_node) \<Rightarrow> (u64 \<times> view) result" where
  "createRoot v d key describe =
     (case insert_sle v d (SDir ((describe (new_page d))\<lparr>dn_Indexes := [key]\<rparr>)) of
        Inl ex \<Rightarrow> Inl ex
      | Inr v' \<Rightarrow> Inr (0, v'))"

definition findPreviousPage :: "view \<Rightarrow> key \<Rightarrow> dir_node \<Rightarrow> (u64 \<times> dir_node) result" where
  "findPreviousPage v d start =
     (let page = getU (dn_IndexPrevious start) in
      if page \<noteq> 0
      then (case read_dir v (keylet_page d page) of
              None \<Rightarrow> Inl (LogicError ''Directory chain: root back-pointer broken.'')
            | Some node \<Rightarrow> Inr (page, node))
      else Inr (page, start))"

definition insertKey ::
    "env \<Rightarrow> view \<Rightarrow> key \<Rightarrow> u64 \<Rightarrow> dir_node \<Rightarrow> bool \<Rightarrow> key \<Rightarrow> (u64 \<times> view) result" where
  "insertKey e v d page node preserveOrder key =
     (let indexes = dn_Indexes node in
      if preserveOrder
      then if key \<in> set indexes then Inl (LogicError ''dirInsert: double insertion'')
           else Inr (page, put_dir v (keylet_page d page) (node\<lparr>dn_Indexes := indexes @ [key]\<rparr>))
      else let sorted = sort_key (e_key_hash e) indexes;
               pos = dropWhile (\<lambda>k. e_key_hash e k < e_key_hash e key) sorted
           in if pos \<noteq> [] \<and> key = hd pos then Inl (LogicError ''dirInsert: double insertion'')
              else Inr (page, put_dir v (keylet_page d page)
                     (node\<lparr>dn_Indexes := insort_key (e_key_hash e) key sorted\<rparr>)))"

text \<open>
  \<open>insertPage\<close> is called with \<open>nextPage = 0\<close> and the root as \<open>next\<close>. The page number is 64-bit and wraps.
\<close>

definition insertPage ::
    "env \<Rightarrow> view \<Rightarrow> u64 \<Rightarrow> key \<Rightarrow> key \<Rightarrow> (dir_node \<Rightarrow> dir_node) \<Rightarrow> (u64 option \<times> view) result" where
  "insertPage e v page0 key d describe =
     (let page = page0 + 1 in
      if page = 0 then Inr (None, v)
      else if \<not> e_fixDirectoryLimit e \<and> page \<ge> kDIR_NODE_MAX_PAGES then Inr (None, v)
      else (case read_dir v (keylet_page d page0) of
              None \<Rightarrow> Inl (LogicError ''Directory chain: root back-pointer broken.'')
            | Some node \<Rightarrow>
                let v1 = put_dir v (keylet_page d page0) (node\<lparr>dn_IndexNext := Some page\<rparr>) in
                (case read_dir v1 d of
                   None \<Rightarrow> Inl (LogicError ''ApplyStateTable::update: missing key'')
                 | Some root \<Rightarrow>
                     let v2 = put_dir v1 d (root\<lparr>dn_IndexPrevious := Some page\<rparr>);
                         fresh = describe ((new_page d)\<lparr>dn_Indexes := [key],
                           dn_IndexPrevious := (if page \<noteq> 1 then Some (page - 1) else None)\<rparr>)
                     in (case insert_sle v2 (keylet_page d page) (SDir fresh) of
                           Inl ex \<Rightarrow> Inl ex
                         | Inr v3 \<Rightarrow> Inr (Some page, v3)))))"

definition dirAdd ::
    "env \<Rightarrow> view \<Rightarrow> bool \<Rightarrow> key \<Rightarrow> key \<Rightarrow> (dir_node \<Rightarrow> dir_node) \<Rightarrow> (u64 option \<times> view) result" where
  "dirAdd e v preserveOrder d key describe =
     (case read_dir v d of
        None \<Rightarrow> (case createRoot v d key describe of
                    Inl ex \<Rightarrow> Inl ex | Inr (p, v') \<Rightarrow> Inr (Some p, v'))
      | Some root \<Rightarrow>
          (case findPreviousPage v d root of
             Inl ex \<Rightarrow> Inl ex
           | Inr (page, node) \<Rightarrow>
               if length (dn_Indexes node) < kDIR_NODE_MAX_ENTRIES
               then (case insertKey e v d page node preserveOrder key of
                       Inl ex \<Rightarrow> Inl ex | Inr (p, v') \<Rightarrow> Inr (Some p, v'))
               else insertPage e v page key d describe))"

definition dirInsert ::
    "env \<Rightarrow> view \<Rightarrow> key \<Rightarrow> key \<Rightarrow> (dir_node \<Rightarrow> dir_node) \<Rightarrow> (u64 option \<times> view) result" where
  "dirInsert e v d key describe = dirAdd e v False d key describe"

definition dirAppend ::
    "env \<Rightarrow> view \<Rightarrow> key \<Rightarrow> key \<Rightarrow> (dir_node \<Rightarrow> dir_node) \<Rightarrow> (u64 option \<times> view) result" where
  "dirAppend e v d key describe = dirAdd e v True d key describe"

text \<open>Removal of an entry from the root page after it became empty.\<close>

definition dirRemoveRoot :: "view \<Rightarrow> key \<Rightarrow> dir_node \<Rightarrow> bool \<Rightarrow> (bool \<times> view) result" where
  "dirRemoveRoot v d node keepRoot =
     (let prevPage = getU (dn_IndexPrevious node); nextPage = getU (dn_IndexNext node) in
      if nextPage = 0 \<and> prevPage \<noteq> 0 then Inl (LogicError ''Directory chain: fwd link broken'')
      else if prevPage = 0 \<and> nextPage \<noteq> 0 then Inl (LogicError ''Directory chain: rev link broken'')
      else if nextPage = prevPage \<and> nextPage \<noteq> 0
      then (case read_dir v (keylet_page d nextPage) of
              None \<Rightarrow> Inl (LogicError ''Directory chain: fwd link broken.'')
            | Some lastNode \<Rightarrow>
                if dn_Indexes lastNode = []
                then let v1 = put_dir v d (node\<lparr>dn_IndexNext := Some 0, dn_IndexPrevious := Some 0\<rparr>);
                         v2 = del v1 (keylet_page d nextPage)
                     in Inr (True, if keepRoot then v2 else del v2 d)
                else Inr (True, v))
      else Inr (True, if keepRoot then v
                      else if nextPage = 0 \<and> prevPage = 0 then del v d else v))"

text \<open>Unlinking of a page other than the root after it became empty.\<close>

definition dirUnlink :: "view \<Rightarrow> key \<Rightarrow> u64 \<Rightarrow> dir_node \<Rightarrow> bool \<Rightarrow> (bool \<times> view) result" where
  "dirUnlink v d page node keepRoot =
     (let prevPage = getU (dn_IndexPrevious node); nextPage = getU (dn_IndexNext node) in
      if nextPage = page then Inl (LogicError ''Directory chain: fwd link broken'')
      else if prevPage = page then Inl (LogicError ''Directory chain: rev link broken'')
      else case read_dir v (keylet_page d prevPage) of
        None \<Rightarrow> Inl (LogicError ''Directory chain: fwd link broken.'')
      | Some prev \<Rightarrow>
          let v1 = put_dir v (keylet_page d prevPage) (prev\<lparr>dn_IndexNext := Some nextPage\<rparr>) in
          (case read_dir v1 (keylet_page d nextPage) of
             None \<Rightarrow> Inl (LogicError ''Directory chain: rev link broken.'')
           | Some next \<Rightarrow>
               let v2 = put_dir v1 (keylet_page d nextPage) (next\<lparr>dn_IndexPrevious := Some prevPage\<rparr>);
                   v3 = del v2 (keylet_page d page)
               in if nextPage \<noteq> 0 \<and> getU (dn_IndexNext next) = 0 \<and> dn_Indexes next = []
                  then let v4 = del v3 (keylet_page d nextPage) in
                       (case read_dir v4 (keylet_page d prevPage) of
                          None \<Rightarrow> Inl (LogicError ''ApplyStateTable::update: erased'')
                        | Some prev2 \<Rightarrow>
                            let v5 = put_dir v4 (keylet_page d prevPage) (prev2\<lparr>dn_IndexNext := Some 0\<rparr>) in
                            (case read_dir v5 d of
                               None \<Rightarrow> Inl (LogicError ''Directory chain: root link broken.'')
                             | Some root \<Rightarrow>
                                 let v6 = put_dir v5 d (root\<lparr>dn_IndexPrevious := Some prevPage\<rparr>)
                                 in Inr (True, if \<not> keepRoot \<and> prevPage = 0 \<and> dn_Indexes prev = []
                                               then del v6 d else v6)))
                  else Inr (True, if \<not> keepRoot \<and> nextPage = 0 \<and> prevPage = 0 \<and> dn_Indexes prev = []
                                  then del v3 d else v3)))"

definition dirRemove :: "view \<Rightarrow> key \<Rightarrow> u64 \<Rightarrow> key \<Rightarrow> bool \<Rightarrow> (bool \<times> view) result" where
  "dirRemove v d page key keepRoot =
     (case read_dir v (keylet_page d page) of
        None \<Rightarrow> Inr (False, v)
      | Some node0 \<Rightarrow>
          if key \<notin> set (dn_Indexes node0) then Inr (False, v)
          else let entries = remove1 key (dn_Indexes node0);
                   node = node0\<lparr>dn_Indexes := entries\<rparr>;
                   v1 = put_dir v (keylet_page d page) node
               in if entries \<noteq> [] then Inr (True, v1)
                  else if page = 0 then dirRemoveRoot v1 d node keepRoot
                  else dirUnlink v1 d page node keepRoot)"

definition emptyDirDelete :: "view \<Rightarrow> key \<Rightarrow> (bool \<times> view) result" where
  "emptyDirDelete v d =
     (case read_dir v d of
        None \<Rightarrow> Inr (False, v)
      | Some node \<Rightarrow>
          if dn_RootIndex node \<noteq> d then Inr (False, v)
          else if dn_Indexes node \<noteq> [] then Inr (False, v)
          else let prevPage = getU (dn_IndexPrevious node); nextPage = getU (dn_IndexNext node) in
            if nextPage = 0 \<and> prevPage \<noteq> 0 then Inl (LogicError ''Directory chain: fwd link broken'')
            else if prevPage = 0 \<and> nextPage \<noteq> 0 then Inl (LogicError ''Directory chain: rev link broken'')
            else if nextPage = prevPage \<and> nextPage \<noteq> 0
            then (case read_dir v (keylet_page d nextPage) of
                    None \<Rightarrow> Inl (LogicError ''Directory chain: fwd link broken.'')
                  | Some lastNode \<Rightarrow>
                      if dn_Indexes lastNode \<noteq> [] then Inr (False, v)
                      else let v1 = put_dir v d (node\<lparr>dn_IndexNext := Some 0, dn_IndexPrevious := Some 0\<rparr>);
                               v2 = del v1 (keylet_page d nextPage)
                           in Inr (True, del v2 d))
            else Inr (True, if nextPage = 0 \<and> prevPage = 0 then del v d else v))"

text \<open>
  \<open>dirDelete\<close> erases the pages one after the other and hands every index to a callback; the model
  returns the indexes in that order. A page that was erased is not found again, so the loop ends.
\<close>

function dirDelete_loop :: "view \<Rightarrow> key \<Rightarrow> u64 \<Rightarrow> key list \<Rightarrow> bool \<times> key list \<times> view" where
  "dirDelete_loop v d pi items =
     (case read_dir v (keylet_page d pi) of
        None \<Rightarrow> (False, items, v)
      | Some page \<Rightarrow>
          (let v' = del v (keylet_page d pi); items' = items @ dn_Indexes page in
           case dn_IndexNext page of None \<Rightarrow> (True, items', v')
           | Some p \<Rightarrow> dirDelete_loop v' d p items'))"
  by pat_completeness auto

lemma del_found_shorter: "find_sle v k \<noteq> None \<Longrightarrow> length (v_sles (del v k)) < length (v_sles v)"
proof -
  assume "find_sle v k \<noteq> None"
  then have "k \<in> fst ` set (v_sles v)"
    by (auto simp: find_sle_def dest!: map_of_SomeD intro: rev_image_eqI)
  then show ?thesis
    by (auto simp: del_def AList.delete_eq intro!: length_filter_less)
qed

termination dirDelete_loop
proof (relation "measure (\<lambda>(v, d, pi, items). length (v_sles v))", goal_cases)
  case (2 v d pi items page v' items' p)
  then have "find_sle v (keylet_page d pi) \<noteq> None" by (auto dest: read_SomeD)
  with 2 show ?case by (simp add: del_found_shorter)
qed simp

declare dirDelete_loop.simps [simp del]

definition dirDelete :: "view \<Rightarrow> key \<Rightarrow> bool \<times> key list \<times> view" where
  "dirDelete v d = dirDelete_loop v d 0 []"

subsection \<open>Edits of one directory\<close>

text \<open>
  Every operation is a sequence of edits: a page of the directory that exists is rewritten or
  erased, or a page is created under a free key. What holds along every such sequence is proved
  once, by rule induction.
\<close>

definition dir_slot :: "view \<Rightarrow> key \<Rightarrow> bool" where
  "dir_slot v k \<longleftrightarrow> find_sle v k = None \<or> read_dir v k \<noteq> None"

inductive dir_edits :: "key \<Rightarrow> view \<Rightarrow> view \<Rightarrow> bool" for d where
  edits_refl: "dir_edits d v v"
| edits_put: "dir_edits d v w \<Longrightarrow> dir_slot w (keylet_page d i) \<Longrightarrow>
    dir_edits d v (put_dir w (keylet_page d i) n)"
| edits_del: "dir_edits d v w \<Longrightarrow> read_dir w (keylet_page d i) \<noteq> None \<Longrightarrow>
    dir_edits d v (del w (keylet_page d i))"

lemma edits_put_root: "dir_edits d v w \<Longrightarrow> dir_slot w d \<Longrightarrow> dir_edits d v (put_dir w d n)"
  using edits_put [of d v w 0] by simp

lemma edits_del_root: "dir_edits d v w \<Longrightarrow> read_dir w d \<noteq> None \<Longrightarrow> dir_edits d v (del w d)"
  using edits_del [of d v w 0] by simp

lemmas edits_intros = edits_refl edits_put edits_del edits_put_root edits_del_root

definition page_of :: "key \<Rightarrow> key \<Rightarrow> bool" where
  "page_of d k \<longleftrightarrow> k = d \<or> (case k of KPage d' _ \<Rightarrow> d' = d | _ \<Rightarrow> False)"

lemma page_of_keylet [simp]: "page_of d (keylet_page d i)"
  by (simp add: page_of_def keylet_page_def)

lemma page_of_simps [simp]:
  "page_of (KOwnerDir a) (KAccount b) = False" "page_of (KOwnerDir a) (KBond b) = False"
  "page_of (KOwnerDir a) KRewardEpoch = False" "page_of (KOwnerDir a) KGovParams = False"
  "page_of (KOwnerDir a) (KProposal b s) = False" "page_of (KOwnerDir a) (KAccountName n) = False"
  "page_of (KOwnerDir a) (KPopLp b k) = False" "page_of (KOwnerDir a) (KTicket b s) = False"
  by (simp_all add: page_of_def)

text \<open>What an edit sequence leaves alone: everything but the directory's pages, and the drops held.\<close>

definition dir_frame :: "key \<Rightarrow> view \<Rightarrow> view \<Rightarrow> bool" where
  "dir_frame d v v' \<longleftrightarrow> v_seq v' = v_seq v \<and> v_drops v' = v_drops v
     \<and> (\<forall>k. \<not> page_of d k \<longrightarrow> find_sle v' k = find_sle v k)
     \<and> (wf_view v \<longrightarrow> wf_view v' \<and> held v' = held v)"

lemma dir_slot_drops: "dir_slot v k \<Longrightarrow> opt_val sle_drops (find_sle v k) = 0"
  by (auto simp: dir_slot_def dest!: read_SomeD)

lemma dir_edits_frame: "dir_edits d v v' \<Longrightarrow> dir_frame d v v'"
proof (induction rule: dir_edits.induct)
  case (edits_refl v)
  then show ?case by (simp add: dir_frame_def)
next
  case (edits_put v w i n)
  then show ?case by (auto simp: dir_frame_def put_dir_def held_put dir_slot_drops)
next
  case (edits_del v w i)
  then have "dir_slot w (keylet_page d i)" by (simp add: dir_slot_def)
  with edits_del show ?case by (auto simp: dir_frame_def held_del dir_slot_drops)
qed

lemma read_dir_put_dir [simp]:
  "read_dir (put_dir v k n) j = (if k = j then Some n else read_dir v j)"
  by (simp add: put_dir_def)

lemma find_sle_put_dir [simp]:
  "find_sle (put_dir v k n) j = (if j = k then Some (SDir n) else find_sle v j)"
  by (simp add: put_dir_def)

lemma dir_slot_put_dir [simp]: "dir_slot (put_dir v k n) j = (j = k \<or> dir_slot v j)"
  by (auto simp: dir_slot_def)

lemma dir_slot_del [simp]: "dir_slot (del v k) j = (j = k \<or> dir_slot v j)"
  by (auto simp: dir_slot_def)

lemma dir_slotI: "read_dir v k = Some n \<Longrightarrow> dir_slot v k" "find_sle v k = None \<Longrightarrow> dir_slot v k"
  by (simp_all add: dir_slot_def)

lemma insertKey_edits:
  "insertKey e v d page node po key = Inr (p, v') \<Longrightarrow> dir_slot v (keylet_page d page) \<Longrightarrow> dir_edits d v v'"
  by (auto simp: insertKey_def Let_def split: if_splits intro: edits_intros)

lemma insertPage_edits: "insertPage e v page key d describe = Inr (p, v') \<Longrightarrow> dir_edits d v v'"
  by (auto simp: insertPage_def Let_def put_dir_def [symmetric] dir_slot_def
      split: option.splits sum.splits if_splits dest!: insert_sle_InrD
      intro!: edits_intros)

lemma createRoot_edits: "createRoot v d key describe = Inr (p, v') \<Longrightarrow> dir_edits d v v'"
  by (auto simp: createRoot_def put_dir_def [symmetric] dir_slot_def split: sum.splits
      dest!: insert_sle_InrD intro!: edits_intros)

lemma findPreviousPage_read:
  "findPreviousPage v d root = Inr (page, node) \<Longrightarrow> read_dir v d = Some root \<Longrightarrow>
   read_dir v (keylet_page d page) = Some node"
  by (auto simp: findPreviousPage_def Let_def split: if_splits option.splits)

lemma dirAdd_edits:
  assumes "dirAdd e v po d key describe = Inr (p, v')"
  shows "dir_edits d v v'"
proof (cases "read_dir v d")
  case None
  with assms show ?thesis
    by (auto simp: dirAdd_def split: sum.splits dest: createRoot_edits)
next
  case (Some root)
  with assms obtain page node where f: "findPreviousPage v d root = Inr (page, node)"
    by (auto simp: dirAdd_def split: sum.splits)
  with Some have "dir_slot v (keylet_page d page)"
    by (auto dest: findPreviousPage_read dir_slotI)
  with assms Some f show ?thesis
    by (auto simp: dirAdd_def split: sum.splits if_splits dest: insertPage_edits insertKey_edits)
qed

text \<open>Edits that keep every page's indexes, or erase a page that has none.\<close>

inductive dir_relink :: "key \<Rightarrow> view \<Rightarrow> view \<Rightarrow> bool" for d where
  relink_refl: "dir_relink d v v"
| relink_put: "dir_relink d v w \<Longrightarrow>
    map_option dn_Indexes (read_dir w (keylet_page d i)) = Some (dn_Indexes n) \<Longrightarrow>
    dir_relink d v (put_dir w (keylet_page d i) n)"
| relink_del: "dir_relink d v w \<Longrightarrow>
    map_option dn_Indexes (read_dir w (keylet_page d i)) = Some [] \<Longrightarrow>
    dir_relink d v (del w (keylet_page d i))"

lemma relink_put_root:
  "dir_relink d v w \<Longrightarrow> map_option dn_Indexes (read_dir w d) = Some (dn_Indexes n) \<Longrightarrow>
   dir_relink d v (put_dir w d n)"
  using relink_put [of d v w 0] by simp

lemma relink_del_root:
  "dir_relink d v w \<Longrightarrow> map_option dn_Indexes (read_dir w d) = Some [] \<Longrightarrow> dir_relink d v (del w d)"
  using relink_del [of d v w 0] by simp

lemmas relink_intros = relink_refl relink_put relink_del relink_put_root relink_del_root

lemma dir_relink_edits: "dir_relink d v w \<Longrightarrow> dir_edits d u v \<Longrightarrow> dir_edits d u w"
  by (induction rule: dir_relink.induct) (auto simp: dir_slot_def intro!: edits_intros)

text \<open>
  The indexes on each page, and the set of (page, index) pairs a directory stands for.
\<close>

definition page_indexes :: "view \<Rightarrow> key \<Rightarrow> u64 \<Rightarrow> key list" where
  "page_indexes v d i = (case read_dir v (keylet_page d i) of None \<Rightarrow> [] | Some n \<Rightarrow> dn_Indexes n)"

definition dir_entries :: "view \<Rightarrow> key \<Rightarrow> (u64 \<times> key) set" where
  "dir_entries v d = {(i, k). k \<in> set (page_indexes v d i)}"

lemma page_indexes_put:
  "page_indexes (put_dir v (keylet_page d i) n) d = (page_indexes v d)(i := dn_Indexes n)"
  by (auto simp: page_indexes_def)

lemma page_indexes_put_root: "page_indexes (put_dir v d n) d = (page_indexes v d)(0 := dn_Indexes n)"
  using page_indexes_put [of v d 0 n] by simp

lemma page_indexes_del: "page_indexes (del v (keylet_page d i)) d = (page_indexes v d)(i := [])"
  by (auto simp: page_indexes_def)

lemma page_indexes_put_same:
  "read_dir v (keylet_page d i) = Some n0 \<Longrightarrow> dn_Indexes n = dn_Indexes n0 \<Longrightarrow>
   page_indexes (put_dir v (keylet_page d i) n) d = page_indexes v d"
  by (auto simp: page_indexes_put page_indexes_def)

lemma page_indexes_put_same_root:
  "read_dir v d = Some n0 \<Longrightarrow> dn_Indexes n = dn_Indexes n0 \<Longrightarrow>
   page_indexes (put_dir v d n) d = page_indexes v d"
  using page_indexes_put_same [of v d 0] by simp

lemma page_indexes_relink: "dir_relink d v w \<Longrightarrow> page_indexes w d = page_indexes v d"
proof (induction rule: dir_relink.induct)
  case (relink_put v w i n)
  then have "page_indexes w d i = dn_Indexes n" by (auto simp: page_indexes_def)
  with relink_put.IH show ?case by (auto simp: page_indexes_put)
next
  case (relink_del v w i)
  then have "page_indexes w d i = []" by (auto simp: page_indexes_def)
  with relink_del.IH show ?case by (auto simp: page_indexes_del)
qed simp

lemma dirRemoveRoot_relink:
  assumes "dirRemoveRoot v d node keep = Inr (b, v')" "read_dir v d = Some node" "dn_Indexes node = []"
  shows "dir_relink d v v' \<and> b"
proof -
  define nx where "nx = getU (dn_IndexNext node)"
  define pv where "pv = getU (dn_IndexPrevious node)"
  note u = assms(1) [unfolded dirRemoveRoot_def Let_def, folded nx_def pv_def]
  show ?thesis
  proof (cases "nx = 0")
    case True
    with u assms(2,3) show ?thesis by (auto split: if_splits intro!: relink_intros)
  next
    case nx: False
    show ?thesis
    proof (cases "nx = pv")
      case True
      with u assms(2,3) nx show ?thesis
        by (auto split: option.splits if_splits intro!: relink_intros)
    next
      case False
      with u nx show ?thesis by (auto split: if_splits intro!: relink_intros)
    qed
  qed
qed

lemma dirUnlink_relink:
  assumes "dirUnlink v d page node keep = Inr (b, v')"
    and "read_dir v (keylet_page d page) = Some node" "dn_Indexes node = []"
  shows "dir_relink d v v' \<and> b"
proof -
  define nx where "nx = getU (dn_IndexNext node)"
  define pv where "pv = getU (dn_IndexPrevious node)"
  note u = assms(1) [unfolded dirUnlink_def Let_def, folded nx_def pv_def]
  from u assms(2,3) show ?thesis
    by (auto split: option.splits if_splits intro!: relink_intros)
qed

text \<open>A removal that succeeds first takes the index out of its page, then relinks.\<close>

lemma dirRemove_cases:
  assumes "dirRemove v d page key keep = Inr (b, v')"
  obtains (missing) "\<not> b" "v' = v" "(page, key) \<notin> dir_entries v d"
  | (removed) node where "b" "read_dir v (keylet_page d page) = Some node" "key \<in> set (dn_Indexes node)"
      "dir_relink d (put_dir v (keylet_page d page) (node\<lparr>dn_Indexes := remove1 key (dn_Indexes node)\<rparr>)) v'"
proof (cases "read_dir v (keylet_page d page)")
  case None
  with assms show thesis
    by (intro missing) (auto simp: dirRemove_def dir_entries_def page_indexes_def)
next
  case (Some node)
  show thesis
  proof (cases "key \<in> set (dn_Indexes node)")
    case False
    with assms Some show thesis
      by (intro missing) (auto simp: dirRemove_def dir_entries_def page_indexes_def)
  next
    case True
    let ?n = "node\<lparr>dn_Indexes := remove1 key (dn_Indexes node)\<rparr>"
    let ?w = "put_dir v (keylet_page d page) ?n"
    have "dir_relink d ?w v' \<and> b"
    proof (cases "remove1 key (dn_Indexes node) = []")
      case False
      with assms Some True show ?thesis by (auto simp: dirRemove_def Let_def intro: relink_intros)
    next
      case e: True
      show ?thesis
      proof (cases "page = 0")
        case True
        with assms Some \<open>key \<in> _\<close> e have "dirRemoveRoot ?w d ?n keep = Inr (b, v')"
          by (simp add: dirRemove_def Let_def)
        then show ?thesis by (rule dirRemoveRoot_relink) (use True e in simp_all)
      next
        case False
        with assms Some \<open>key \<in> _\<close> e have "dirUnlink ?w d page ?n keep = Inr (b, v')"
          by (simp add: dirRemove_def Let_def)
        then show ?thesis by (rule dirUnlink_relink) (use e in simp_all)
      qed
    qed
    with Some True show thesis by (intro removed) auto
  qed
qed

lemma dirRemove_edits:
  assumes "dirRemove v d page key keep = Inr (b, v')"
  shows "dir_edits d v v'"
  using assms
proof (cases rule: dirRemove_cases)
  case missing
  then show ?thesis by (simp add: edits_refl)
next
  case (removed node)
  then have "dir_edits d v (put_dir v (keylet_page d page) (node\<lparr>dn_Indexes := remove1 key (dn_Indexes node)\<rparr>))"
    by (intro edits_intros) (simp add: dir_slot_def)
  with removed show ?thesis by (auto intro: dir_relink_edits)
qed

subsection \<open>A directory is a set of entries\<close>

lemma sorted_pages_insort: "set (insort_key f x (sort_key f xs)) = insert x (set xs)"
  by (simp add: set_insort_key)

lemma insertKey_indexes:
  "insertKey e v d page node po key = Inr (p, v') \<Longrightarrow> read_dir v (keylet_page d page) = Some node \<Longrightarrow>
   p = page \<and> (\<exists>xs. page_indexes v' d = (page_indexes v d)(page := xs)
     \<and> set xs = insert key (set (page_indexes v d page)) \<and> length xs = Suc (length (page_indexes v d page)))"
  by (auto simp: insertKey_def Let_def page_indexes_put page_indexes_def set_insort_key
      split: if_splits)

lemma insertPage_indexes:
  assumes "insertPage e v page key d describe = Inr (Some p, v')"
    and "\<And>n. dn_Indexes (describe n) = dn_Indexes n"
  shows "p = page + 1 \<and> page_indexes v' d = (page_indexes v d)(p := [key]) \<and> page_indexes v d p = []"
proof -
  from assms(1) have p: "p = page + 1" "p \<noteq> 0" by (auto simp: insertPage_def Let_def split: if_splits option.splits sum.splits)
  obtain node where n: "read_dir v (keylet_page d page) = Some node"
    using assms(1) by (auto simp: insertPage_def Let_def split: if_splits option.splits)
  let ?v1 = "put_dir v (keylet_page d page) (node\<lparr>dn_IndexNext := Some p\<rparr>)"
  obtain root where r: "read_dir ?v1 d = Some root"
    using assms(1) n p by (auto simp: insertPage_def Let_def split: if_splits option.splits)
  let ?v2 = "put_dir ?v1 d (root\<lparr>dn_IndexPrevious := Some p\<rparr>)"
  obtain n' where f: "find_sle ?v2 (keylet_page d p) = None"
    and v': "v' = put_dir ?v2 (keylet_page d p) n'" and i: "dn_Indexes n' = [key]"
    using assms n p r
    by (auto simp: insertPage_def Let_def put_dir_def [symmetric] split: if_splits sum.splits
        dest!: insert_sle_InrD)
  have 1: "page_indexes ?v1 d = page_indexes v d"
    by (rule page_indexes_put_same [OF n]) simp
  moreover have "page_indexes ?v2 d = page_indexes ?v1 d"
    by (rule page_indexes_put_same_root [OF r]) simp
  moreover have "page_indexes ?v2 d p = []"
    using f by (simp add: page_indexes_def read_dir_def)
  ultimately show ?thesis using p i by (simp add: v' page_indexes_put)
qed


text \<open>
  The full directory: \<open>dirAdd\<close> puts the index on the page it returns and changes no other page;
  when it returns no page nothing changed.
\<close>

lemma dirAdd_indexes:
  assumes "dirAdd e v po d key describe = Inr (Some p, v')"
    and "\<And>n. dn_Indexes (describe n) = dn_Indexes n"
  shows "\<exists>xs. page_indexes v' d = (page_indexes v d)(p := xs)
    \<and> set xs = insert key (set (page_indexes v d p))
    \<and> length xs = Suc (length (page_indexes v d p)) \<and> length xs \<le> kDIR_NODE_MAX_ENTRIES"
proof (cases "read_dir v d")
  case None
  with assms have "p = 0" "page_indexes v' d = (page_indexes v d)(0 := [key])" "page_indexes v d 0 = []"
    by (auto simp: dirAdd_def createRoot_def page_indexes_put_root put_dir_def [symmetric] page_indexes_def
        split: sum.splits dest!: insert_sle_InrD)
  then show ?thesis by (intro exI [of _ "[key]"]) (simp add: kDIR_NODE_MAX_ENTRIES_def)
next
  case (Some root)
  with assms(1) obtain page node where f: "findPreviousPage v d root = Inr (page, node)"
    by (auto simp: dirAdd_def split: sum.splits)
  with Some have r: "read_dir v (keylet_page d page) = Some node" by (auto dest: findPreviousPage_read)
  show ?thesis
  proof (cases "length (dn_Indexes node) < kDIR_NODE_MAX_ENTRIES")
    case True
    with assms(1) Some f have "insertKey e v d page node po key = Inr (p, v')"
      by (auto simp: dirAdd_def split: sum.splits)
    from insertKey_indexes [OF this r] True r show ?thesis by (auto simp: page_indexes_def)
  next
    case False
    with assms(1) Some f have "insertPage e v page key d describe = Inr (Some p, v')"
      by (auto simp: dirAdd_def split: sum.splits)
    from insertPage_indexes [OF this assms(2)] show ?thesis
      by (intro exI [of _ "[key]"]) (auto simp: kDIR_NODE_MAX_ENTRIES_def)
  qed
qed

lemma dirAdd_full: "dirAdd e v po d key describe = Inr (None, v') \<Longrightarrow> v' = v"
  by (auto simp: dirAdd_def insertPage_def Let_def split: option.splits sum.splits prod.splits if_splits)

lemma dirAdd_entries:
  assumes "dirAdd e v po d key describe = Inr (Some p, v')"
    and "\<And>n. dn_Indexes (describe n) = dn_Indexes n"
  shows "dir_entries v' d = insert (p, key) (dir_entries v d)"
  using dirAdd_indexes [OF assms] by (auto simp: dir_entries_def split: if_splits)

lemma dirRemove_indexes:
  "dirRemove v d page key keep = Inr (True, v') \<Longrightarrow>
   page_indexes v' d = (page_indexes v d)(page := remove1 key (page_indexes v d page))
   \<and> key \<in> set (page_indexes v d page)"
  by (erule dirRemove_cases) (auto simp: page_indexes_relink page_indexes_put page_indexes_def)

lemma dirRemove_entries:
  assumes "dirRemove v d page key keep = Inr (True, v')" "distinct (page_indexes v d page)"
  shows "dir_entries v' d = dir_entries v d - {(page, key)}"
  using dirRemove_indexes [OF assms(1)] assms(2) by (auto simp: dir_entries_def split: if_splits)

text \<open>The invariant of a directory: no page exceeds its capacity or lists an index twice.\<close>

definition dir_ok :: "view \<Rightarrow> key \<Rightarrow> bool" where
  "dir_ok v d \<longleftrightarrow> (\<forall>i. length (page_indexes v d i) \<le> kDIR_NODE_MAX_ENTRIES \<and> distinct (page_indexes v d i))"

lemma dirAdd_dir_ok:
  assumes "dirAdd e v po d key describe = Inr (Some p, v')"
    and "\<And>n. dn_Indexes (describe n) = dn_Indexes n" and "dir_ok v d" and "(p, key) \<notin> dir_entries v d"
  shows "dir_ok v' d"
proof -
  obtain xs where x: "page_indexes v' d = (page_indexes v d)(p := xs)"
      "set xs = insert key (set (page_indexes v d p))"
      "length xs = Suc (length (page_indexes v d p))" "length xs \<le> kDIR_NODE_MAX_ENTRIES"
    using dirAdd_indexes [OF assms(1,2)] by blast
  from assms(3,4) have "distinct (page_indexes v d p)" "key \<notin> set (page_indexes v d p)"
    by (auto simp: dir_ok_def dir_entries_def)
  with x have "card (set xs) = length xs" by (simp add: distinct_card)
  then have "distinct xs" by (rule card_distinct)
  with x assms(3) show ?thesis by (simp add: dir_ok_def)
qed

lemma dirRemove_dir_ok:
  assumes "dirRemove v d page key keep = Inr (b, v')" "dir_ok v d"
  shows "dir_ok v' d"
proof (cases b)
  case True
  from dirRemove_indexes [of v d page key keep v'] assms True show ?thesis
    by (auto simp: dir_ok_def length_remove1 intro: order_trans [OF diff_le_self])
next
  case False
  with assms(1) have "v' = v" by (cases rule: dirRemove_cases) auto
  with assms(2) show ?thesis by simp
qed

text \<open>
  The double-insertion check. With distinct hashes on the page, \<open>lower_bound\<close> on the sorted page
  finds the index exactly when it is there.
\<close>

lemma lower_bound_hit:
  fixes f :: "'a \<Rightarrow> 'b::linorder"
  assumes "sorted (map f ys)" "x \<in> set ys" "inj_on f (insert x (set ys))"
  shows "\<exists>zs. dropWhile (\<lambda>y. f y < f x) ys = x # zs"
  using assms
proof (induction ys)
  case (Cons y ys)
  show ?case
  proof (cases "f y < f x")
    case True
    then have "y \<noteq> x" by auto
    with Cons.prems(2) have "x \<in> set ys" by simp
    moreover have "inj_on f (insert x (set ys))"
      by (rule inj_on_subset [OF Cons.prems(3)]) auto
    ultimately show ?thesis using Cons.IH Cons.prems(1) True by simp
  next
    case False
    have "f y \<le> f x" using Cons.prems(1,2) by auto
    with False have "f y = f x" by simp
    then have "y = x" using Cons.prems(2,3) by (auto dest: inj_onD)
    with False show ?thesis by simp
  qed
qed simp

lemma insertKey_duplicate:
  assumes "key \<in> set (dn_Indexes node)" "inj_on (e_key_hash e) (set (dn_Indexes node))"
  shows "insertKey e v d page node po key = Inl (LogicError ''dirInsert: double insertion'')"
  using lower_bound_hit [of "e_key_hash e" "sort_key (e_key_hash e) (dn_Indexes node)" key] assms
  by (auto simp: insertKey_def Let_def insert_absorb)

lemma insertKey_fresh:
  "insertKey e v d page node po key = Inr (p, v') \<Longrightarrow> inj_on (e_key_hash e) (set (dn_Indexes node)) \<Longrightarrow>
   key \<notin> set (dn_Indexes node)"
  using insertKey_duplicate [of key node e v d page po] by auto

subsection \<open>The interface the transactors use\<close>

text \<open>
  A transactor keeps, in the entry it creates, the page that \<open>dirInsert\<close> returned, and gives it back
  to \<open>dirRemove\<close>. The contract of that exchange, and the round trip it yields.
\<close>

locale entry_directory =
  fixes add :: "'v \<Rightarrow> 'd \<Rightarrow> 'k \<Rightarrow> ('p option \<times> 'v) result"
    and rm :: "'v \<Rightarrow> 'd \<Rightarrow> 'p \<Rightarrow> 'k \<Rightarrow> (bool \<times> 'v) result"
    and entries :: "'v \<Rightarrow> 'd \<Rightarrow> ('p \<times> 'k) set"
    and ok :: "'v \<Rightarrow> 'd \<Rightarrow> bool"
  assumes add_entries: "add v d k = Inr (Some p, v') \<Longrightarrow> entries v' d = insert (p, k) (entries v d)"
    and add_none: "add v d k = Inr (None, v') \<Longrightarrow> v' = v"
    and add_ok: "add v d k = Inr (Some p, v') \<Longrightarrow> ok v d \<Longrightarrow> (p, k) \<notin> entries v d \<Longrightarrow> ok v' d"
    and rm_true: "rm v d p k = Inr (True, v') \<Longrightarrow> ok v d \<Longrightarrow> entries v' d = entries v d - {(p, k)}"
    and rm_false: "rm v d p k = Inr (False, v') \<Longrightarrow> v' = v \<and> (p, k) \<notin> entries v d"
    and rm_ok: "rm v d p k = Inr (b, v') \<Longrightarrow> ok v d \<Longrightarrow> ok v' d"
begin

lemma add_then_rm:
  assumes "add v d k = Inr (Some p, v1)" "rm v1 d p k = Inr (b, v2)" "ok v d" "(p, k) \<notin> entries v d"
  shows "b \<and> entries v2 d = entries v d \<and> ok v2 d"
proof -
  from assms have ok1: "ok v1 d" and e1: "entries v1 d = insert (p, k) (entries v d)"
    by (auto intro: add_ok dest: add_entries)
  have b: b
  proof (rule ccontr)
    assume "\<not> b"
    with assms(2) have "rm v1 d p k = Inr (False, v2)" by simp
    then have "(p, k) \<notin> entries v1 d" using rm_false by blast
    with e1 show False by simp
  qed
  with rm_true [of v1 d p k v2] ok1 e1 assms show ?thesis by (auto intro: rm_ok)
qed

end

definition ownerDirInsert :: "env \<Rightarrow> view \<Rightarrow> account \<Rightarrow> key \<Rightarrow> (u64 option \<times> view) result" where
  "ownerDirInsert e v a key = dirInsert e v (KOwnerDir a) key (describeOwnerDir a)"

definition ownerDirRemove :: "view \<Rightarrow> account \<Rightarrow> u64 \<Rightarrow> key \<Rightarrow> (bool \<times> view) result" where
  "ownerDirRemove v a page key = dirRemove v (KOwnerDir a) page key False"

definition owner_entries :: "view \<Rightarrow> account \<Rightarrow> (u64 \<times> key) set" where
  "owner_entries v a = dir_entries v (KOwnerDir a)"

definition owner_dir_ok :: "view \<Rightarrow> account \<Rightarrow> bool" where
  "owner_dir_ok v a = dir_ok v (KOwnerDir a)"

lemmas owner_dir_defs = ownerDirInsert_def ownerDirRemove_def owner_entries_def owner_dir_ok_def

lemma describeOwnerDir_indexes [simp]: "dn_Indexes (describeOwnerDir a n) = dn_Indexes n"
  by (simp add: describeOwnerDir_def)

lemma dirRemove_false:
  "dirRemove v d p k keep = Inr (False, v') \<Longrightarrow> v' = v \<and> (p, k) \<notin> dir_entries v d"
  by (erule dirRemove_cases) auto

interpretation od: entry_directory "ownerDirInsert e" ownerDirRemove owner_entries owner_dir_ok for e
proof (unfold_locales, unfold owner_dir_defs dirInsert_def, goal_cases)
  case (1 v d k p v')
  then show ?case by (rule dirAdd_entries) simp
next
  case (2 v d k v')
  then show ?case by (rule dirAdd_full)
next
  case (3 v d k p v')
  from 3(1) show ?case by (rule dirAdd_dir_ok) (use 3 in simp_all)
next
  case (4 v d p k v')
  from 4(1) show ?case by (rule dirRemove_entries) (use 4 in \<open>simp add: dir_ok_def\<close>)
next
  case (5 v d p k v')
  then show ?case by (rule dirRemove_false)
next
  case (6 v d p k b v')
  then show ?case by (rule dirRemove_dir_ok)
qed

lemma ownerDirInsert_frame: "ownerDirInsert e v a k = Inr (p, v') \<Longrightarrow> dir_frame (KOwnerDir a) v v'"
  by (auto simp: ownerDirInsert_def dirInsert_def intro: dir_edits_frame dirAdd_edits)

lemma ownerDirRemove_frame: "ownerDirRemove v a p k = Inr (b, v') \<Longrightarrow> dir_frame (KOwnerDir a) v v'"
  by (auto simp: ownerDirRemove_def intro: dir_edits_frame dirRemove_edits)

lemma dir_frame_find: "dir_frame d v v' \<Longrightarrow> \<not> page_of d k \<Longrightarrow> find_sle v' k = find_sle v k"
  by (simp add: dir_frame_def)

lemma dir_frame_simps:
  assumes "dir_frame (KOwnerDir a) v v'"
  shows "v_seq v' = v_seq v" "v_drops v' = v_drops v"
    "find_sle v' (KAccount b) = find_sle v (KAccount b)" "find_sle v' (KBond b) = find_sle v (KBond b)"
    "find_sle v' KRewardEpoch = find_sle v KRewardEpoch"
    "find_sle v' (KProposal b s) = find_sle v (KProposal b s)"
    "find_sle v' (KAccountName n) = find_sle v (KAccountName n)"
    "find_sle v' (KTicket b s) = find_sle v (KTicket b s)"
    "read_account v' b = read_account v b" "read_bond v' b = read_bond v b" "read_epoch v' = read_epoch v"
    "wf_view v \<Longrightarrow> wf_view v'" "wf_view v \<Longrightarrow> held v' = held v"
  using assms by (simp_all add: dir_frame_def read_defs)

lemma dir_edits_solvent: "dir_edits d v v' \<Longrightarrow> solvent v \<Longrightarrow> solvent v'"
  by (induction rule: dir_edits.induct) (auto simp: put_dir_def intro: solvent_put solvent_del)

lemma dir_edits_conserves: "dir_edits d v v' \<Longrightarrow> sound_view v \<Longrightarrow> conserves v v'"
  using dir_edits_frame [of d v v'] dir_edits_solvent [of d v v']
  by (auto simp: conserves_def sound_view_def dir_frame_def supply_gap_def)

lemma ownerDirInsert_conserves:
  "ownerDirInsert e v a k = Inr (p, v') \<Longrightarrow> sound_view v \<Longrightarrow> conserves v v'"
  by (auto simp: ownerDirInsert_def dirInsert_def intro: dir_edits_conserves dirAdd_edits)

lemma ownerDirRemove_conserves:
  "ownerDirRemove v a p k = Inr (b, v') \<Longrightarrow> sound_view v \<Longrightarrow> conserves v v'"
  by (auto simp: ownerDirRemove_def intro: dir_edits_conserves dirRemove_edits)

text \<open>Writes outside a directory's pages do not change its entries.\<close>

lemma page_indexes_other [simp]:
  assumes "\<not> page_of d k"
  shows "page_indexes (put v k s) d = page_indexes v d" "page_indexes (del v k) d = page_indexes v d"
proof -
  have "k \<noteq> keylet_page d i" for i using assms by auto
  then show "page_indexes (put v k s) d = page_indexes v d" "page_indexes (del v k) d = page_indexes v d"
    by (auto simp: page_indexes_def)
qed

lemma owner_entries_other [simp]:
  assumes "\<not> page_of (KOwnerDir a) k"
  shows "owner_entries (put v k s) a = owner_entries v a" "owner_entries (del v k) a = owner_entries v a"
    "owner_dir_ok (put v k s) a = owner_dir_ok v a" "owner_dir_ok (del v k) a = owner_dir_ok v a"
  using assms by (simp_all add: owner_dir_defs dir_entries_def dir_ok_def)


subsection \<open>Deleting a directory\<close>

text \<open>
  The loop of \<open>dirDelete\<close> erases a page in every round, so it ends. What it hands out are the entries of
  the pages it erased.
\<close>

lemma dirDelete_loop_effect:
  assumes "dirDelete_loop v d pi items = (b, items', v')"
  shows "(\<forall>u. dir_edits d u v \<longrightarrow> dir_edits d u v')
    \<and> dir_entries v' d \<subseteq> dir_entries v d
    \<and> set items' = set items \<union> snd ` (dir_entries v d - dir_entries v' d)
    \<and> (\<forall>k. find_sle v k = None \<longrightarrow> find_sle v' k = None)
    \<and> read_dir v' (keylet_page d pi) = None"
  using assms
proof (induction v d pi items arbitrary: b items' v' rule: dirDelete_loop.induct)
  case (1 v d pi items)
  show ?case
  proof (cases "read_dir v (keylet_page d pi)")
    case None
    with "1.prems" show ?thesis by (auto simp: dirDelete_loop.simps [of v])
  next
    case (Some page)
    let ?w = "del v (keylet_page d pi)"
    have pg: "page_indexes v d pi = dn_Indexes page" using Some by (simp add: page_indexes_def)
    have ent: "dir_entries ?w d = dir_entries v d - {pi} \<times> set (dn_Indexes page)"
      by (auto simp: dir_entries_def page_indexes_del pg split: if_splits)
    have sub: "{pi} \<times> set (dn_Indexes page) \<subseteq> dir_entries v d" by (auto simp: dir_entries_def pg)
    have gone: "find_sle ?w (keylet_page d pi) = None" by simp
    have ed: "dir_edits d u v \<Longrightarrow> dir_edits d u ?w" for u using Some by (intro edits_del) auto
    show ?thesis
    proof (cases "dn_IndexNext page")
      case None
      with "1.prems" Some have "v' = ?w" "items' = items @ dn_Indexes page"
        by (simp_all add: dirDelete_loop.simps [of v])
      moreover have "dir_entries v d - (dir_entries v d - {pi} \<times> set (dn_Indexes page)) = {pi} \<times> set (dn_Indexes page)"
        using sub by blast
      ultimately show ?thesis using ed ent by (auto simp: read_dir_def)
    next
      case link: (Some p)
      with "1.prems" Some have l: "dirDelete_loop ?w d p (items @ dn_Indexes page) = (b, items', v')"
        by (simp add: dirDelete_loop.simps [of v])
      note ih = "1.IH" [OF Some refl refl link l]
      have "read_dir v' (keylet_page d pi) = None" using ih gone by (simp add: read_dir_def)
      moreover have "set items' = set items \<union> snd ` (dir_entries v d - dir_entries v' d)"
      proof -
        have "dir_entries v d - dir_entries v' d = {pi} \<times> set (dn_Indexes page) \<union> (dir_entries ?w d - dir_entries v' d)"
          using ih ent sub by blast
        with ih show ?thesis by (auto simp: image_Un)
      qed
      ultimately show ?thesis using ih ed ent by auto
    qed
  qed
qed

lemma dirDelete_effect:
  assumes "dirDelete v d = (b, items, v')"
  shows "dir_frame d v v' \<and> read_dir v' d = None \<and> dir_entries v' d \<subseteq> dir_entries v d
    \<and> set items = snd ` (dir_entries v d - dir_entries v' d)"
  using dirDelete_loop_effect [OF assms [unfolded dirDelete_def]] edits_refl [of d v] dir_edits_frame [of d v v'] by simp

text \<open>
  A page whose link to the next was set to zero, as the removal of the last page leaves it, sends the
  loop back to the root, which is gone.
\<close>

lemma dirDelete_zero_link:
  assumes "read_dir v d = Some root" "dn_IndexNext root = Some 0"
  shows "dirDelete v d = (False, dn_Indexes root, del v d)"
proof -
  have "read_dir (del v d) d = None" by (simp add: read_dir_def)
  with assms show ?thesis
    by (simp add: dirDelete_def dirDelete_loop.simps [of v] dirDelete_loop.simps [of "del v d"] keylet_page_def)
qed

end
