(* ===== verification/NodeKeys.thy ===== *)
theory NodeKeys
  imports Prelude
begin

section \<open>Node public keys\<close>

text \<open>
  The key-type tests of \<^verbatim>\<open>PublicKey.cpp\<close> and the Falcon public key blobs of \<^verbatim>\<open>PQPublicKey.cpp\<close>: a
  prefix byte followed by the raw key. The validator transactors accept a consensus key when
  \<open>isValidNodeKey\<close> does; the theory shows what that test leaves open.
\<close>

datatype KeyType = Secp256k1 | Ed25519 | Falcon512 | Falcon1024

definition kFALCON512_PREFIX :: u8 where "kFALCON512_PREFIX = 0xFB"
definition kFALCON1024_PREFIX :: u8 where "kFALCON1024_PREFIX = 0xFC"
definition kFALCON512_PUBKEY_BYTES :: nat where "kFALCON512_PUBKEY_BYTES = 897"
definition kFALCON1024_PUBKEY_BYTES :: nat where "kFALCON1024_PUBKEY_BYTES = 1793"

lemmas falcon_const = kFALCON512_PREFIX_def kFALCON1024_PREFIX_def kFALCON512_PUBKEY_BYTES_def
  kFALCON1024_PUBKEY_BYTES_def

definition pqPublicKeyType :: "blob \<Rightarrow> KeyType option" where
  "pqPublicKeyType s =
     (case s of [] \<Rightarrow> None
      | c # _ \<Rightarrow> if c = kFALCON512_PREFIX then Some Falcon512
                 else if c = kFALCON1024_PREFIX then Some Falcon1024
                 else None)"

definition publicKeyType :: "blob \<Rightarrow> KeyType option" where
  "publicKeyType s =
     (if length s = 33 \<and> s ! 0 = 0xED then Some Ed25519
      else if length s = 33 \<and> (s ! 0 = 0x02 \<or> s ! 0 = 0x03) then Some Secp256k1
      else pqPublicKeyType s)"

definition signingPubKeyType :: "blob \<Rightarrow> KeyType option" where
  "signingPubKeyType s =
     (case publicKeyType s of Some t \<Rightarrow> Some t | None \<Rightarrow> pqPublicKeyType s)"

definition isValidNodeKey :: "blob \<Rightarrow> bool" where
  "isValidNodeKey s \<longleftrightarrow> pqPublicKeyType s \<noteq> None"

definition isFalconSigningKey :: "blob \<Rightarrow> bool" where
  "isFalconSigningKey s =
     (case signingPubKeyType s of
        Some t \<Rightarrow> t = Falcon512 \<or> t = Falcon1024
      | None \<Rightarrow> False)"

text \<open>The two constructors of \<open>PQPublicKey\<close>: from a prefixed blob, and from a type and a raw key.\<close>

definition PQPublicKey_parse :: "blob \<Rightarrow> (KeyType \<times> blob) result" where
  "PQPublicKey_parse s =
     (case s of [] \<Rightarrow> Inl (LogicError ''PQPublicKey: empty slice'')
      | prefix # _ \<Rightarrow>
          if prefix = kFALCON512_PREFIX
          then if length s \<noteq> kFALCON512_PUBKEY_BYTES + 1
               then Inl (LogicError ''PQPublicKey: bad Falcon-512 length'')
               else Inr (Falcon512, s)
          else if prefix = kFALCON1024_PREFIX
          then if length s \<noteq> kFALCON1024_PUBKEY_BYTES + 1
               then Inl (LogicError ''PQPublicKey: bad Falcon-1024 length'')
               else Inr (Falcon1024, s)
          else Inl (LogicError ''PQPublicKey: unknown prefix byte''))"

definition PQPublicKey_make :: "KeyType \<Rightarrow> blob \<Rightarrow> (KeyType \<times> blob) result" where
  "PQPublicKey_make type rawKey =
     (if type = Falcon512
      then if length rawKey \<noteq> kFALCON512_PUBKEY_BYTES
           then Inl (LogicError ''PQPublicKey: raw key has wrong length'')
           else Inr (type, kFALCON512_PREFIX # rawKey)
      else if type = Falcon1024
      then if length rawKey \<noteq> kFALCON1024_PUBKEY_BYTES
           then Inl (LogicError ''PQPublicKey: raw key has wrong length'')
           else Inr (type, kFALCON1024_PREFIX # rawKey)
      else Inl (LogicError ''PQPublicKey: not a Falcon key type''))"

lemma PQPublicKey_roundtrip:
  "PQPublicKey_make t raw = Inr (t', s) \<Longrightarrow> PQPublicKey_parse s = Inr (t', s) \<and> t' = t"
  by (auto simp: PQPublicKey_make_def PQPublicKey_parse_def falcon_const split: if_splits)

lemma PQPublicKey_parse_valid:
  "PQPublicKey_parse s = Inr (t, b) \<Longrightarrow> pqPublicKeyType s = Some t \<and> isValidNodeKey s"
  by (auto simp: PQPublicKey_parse_def pqPublicKeyType_def isValidNodeKey_def split: list.splits if_splits)

lemma isValidNodeKey_iff:
  "isValidNodeKey s \<longleftrightarrow> s \<noteq> [] \<and> (hd s = kFALCON512_PREFIX \<or> hd s = kFALCON1024_PREFIX)"
  by (cases s) (auto simp: isValidNodeKey_def pqPublicKeyType_def)

text \<open>
  The test looks at the first byte only: no classical key passes, and a key of any length with a
  Falcon prefix does.
\<close>

lemma isValidNodeKey_rejects_classical:
  "publicKeyType s = Some Secp256k1 \<or> publicKeyType s = Some Ed25519 \<Longrightarrow> \<not> isValidNodeKey s"
  by (cases s) (auto simp: publicKeyType_def pqPublicKeyType_def isValidNodeKey_iff falcon_const split: if_splits)

lemma isValidNodeKey_any_length: "isValidNodeKey (kFALCON512_PREFIX # rest)"
  by (simp add: isValidNodeKey_iff)

end
