(* ===== verification/Bonding.thy ===== *)
theory Bonding
  imports Directory NodeKeys
begin

section \<open>Validator bonds\<close>

text \<open>
  The transactors \<^verbatim>\<open>ValidatorRegister\<close>, \<^verbatim>\<open>ValidatorBond\<close>, \<^verbatim>\<open>ValidatorUnbond\<close> and \<^verbatim>\<open>ReleaseBond\<close>: each has
  a \<open>preflight\<close> on the transaction alone, a \<open>preclaim\<close> on the view, and a \<open>doApply\<close> that returns the
  result code with the view it has changed so far, or the exception it throws. The framework
  discards the view unless the code is \<open>tesSUCCESS\<close>.
\<close>

subsection \<open>ValidatorRegister\<close>

definition ValidatorRegister_preflight :: "env \<Rightarrow> blob \<Rightarrow> blob \<Rightarrow> ter" where
  "ValidatorRegister_preflight e pkBlob ckBlob =
     (if \<not> e_featureProofOfParticipation e then temDISABLED
      else if \<not> isValidNodeKey pkBlob then temINVALID_FLAG
      else if \<not> isValidNodeKey ckBlob then temINVALID_FLAG
      else if pkBlob \<noteq> ckBlob then temINVALID_FLAG
      else tesSUCCESS)"

definition ValidatorRegister_preclaim :: "env \<Rightarrow> blob \<Rightarrow> view \<Rightarrow> ter" where
  "ValidatorRegister_preclaim e ckBlob v =
     (if read_bond v (e_calcValidatorBondID e ckBlob) \<noteq> None then tecDUPLICATE else tesSUCCESS)"

definition ValidatorRegister_doApply :: "env \<Rightarrow> tx \<Rightarrow> blob \<Rightarrow> blob \<Rightarrow> view \<Rightarrow> applied" where
  "ValidatorRegister_doApply e t pkBlob ckBlob v =
     (let account = tx_Account t; bondID = e_calcValidatorBondID e ckBlob;
          sleBond = \<lparr>bond_Account = account, bond_PublicKey = pkBlob, bond_ConsensusKey = ckBlob,
            bond_BondedAmount = 0, bond_BondStatus = kBOND_STATUS_REGISTERED,
            bond_UptimeBps = None, bond_VoteAccuracyBps = None, bond_LatencyScoreBps = None,
            bond_ConsistencyBps = None, bond_SlashMultiplier = kBPS_DENOM,
            bond_CompositeScore = None, bond_SlashCount = None, bond_LastClaimedEpoch = None,
            bond_UnbondingStartLedger = None, bond_OwnerNode = 0,
            bond_PreviousTxnID = tx_ID t, bond_PreviousTxnLgrSeq = v_seq v\<rparr>
      in case ownerDirInsert e v account (KBond bondID) of
           Inl ex \<Rightarrow> Inl ex
         | Inr (None, v1) \<Rightarrow> Inr (tecDIR_FULL, v1)
         | Inr (Some page, v1) \<Rightarrow>
             (case insert_sle v1 (KBond bondID) (SBond (sleBond\<lparr>bond_OwnerNode := page\<rparr>)) of
                Inl ex \<Rightarrow> Inl ex
              | Inr v2 \<Rightarrow>
                  (case read_account v2 account of
                     None \<Rightarrow> Inr (tefINTERNAL, v2)
                   | Some sleAccount \<Rightarrow>
                       Inr (tesSUCCESS, put_account v2 account
                         (sleAccount\<lparr>acc_OwnerCount := acc_OwnerCount sleAccount + 1\<rparr>)))))"

subsection \<open>ValidatorBond\<close>

definition ValidatorBond_preflight :: "env \<Rightarrow> blob \<Rightarrow> stamount \<Rightarrow> ter" where
  "ValidatorBond_preflight e ckBlob bondAmount =
     (if \<not> e_featureProofOfParticipation e then temDISABLED
      else if \<not> isValidNodeKey ckBlob then temINVALID_FLAG
      else if \<not> stamount_native bondAmount then temBAD_AMOUNT
      else if signum bondAmount \<le> 0 then temBAD_AMOUNT
      else if mantissa bondAmount < word_of_int kQXRP_MIN_BOND_DROPS then temBAD_AMOUNT
      else tesSUCCESS)"

definition ValidatorBond_preclaim :: "env \<Rightarrow> tx \<Rightarrow> blob \<Rightarrow> view \<Rightarrow> ter" where
  "ValidatorBond_preclaim e t ckBlob v =
     (case read_bond v (e_calcValidatorBondID e ckBlob) of
        None \<Rightarrow> tecNO_ENTRY
      | Some sleBond \<Rightarrow>
          if bond_Account sleBond \<noteq> tx_Account t then tecNO_PERMISSION
          else if bond_BondStatus sleBond \<noteq> kBOND_STATUS_REGISTERED then tecNO_PERMISSION
          else tesSUCCESS)"

text \<open>Amounts of different assets are not comparable; \<open>preflight\<close> lets native amounts through only.\<close>

definition ValidatorBond_doApply :: "env \<Rightarrow> tx \<Rightarrow> blob \<Rightarrow> stamount \<Rightarrow> view \<Rightarrow> applied" where
  "ValidatorBond_doApply e t ckBlob amount v =
     (case read_account v (tx_Account t) of
        None \<Rightarrow> Inr (tefINTERNAL, v)
      | Some sleAccount \<Rightarrow>
          (case amount of
             IOU _ _ _ _ _ \<Rightarrow> Inl (LogicError ''Can't compare amounts that aren't comparable!'')
           | Native bondAmount \<Rightarrow>
               if acc_Balance sleAccount < bondAmount then Inr (tecUNFUNDED, v)
               else let v1 = put_account v (tx_Account t)
                          (sleAccount\<lparr>acc_Balance := acc_Balance sleAccount - bondAmount\<rparr>);
                        bondID = e_calcValidatorBondID e ckBlob
                    in case read_bond v1 bondID of
                         None \<Rightarrow> Inr (tefINTERNAL, v1)
                       | Some sleBond \<Rightarrow>
                           Inr (tesSUCCESS, put_bond v1 bondID
                             (sleBond\<lparr>bond_BondedAmount := bondAmount,
                                bond_BondStatus := kBOND_STATUS_BONDED,
                                bond_PreviousTxnID := tx_ID t,
                                bond_PreviousTxnLgrSeq := v_seq v1\<rparr>))))"

subsection \<open>ValidatorUnbond\<close>

definition ValidatorUnbond_preflight :: "env \<Rightarrow> blob \<Rightarrow> ter" where
  "ValidatorUnbond_preflight e ckBlob =
     (if \<not> e_featureProofOfParticipation e then temDISABLED
      else if \<not> isValidNodeKey ckBlob then temINVALID_FLAG
      else tesSUCCESS)"

definition ValidatorUnbond_preclaim :: "env \<Rightarrow> tx \<Rightarrow> blob \<Rightarrow> view \<Rightarrow> ter" where
  "ValidatorUnbond_preclaim e t ckBlob v =
     (case read_bond v (e_calcValidatorBondID e ckBlob) of
        None \<Rightarrow> tecNO_ENTRY
      | Some sleBond \<Rightarrow>
          if bond_Account sleBond \<noteq> tx_Account t then tecNO_PERMISSION
          else if bond_BondStatus sleBond \<noteq> kBOND_STATUS_BONDED then tecNO_PERMISSION
          else tesSUCCESS)"

definition ValidatorUnbond_doApply :: "env \<Rightarrow> tx \<Rightarrow> blob \<Rightarrow> view \<Rightarrow> applied" where
  "ValidatorUnbond_doApply e t ckBlob v =
     (let bondID = e_calcValidatorBondID e ckBlob in
      case read_bond v bondID of
        None \<Rightarrow> Inr (tefINTERNAL, v)
      | Some sleBond \<Rightarrow>
          Inr (tesSUCCESS, put_bond v bondID
            (sleBond\<lparr>bond_BondStatus := kBOND_STATUS_UNBONDING,
               bond_UnbondingStartLedger := Some (v_seq v),
               bond_PreviousTxnID := tx_ID t, bond_PreviousTxnLgrSeq := v_seq v\<rparr>)))"

subsection \<open>ReleaseBond\<close>

definition ReleaseBond_preflight :: "env \<Rightarrow> ter" where
  "ReleaseBond_preflight e = (if \<not> e_featureProofOfParticipation e then temDISABLED else tesSUCCESS)"

text \<open>The lock period must have elapsed; the 32-bit sum wraps.\<close>

definition bond_too_soon :: "u32 \<Rightarrow> u32 \<Rightarrow> bool" where
  "bond_too_soon startLedger seq \<longleftrightarrow> seq < startLedger + kUNBONDING_LOCK_LEDGERS"

definition ReleaseBond_preclaim :: "account \<Rightarrow> view \<Rightarrow> ter" where
  "ReleaseBond_preclaim target v =
     (case read_bond v target of
        None \<Rightarrow> tecNO_ENTRY
      | Some sleBond \<Rightarrow>
          if bond_BondStatus sleBond \<noteq> kBOND_STATUS_UNBONDING then tecNO_PERMISSION
          else if bond_too_soon (getU (bond_UnbondingStartLedger sleBond)) (v_seq v)
          then tecTOO_SOON
          else tesSUCCESS)"

definition ReleaseBond_doApply :: "account \<Rightarrow> view \<Rightarrow> applied" where
  "ReleaseBond_doApply target v =
     (case read_bond v target of
        None \<Rightarrow> Inr (tefINTERNAL, v)
      | Some sleBond \<Rightarrow>
          (let bondOwner = bond_Account sleBond in
           case read_account v bondOwner of
             None \<Rightarrow> Inr (tefINTERNAL, v)
           | Some sleAccount0 \<Rightarrow>
               let bonded = bond_BondedAmount sleBond;
                   sleAccount = (if bonded > 0
                     then sleAccount0\<lparr>acc_Balance := acc_Balance sleAccount0 + bonded\<rparr> else sleAccount0);
                   v1 = (if bonded > 0 then put_account v bondOwner sleAccount else v)
               in case ownerDirRemove v1 bondOwner (bond_OwnerNode sleBond) (KBond target) of
                    Inl ex \<Rightarrow> Inl ex
                  | Inr (False, v2) \<Rightarrow> Inr (tefBAD_LEDGER, v2)
                  | Inr (True, v2) \<Rightarrow>
                      let ownerCount = acc_OwnerCount sleAccount;
                          v3 = put_account v2 bondOwner
                            (if ownerCount > 0 then sleAccount\<lparr>acc_OwnerCount := ownerCount - 1\<rparr>
                             else sleAccount)
                      in Inr (tesSUCCESS, del v3 (KBond target))))"

subsection \<open>Registration\<close>

definition registered_bond :: "tx \<Rightarrow> blob \<Rightarrow> blob \<Rightarrow> u64 \<Rightarrow> u32 \<Rightarrow> validator_bond" where
  "registered_bond t pk ck page seq =
     \<lparr>bond_Account = tx_Account t, bond_PublicKey = pk, bond_ConsensusKey = ck,
      bond_BondedAmount = 0, bond_BondStatus = kBOND_STATUS_REGISTERED,
      bond_UptimeBps = None, bond_VoteAccuracyBps = None, bond_LatencyScoreBps = None,
      bond_ConsistencyBps = None, bond_SlashMultiplier = kBPS_DENOM,
      bond_CompositeScore = None, bond_SlashCount = None, bond_LastClaimedEpoch = None,
      bond_UnbondingStartLedger = None, bond_OwnerNode = page,
      bond_PreviousTxnID = tx_ID t, bond_PreviousTxnLgrSeq = seq\<rparr>"

lemma ValidatorRegister_successE:
  assumes "ValidatorRegister_doApply e t pk ck v = Inr (tesSUCCESS, v')"
  obtains page v1 acct where
    "ownerDirInsert e v (tx_Account t) (KBond (e_calcValidatorBondID e ck)) = Inr (Some page, v1)"
    "find_sle v (KBond (e_calcValidatorBondID e ck)) = None" "read_account v (tx_Account t) = Some acct"
    "v' = put (put v1 (KBond (e_calcValidatorBondID e ck)) (SBond (registered_bond t pk ck page (v_seq v))))
            (KAccount (tx_Account t)) (SAccount (acct\<lparr>acc_OwnerCount := acc_OwnerCount acct + 1\<rparr>))"
proof -
  let ?id = "e_calcValidatorBondID e ck"
  from assms obtain page v1 where
    d: "ownerDirInsert e v (tx_Account t) (KBond ?id) = Inr (Some page, v1)"
    by (auto simp: ValidatorRegister_doApply_def Let_def split: sum.splits option.splits)
  then have f: "dir_frame (KOwnerDir (tx_Account t)) v v1" by (rule ownerDirInsert_frame)
  from assms d obtain acct where "find_sle v1 (KBond ?id) = None" "read_account v1 (tx_Account t) = Some acct"
    "v' = put (put v1 (KBond ?id) (SBond (registered_bond t pk ck page (v_seq v))))
            (KAccount (tx_Account t)) (SAccount (acct\<lparr>acc_OwnerCount := acc_OwnerCount acct + 1\<rparr>))"
    by (auto simp: ValidatorRegister_doApply_def Let_def put_defs registered_bond_def
        split: sum.splits option.splits dest!: insert_sle_InrD)
  with d show thesis by (intro that) (auto simp: dir_frame_simps [OF f])
qed

lemma ValidatorRegister_conserves:
  assumes "ValidatorRegister_doApply e t pk ck v = Inr (tesSUCCESS, v')" "sound_view v"
  shows "conserves v v'"
  using assms(1)
proof (cases rule: ValidatorRegister_successE)
  case (1 page v1 acct)
  let ?k = "KBond (e_calcValidatorBondID e ck)"
  have c1: "conserves v v1" using 1(1) assms(2) by (rule ownerDirInsert_conserves)
  note f = dir_frame_simps [OF ownerDirInsert_frame [OF 1(1)]]
  let ?v2 = "put v1 ?k (SBond (registered_bond t pk ck page (v_seq v)))"
  have c2: "conserves v1 ?v2"
    using c1 1(2) f by (intro conserves_same) (auto simp: conserves_def registered_bond_def)
  have "find_sle ?v2 (KAccount (tx_Account t)) = Some (SAccount acct)"
    using 1(3) f by (auto dest: read_SomeD)
  then have "conserves ?v2 v'" unfolding 1(4) using c2
    by (intro conserves_same) (auto simp: conserves_def sound_view_def dest: solventD)
  with c1 c2 show ?thesis by (blast intro: conserves_trans)
qed

lemma ValidatorRegister_result:
  assumes "ValidatorRegister_doApply e t pk ck v = Inr (tesSUCCESS, v')"
  shows "\<exists>page. read_bond v' (e_calcValidatorBondID e ck) = Some (registered_bond t pk ck page (v_seq v))
      \<and> (page, KBond (e_calcValidatorBondID e ck)) \<in> owner_entries v' (tx_Account t)
      \<and> map_option acc_OwnerCount (read_account v' (tx_Account t))
        = map_option (\<lambda>a. acc_OwnerCount a + 1) (read_account v (tx_Account t))
      \<and> map_option acc_Balance (read_account v' (tx_Account t))
        = map_option acc_Balance (read_account v (tx_Account t))"
  using assms
proof (cases rule: ValidatorRegister_successE)
  case (1 page v1 acct)
  from od.add_entries [OF 1(1)] have "(page, KBond (e_calcValidatorBondID e ck)) \<in> owner_entries v1 (tx_Account t)"
    by simp
  then have "(page, KBond (e_calcValidatorBondID e ck)) \<in> owner_entries v' (tx_Account t)"
    by (simp add: 1(4))
  with 1 show ?thesis by (intro exI [of _ page]) (simp add: registered_bond_def)
qed

subsection \<open>Bonding\<close>

lemma ValidatorBond_preflight_amount:
  assumes "ValidatorBond_preflight e ck amount = tesSUCCESS" "\<And>d. amount = Native d \<Longrightarrow> \<bar>d\<bar> < 2 ^ 63"
  shows "\<exists>d. amount = Native d \<and> kQXRP_MIN_BOND_DROPS \<le> d"
proof (cases amount)
  case (Native d)
  with assms(1) have pos: "0 < d" and m: "\<not> (word_of_int \<bar>d\<bar> :: u64) < word_of_int kQXRP_MIN_BOND_DROPS"
    by (auto simp: ValidatorBond_preflight_def sgn_if split: if_splits)
  have "d < 2 ^ 63" using assms(2) [OF Native] by simp
  with pos m have "kQXRP_MIN_BOND_DROPS \<le> d"
    by (simp add: word_less_def uint_word_of_int qxrp_const)
  with Native show ?thesis by simp
qed (use assms(1) in \<open>auto simp: ValidatorBond_preflight_def split: if_splits\<close>)

lemma ValidatorBond_successE:
  assumes "ValidatorBond_doApply e t ck amount v = Inr (tesSUCCESS, v')"
  obtains d acct bond where "amount = Native d" "read_account v (tx_Account t) = Some acct"
    "d \<le> acc_Balance acct" "read_bond v (e_calcValidatorBondID e ck) = Some bond"
    "v' = put (put v (KAccount (tx_Account t)) (SAccount (acct\<lparr>acc_Balance := acc_Balance acct - d\<rparr>)))
            (KBond (e_calcValidatorBondID e ck))
            (SBond (bond\<lparr>bond_BondedAmount := d, bond_BondStatus := kBOND_STATUS_BONDED,
               bond_PreviousTxnID := tx_ID t, bond_PreviousTxnLgrSeq := v_seq v\<rparr>))"
  using assms
  by (auto simp: ValidatorBond_doApply_def Let_def put_defs split: option.splits stamount.splits if_splits)

text \<open>
  What every bond in the ledger satisfies: it sits under the identifier of its consensus key; a
  registered bond holds nothing, a bonded one at least the minimum, and an unbonding one knows
  when it started.
\<close>

definition bond_ok :: "env \<Rightarrow> account \<Rightarrow> validator_bond \<Rightarrow> bool" where
  "bond_ok e bondID b \<longleftrightarrow> e_calcValidatorBondID e (bond_ConsensusKey b) = bondID
     \<and> 0 \<le> bond_BondedAmount b \<and> bond_SlashMultiplier b \<le> kBPS_DENOM
     \<and> (bond_BondStatus b = kBOND_STATUS_REGISTERED \<and> bond_BondedAmount b = 0
        \<or> bond_BondStatus b = kBOND_STATUS_BONDED \<and> kQXRP_MIN_BOND_DROPS \<le> bond_BondedAmount b
        \<or> bond_BondStatus b = kBOND_STATUS_UNBONDING \<and> bond_UnbondingStartLedger b \<noteq> None)"

definition bonds_ok :: "env \<Rightarrow> view \<Rightarrow> bool" where
  "bonds_ok e v \<longleftrightarrow> (\<forall>bondID b. read_bond v bondID = Some b \<longrightarrow> bond_ok e bondID b)"

lemma bonds_okD: "bonds_ok e v \<Longrightarrow> read_bond v bondID = Some b \<Longrightarrow> bond_ok e bondID b"
  by (simp add: bonds_ok_def)

lemma bonds_ok_put_bond: "bonds_ok e v \<Longrightarrow> bond_ok e bondID b \<Longrightarrow> bonds_ok e (put v (KBond bondID) (SBond b))"
  by (auto simp: bonds_ok_def)

lemma bonds_ok_put_other: "bonds_ok e v \<Longrightarrow> (\<And>i. k \<noteq> KBond i) \<Longrightarrow> bonds_ok e (put v k s)"
  by (auto simp: bonds_ok_def)

lemma bonds_ok_del: "bonds_ok e v \<Longrightarrow> bonds_ok e (del v k)"
  by (auto simp: bonds_ok_def split: if_splits)

lemma bonds_ok_frame: "bonds_ok e v \<Longrightarrow> dir_frame (KOwnerDir a) v v' \<Longrightarrow> bonds_ok e v'"
  by (simp add: bonds_ok_def dir_frame_simps)

lemmas bonds_ok_intros = bonds_ok_put_bond bonds_ok_put_other bonds_ok_del

lemma bond_ok_registered: "bond_ok e i b \<Longrightarrow> bond_BondStatus b = kBOND_STATUS_REGISTERED \<Longrightarrow> bond_BondedAmount b = 0"
  by (auto simp: bond_ok_def qxrp_const)

lemma ValidatorRegister_bonds_ok:
  assumes "ValidatorRegister_doApply e t pk ck v = Inr (tesSUCCESS, v')" "bonds_ok e v"
  shows "bonds_ok e v'"
  using assms(1)
proof (cases rule: ValidatorRegister_successE)
  case (1 page v1 acct)
  with assms(2) have "bonds_ok e v1" by (blast intro: bonds_ok_frame ownerDirInsert_frame)
  moreover have "bond_ok e (e_calcValidatorBondID e ck) (registered_bond t pk ck page (v_seq v))"
    by (simp add: bond_ok_def registered_bond_def)
  ultimately show ?thesis unfolding 1(4) by (intro bonds_ok_intros) simp_all
qed

lemma ValidatorBond_conserves:
  assumes "ValidatorBond_doApply e t ck (Native d) v = Inr (tesSUCCESS, v')" "sound_view v"
    and "ValidatorBond_preclaim e t ck v = tesSUCCESS" "0 \<le> d" "bonds_ok e v"
  shows "conserves v v'"
  using assms(1)
proof (cases rule: ValidatorBond_successE)
  case (1 d' acct bond)
  with assms(3,5) have "bond_BondedAmount bond = 0"
    by (auto simp: ValidatorBond_preclaim_def split: if_splits dest: bonds_okD bond_ok_registered)
  with 1 assms show ?thesis
    by (auto intro!: conserves_transfer dest: read_SomeD)
qed

lemma ValidatorBond_bonds_ok:
  assumes "ValidatorBond_doApply e t ck (Native d) v = Inr (tesSUCCESS, v')" "bonds_ok e v"
    and "kQXRP_MIN_BOND_DROPS \<le> d"
  shows "bonds_ok e v'"
  using assms(1)
proof (cases rule: ValidatorBond_successE)
  case (1 d' acct bond)
  from assms(2) 1(4) have "bond_ok e (e_calcValidatorBondID e ck) bond" by (rule bonds_okD)
  moreover have "0 < kQXRP_MIN_BOND_DROPS" by (simp add: qxrp_const)
  ultimately show ?thesis unfolding 1(5) using assms(2,3) 1(1)
    by (intro bonds_ok_intros) (auto simp: bond_ok_def)
qed

subsection \<open>Unbonding and release\<close>

lemma ValidatorUnbond_successE:
  assumes "ValidatorUnbond_doApply e t ck v = Inr (tesSUCCESS, v')"
  obtains bond where "read_bond v (e_calcValidatorBondID e ck) = Some bond"
    "v' = put v (KBond (e_calcValidatorBondID e ck))
            (SBond (bond\<lparr>bond_BondStatus := kBOND_STATUS_UNBONDING,
               bond_UnbondingStartLedger := Some (v_seq v), bond_PreviousTxnID := tx_ID t,
               bond_PreviousTxnLgrSeq := v_seq v\<rparr>))"
  using assms by (auto simp: ValidatorUnbond_doApply_def Let_def put_defs split: option.splits)

lemma ValidatorUnbond_conserves:
  assumes "ValidatorUnbond_doApply e t ck v = Inr (tesSUCCESS, v')" "sound_view v"
  shows "conserves v v'"
  using assms(1)
proof (cases rule: ValidatorUnbond_successE)
  case (1 bond)
  with assms(2) show ?thesis
    by (auto intro!: conserves_same dest!: read_SomeD dest: solventD simp: sound_view_def)
qed

lemma ValidatorUnbond_bonds_ok:
  assumes "ValidatorUnbond_doApply e t ck v = Inr (tesSUCCESS, v')" "bonds_ok e v"
  shows "bonds_ok e v'"
  using assms(1)
proof (cases rule: ValidatorUnbond_successE)
  case (1 bond)
  from assms(2) 1(1) have "bond_ok e (e_calcValidatorBondID e ck) bond" by (rule bonds_okD)
  then show ?thesis unfolding 1(2) using assms(2)
    by (intro bonds_ok_intros) (auto simp: bond_ok_def)
qed

text \<open>The owner's account root after the release.\<close>

definition paid_back :: "account_root \<Rightarrow> validator_bond \<Rightarrow> account_root" where
  "paid_back acct bond = acct\<lparr>acc_Balance := acc_Balance acct + bond_BondedAmount bond\<rparr>"

definition released :: "account_root \<Rightarrow> validator_bond \<Rightarrow> account_root" where
  "released acct bond = (paid_back acct bond)\<lparr>acc_OwnerCount :=
     (if acc_OwnerCount acct > 0 then acc_OwnerCount acct - 1 else acc_OwnerCount acct)\<rparr>"

lemma released_balance [simp]:
  "acc_Balance (paid_back acct bond) = acc_Balance acct + bond_BondedAmount bond"
  "acc_Balance (released acct bond) = acc_Balance acct + bond_BondedAmount bond"
  by (simp_all add: released_def paid_back_def)

lemma ReleaseBond_successE:
  assumes "ReleaseBond_doApply target v = Inr (tesSUCCESS, v')" "read_bond v target = Some bond"
    and "0 \<le> bond_BondedAmount bond"
  obtains acct v1 v2 where "read_account v (bond_Account bond) = Some acct"
    "v1 = put v (KAccount (bond_Account bond)) (SAccount (paid_back acct bond)) \<or> bond_BondedAmount bond = 0 \<and> v1 = v"
    "ownerDirRemove v1 (bond_Account bond) (bond_OwnerNode bond) (KBond target) = Inr (True, v2)"
    "v' = del (put v2 (KAccount (bond_Account bond)) (SAccount (released acct bond))) (KBond target)"
proof -
  from assms(1,2) obtain acct where a: "read_account v (bond_Account bond) = Some acct"
    by (auto simp: ReleaseBond_doApply_def Let_def split: option.splits)
  let ?v1 = "if bond_BondedAmount bond > 0
    then put v (KAccount (bond_Account bond)) (SAccount (paid_back acct bond)) else v"
  have z: "bond_BondedAmount bond = 0" if "\<not> bond_BondedAmount bond > 0" using assms(3) that by simp
  from assms(1,2) a obtain v2 where
    "ownerDirRemove ?v1 (bond_Account bond) (bond_OwnerNode bond) (KBond target) = Inr (True, v2)"
    "v' = del (put v2 (KAccount (bond_Account bond)) (SAccount (released acct bond))) (KBond target)"
    by (auto simp: ReleaseBond_doApply_def Let_def put_defs paid_back_def released_def z
        split: sum.splits bool.splits if_splits)
  with a z show thesis by (intro that [of acct ?v1 v2]) auto
qed

text \<open>
  The owner is paid exactly the bonded amount, the bond is gone, and its index has left the
  owner's directory.
\<close>

lemma ReleaseBond_result:
  assumes "ReleaseBond_doApply target v = Inr (tesSUCCESS, v')" "read_bond v target = Some bond"
    and "0 \<le> bond_BondedAmount bond" "owner_dir_ok v (bond_Account bond)"
  shows "read_bond v' target = None
    \<and> map_option acc_Balance (read_account v' (bond_Account bond))
      = map_option (\<lambda>a. acc_Balance a + bond_BondedAmount bond) (read_account v (bond_Account bond))
    \<and> owner_entries v' (bond_Account bond)
      = owner_entries v (bond_Account bond) - {(bond_OwnerNode bond, KBond target)}"
  using assms(1-3)
proof (cases rule: ReleaseBond_successE)
  case (1 acct v1 v2)
  have "owner_dir_ok v1 (bond_Account bond)" "owner_entries v1 (bond_Account bond) = owner_entries v (bond_Account bond)"
    using assms(4) 1(2) by auto
  with od.rm_true [OF 1(3)] 1 show ?thesis by simp
qed

lemma release_arith:
  assumes "sound_view w" "find_sle w ka = Some (SAccount a)" "find_sle w kb = Some (SBond b)" "ka \<noteq> kb"
    and "0 \<le> acc_Balance a'"
  shows "sound_view (del (put w ka (SAccount a')) kb)
    \<and> supply_gap (del (put w ka (SAccount a')) kb)
      = supply_gap w - acc_Balance a + acc_Balance a' - bond_BondedAmount b"
  using assms by (auto simp: sound_view_def supply_gap_def held_put held_del intro!: solvent_del solvent_put)

lemma ReleaseBond_conserves:
  assumes "ReleaseBond_doApply target v = Inr (tesSUCCESS, v')" "sound_view v" "bonds_ok e v"
  shows "conserves v v'"
proof -
  from assms(1) obtain bond where b: "read_bond v target = Some bond"
    by (auto simp: ReleaseBond_doApply_def split: option.splits)
  with assms(3) have nn: "0 \<le> bond_BondedAmount bond" by (auto dest: bonds_okD simp: bond_ok_def)
  from assms(1) b nn show ?thesis
  proof (cases rule: ReleaseBond_successE)
    case (1 acct v1 v2)
    note fs = read_SomeD(1) [OF 1(1)] read_SomeD(2) [OF b]
    have bal: "0 \<le> acc_Balance acct" using assms(2) fs by (auto simp: sound_view_def dest: solventD)
    obtain a1 where w: "sound_view v1" "v_seq v1 = v_seq v" "find_sle v1 (KBond target) = Some (SBond bond)"
      "find_sle v1 (KAccount (bond_Account bond)) = Some (SAccount a1)"
      "supply_gap v1 - acc_Balance a1 = supply_gap v - acc_Balance acct"
    proof (cases "v1 = v")
      case True
      with assms(2) fs show thesis by (intro that [of acct]) auto
    next
      case False
      with 1(2) assms(2) fs bal nn show thesis
        by (intro that [of "paid_back acct bond"])
          (auto simp: sound_view_def supply_gap_def held_put intro!: solvent_put)
    qed
    have c: "conserves v1 v2" by (rule ownerDirRemove_conserves [OF 1(3) w(1)])
    note f = dir_frame_simps [OF ownerDirRemove_frame [OF 1(3)]]
    from release_arith [of v2 "KAccount (bond_Account bond)" a1 "KBond target" bond "released acct bond"]
      c f w bal nn
    show ?thesis by (auto simp: conserves_def 1(4))
  qed
qed

lemma ReleaseBond_bonds_ok:
  assumes "ReleaseBond_doApply target v = Inr (tesSUCCESS, v')" "bonds_ok e v"
  shows "bonds_ok e v'"
proof -
  from assms(1) obtain bond where b: "read_bond v target = Some bond"
    by (auto simp: ReleaseBond_doApply_def split: option.splits)
  with assms(2) have nn: "0 \<le> bond_BondedAmount bond" by (auto dest: bonds_okD simp: bond_ok_def)
  from assms(1) b nn show ?thesis
  proof (cases rule: ReleaseBond_successE)
    case (1 acct v1 v2)
    with assms(2) have "bonds_ok e v1" by (auto intro: bonds_ok_put_other)
    with 1(3) have "bonds_ok e v2" by (blast intro: bonds_ok_frame ownerDirRemove_frame)
    then show ?thesis unfolding 1(4) by (intro bonds_ok_del bonds_ok_put_other) simp_all
  qed
qed

interpretation bl: ledger_lock kUNBONDING_LOCK_LEDGERS bond_too_soon
  by unfold_locales (simp add: bond_too_soon_def)

text \<open>A bond whose unbonding starts in this ledger cannot be released before the lock is over.\<close>

lemma ReleaseBond_locked:
  assumes "ReleaseBond_preclaim target v = tesSUCCESS" "read_bond v target = Some bond"
    and "bond_UnbondingStartLedger bond = Some start" "unat start + 262800 < 2 ^ 32"
  shows "unat start + 262800 \<le> unat (v_seq v)"
proof -
  have "\<not> bond_too_soon start (v_seq v)"
    using assms(1-3) by (auto simp: ReleaseBond_preclaim_def split: if_splits)
  from bl.open_after [OF this] assms(4) show ?thesis by (simp add: qxrp_const)
qed

end
