(* ===== verification/WideArith.thy ===== *)
theory WideArith
  imports QXRPConstants
begin

section \<open>Wide arithmetic\<close>

text \<open>
  \<^verbatim>\<open>include/xrpl/basics/WideArith.h\<close>: \<open>muldiv64\<close>, a product-quotient in 64-bit signed
  arithmetic that splits the multiplicand to keep the products small, and \<open>muldivU64\<close>, the
  same on unsigned factors through a 128-bit product. Every intermediate value of \<open>muldiv64\<close>
  is reduced to 64 bits, so \<open>muldiv64_exact\<close> is the statement that none of them overflows.
\<close>

definition muldiv64 :: "int \<Rightarrow> u32 \<Rightarrow> u32 \<Rightarrow> int" where
  "muldiv64 a b d =
     (let q = c_div a (uint d);
          r = c_mod a (uint d)
      in s64 (s64 (q * uint b) + c_div (s64 (r * uint b)) (uint d)))"

definition muldivU64 :: "u64 \<Rightarrow> u64 \<Rightarrow> u64 \<Rightarrow> u64" where
  "muldivU64 a b d =
     (if d = 0 \<or> a = 0 \<or> b = 0 then 0
      else (let p = (ucast a :: 128 word) * (ucast b :: 128 word)
            in ucast (p div (ucast d :: 128 word))))"

text \<open>The algebraic identity behind the split.\<close>

lemma split_muldiv:
  fixes a b d :: int
  assumes "0 < d"
  shows "(a div d) * b + (a mod d) * b div d = a * b div d"
proof -
  have "a * b = (a div d) * b * d + (a mod d) * b"
    by (metis div_mult_mod_eq distrib_right mult.assoc mult.commute)
  then show ?thesis using assms
    by (simp add: add.commute)
qed

lemma muldiv_le:
  fixes a b d :: int
  assumes "0 \<le> a" "0 \<le> b" "b \<le> d" "0 < d"
  shows "a * b div d \<le> a"
proof -
  have "a * b \<le> a * d" using assms by (simp add: mult_left_mono)
  then have "a * b div d \<le> a * d div d" using assms(4) by (rule zdiv_mono1)
  then show ?thesis using assms(4) by simp
qed

lemma muldiv64_exact:
  assumes a: "0 \<le> a" "a < 2 ^ 63" and b: "b \<le> d" and d: "0 < d"
    and small: "uint b * uint d \<le> 2 ^ 63"
  shows "muldiv64 a b d = a * uint b div uint d"
proof -
  let ?b = "uint b" and ?d = "uint d"
  have d0: "0 < ?d" using d by (simp add: word_less_def)
  have bd: "?b \<le> ?d" using b by (simp add: word_le_def)
  have b0: "0 \<le> ?b" by simp
  have q: "c_div a ?d = a div ?d" and r: "c_mod a ?d = a mod ?d"
    using a(1) d0 by (simp_all add: c_div_nonneg c_mod_nonneg)
  have m: "0 \<le> a mod ?d" "a mod ?d < ?d" using d0 by simp_all
  have rb0: "0 \<le> (a mod ?d) * ?b" using m(1) b0 by simp
  have rb: "(a mod ?d) * ?b < 2 ^ 63"
  proof (cases "?b = 0")
    case True
    then show ?thesis by simp
  next
    case False
    then have "0 < ?b" using b0 by linarith
    with m(2) have "(a mod ?d) * ?b < ?d * ?b" by (rule mult_strict_right_mono)
    then show ?thesis using small by (simp add: mult.commute)
  qed
  have qb0: "0 \<le> (a div ?d) * ?b" using a(1) d0 b0 by (simp add: pos_imp_zdiv_nonneg_iff)
  have t: "(a div ?d) * ?b + (a mod ?d) * ?b div ?d = a * ?b div ?d"
    using d0 by (rule split_muldiv)
  have tl: "a * ?b div ?d \<le> a" using a(1) b0 bd d0 by (rule muldiv_le)
  have s0: "0 \<le> (a mod ?d) * ?b div ?d" using rb0 d0 by (simp add: pos_imp_zdiv_nonneg_iff)
  have "s64 ((a mod ?d) * ?b) = (a mod ?d) * ?b"
    using rb0 rb by (intro s64_id) simp_all
  moreover have "s64 ((a div ?d) * ?b) = (a div ?d) * ?b"
    using qb0 t tl s0 a(2) by (intro s64_id) linarith+
  moreover have "s64 (a * ?b div ?d) = a * ?b div ?d"
    using qb0 s0 t tl a(2) by (intro s64_id) linarith+
  ultimately show ?thesis
    using rb0 d0 t by (simp add: muldiv64_def q r c_div_nonneg)
qed

lemma muldiv64_bounds:
  assumes "0 \<le> a" "a < 2 ^ 63" "b \<le> d" "0 < d" "uint b * uint d \<le> 2 ^ 63"
  shows "0 \<le> muldiv64 a b d \<and> muldiv64 a b d \<le> a"
proof -
  have e: "muldiv64 a b d = a * uint b div uint d" using assms by (rule muldiv64_exact)
  have d0: "0 < uint d" and bd: "uint b \<le> uint d" using assms(3,4) by (simp_all add: word_less_def word_le_def)
  then show ?thesis unfolding e
    using assms(1) muldiv_le [OF assms(1) _ bd d0] by (simp add: pos_imp_zdiv_nonneg_iff)
qed

text \<open>For a fraction in basis points the side condition always holds.\<close>

lemma muldiv64_bps:
  assumes "0 \<le> a" "a < 2 ^ 63" "b \<le> kBPS_DENOM"
  shows "muldiv64 a b kBPS_DENOM = a * uint b div 10000"
    and "0 \<le> muldiv64 a b kBPS_DENOM" and "muldiv64 a b kBPS_DENOM \<le> a"
proof -
  have b: "uint b \<le> 10000" using assms(3) by (simp add: kBPS_DENOM_def word_le_def)
  then have s: "uint b * uint kBPS_DENOM \<le> 2 ^ 63" by (simp add: kBPS_DENOM_def)
  have d: "0 < kBPS_DENOM" by (simp add: kBPS_DENOM_def word_less_def)
  show "muldiv64 a b kBPS_DENOM = a * uint b div 10000"
    using muldiv64_exact [OF assms d s] by (simp add: kBPS_DENOM_def)
  show "0 \<le> muldiv64 a b kBPS_DENOM" "muldiv64 a b kBPS_DENOM \<le> a"
    using muldiv64_bounds [OF assms d s] by simp_all
qed

text \<open>The unsigned version: exact whenever the quotient fits 64 bits, in particular for \<open>b \<le> d\<close>.\<close>

lemma muldivU64_exact:
  assumes "b \<le> d"
  shows "unat (muldivU64 a b d) = unat a * unat b div unat d"
proof (cases "d = 0 \<or> a = 0 \<or> b = 0")
  case True
  then show ?thesis by (auto simp: muldivU64_def)
next
  case False
  let ?a = "unat a" and ?b = "unat b" and ?d = "unat d"
  have lt: "?a < 2 ^ 64" "?b < 2 ^ 64" "?d < 2 ^ 64"
    by (rule unat64_lt)+
  have ua: "unat (ucast a :: 128 word) = ?a" and ub: "unat (ucast b :: 128 word) = ?b"
    and ud: "unat (ucast d :: 128 word) = ?d"
    by (simp_all add: unsigned_ucast_eq take_bit_nat_eq_self lt less_trans [OF lt(1)]
        less_trans [OF lt(2)] less_trans [OF lt(3)])
  have prod: "?a * ?b < 2 ^ 128"
  proof -
    have "?a * ?b < 2 ^ 64 * 2 ^ 64" using lt by (intro mult_strict_mono) simp_all
    then show ?thesis by simp
  qed
  then have p: "unat ((ucast a :: 128 word) * ucast b) = ?a * ?b"
    by (simp add: unat_word_ariths ua ub)
  have d0: "0 < ?d" using False by (simp add: unat_gt_0)
  have bd: "?b \<le> ?d" using assms by (simp add: word_le_nat_alt)
  have "?a * ?b div ?d \<le> ?a * ?d div ?d" using bd by (intro div_le_mono mult_le_mono2)
  also have "\<dots> = ?a" using d0 by simp
  finally have le: "?a * ?b div ?d < 2 ^ 64" using lt(1) by linarith
  have "unat (((ucast a :: 128 word) * ucast b) div ucast d) = ?a * ?b div ?d"
    by (simp add: unat_div p ud)
  with False le show ?thesis
    by (simp add: muldivU64_def unsigned_ucast_eq take_bit_nat_eq_self)
qed

lemma muldivU64_le:
  assumes "b \<le> d"
  shows "muldivU64 a b d \<le> a"
proof -
  have "unat a * unat b div unat d \<le> unat a"
  proof (cases "d = 0")
    case False
    then have d0: "0 < unat d" by (simp add: unat_gt_0)
    have "unat a * unat b div unat d \<le> unat a * unat d div unat d"
      using assms by (intro div_le_mono mult_le_mono2) (simp add: word_le_nat_alt)
    then show ?thesis using d0 by simp
  qed simp
  then show ?thesis using muldivU64_exact [OF assms] by (simp add: word_le_nat_alt)
qed

end
