(* ===== verification/ApplyContext.thy ===== *)
theory ApplyContext
  imports LedgerState WideArith
begin

section \<open>Burning drops and splitting the fee\<close>

text \<open>
  \<open>burnXRP\<close> and \<open>destroyXRP\<close> of \<^verbatim>\<open>src/libxrpl/tx/ApplyContext.cpp\<close>. The first reduces the header's
  total; the second divides a fee that was already taken from the payer into a burnt part and a
  part credited to the treasury, by the burn rate stored in the reward epoch.
\<close>

definition burnXRP :: "view \<Rightarrow> drops \<Rightarrow> view" where
  "burnXRP v amount = (if amount \<le> 0 then v else rawDestroyXRP v amount)"

definition fee_burnBps :: "view \<Rightarrow> u32" where
  "fee_burnBps v =
     (case read_epoch v of
        None \<Rightarrow> kFEE_BURN_DEFAULT_BPS
      | Some sleEpoch \<Rightarrow>
          if kFEE_BURN_MIN_BPS \<le> ep_CurrentBurnBps sleEpoch \<and> ep_CurrentBurnBps sleEpoch \<le> kFEE_BURN_MAX_BPS
          then ep_CurrentBurnBps sleEpoch else kFEE_BURN_DEFAULT_BPS)"

definition destroyXRP :: "env \<Rightarrow> view \<Rightarrow> drops \<Rightarrow> view" where
  "destroyXRP e v fee =
     (if fee \<le> 0 then v
      else let burnDrops = muldiv64 fee (fee_burnBps v) kBPS_DENOM;
               treasuryDrops = fee - burnDrops;
               v1 = rawDestroyXRP v burnDrops
           in if treasuryDrops > 0
              then (case read_account v1 (e_TreasuryAccountID e) of
                      Some sleTreasury \<Rightarrow>
                        put_account v1 (e_TreasuryAccountID e)
                          (sleTreasury\<lparr>acc_Balance := acc_Balance sleTreasury + treasuryDrops\<rparr>)
                    | None \<Rightarrow> rawDestroyXRP v1 treasuryDrops)
              else v1)"

lemma fee_burnBps_range: "kFEE_BURN_MIN_BPS \<le> fee_burnBps v \<and> fee_burnBps v \<le> kFEE_BURN_MAX_BPS"
  by (auto simp: fee_burnBps_def qxrp_const split: option.splits)

lemma fee_burnBps_uint: "4000 \<le> uint (fee_burnBps v) \<and> uint (fee_burnBps v) \<le> 7000"
  using fee_burnBps_range [of v] by (simp add: qxrp_const word_le_def)

lemma fee_burnBps_le_denom: "fee_burnBps v \<le> kBPS_DENOM"
  using fee_burnBps_uint [of v] by (simp add: qxrp_const word_le_def)

text \<open>The burnt part of a fee, exactly; it is between 40 and 70 percent up to rounding.\<close>

lemma fee_burn_exact:
  assumes "0 \<le> fee" "fee < 2 ^ 63"
  shows "muldiv64 fee (fee_burnBps v) kBPS_DENOM = fee * uint (fee_burnBps v) div 10000"
  using assms fee_burnBps_le_denom by (rule muldiv64_bps(1))

lemma fee_burn_bounds:
  assumes "0 \<le> fee" "fee < 2 ^ 63"
  shows "fee * 4000 div 10000 \<le> muldiv64 fee (fee_burnBps v) kBPS_DENOM"
    and "muldiv64 fee (fee_burnBps v) kBPS_DENOM \<le> fee * 7000 div 10000"
    and "0 < fee \<Longrightarrow> muldiv64 fee (fee_burnBps v) kBPS_DENOM < fee"
proof -
  note e = fee_burn_exact [OF assms, of v]
  from assms fee_burnBps_uint [of v] show "fee * 4000 div 10000 \<le> muldiv64 fee (fee_burnBps v) kBPS_DENOM"
    unfolding e by (intro zdiv_mono1 mult_left_mono) auto
  from assms fee_burnBps_uint [of v] show u: "muldiv64 fee (fee_burnBps v) kBPS_DENOM \<le> fee * 7000 div 10000"
    unfolding e by (intro zdiv_mono1 mult_left_mono) auto
  assume "0 < fee"
  then have "fee * 7000 div 10000 < fee" by (simp add: div_less_iff_less_mult)
  with u show "muldiv64 fee (fee_burnBps v) kBPS_DENOM < fee" by simp
qed

text \<open>
  The whole fee leaves the pending state: what the header burns and what the treasury gains add
  up to the fee, and without a treasury account the header burns all of it. The gap between the
  drops held and the header's total closes by exactly the fee.
\<close>

lemma destroyXRP_supply:
  assumes "sound_view v" "0 < fee" "fee < 2 ^ 63"
  shows "sound_view (destroyXRP e v fee)
    \<and> supply_gap (destroyXRP e v fee) = supply_gap v + fee
    \<and> v_seq (destroyXRP e v fee) = v_seq v"
proof -
  let ?b = "muldiv64 fee (fee_burnBps v) kBPS_DENOM"
  have b: "?b < fee" using fee_burn_bounds(3) [of fee v] assms by simp
  have r: "read_account (rawDestroyXRP v d) a = read_account v a" for d a by (simp add: read_account_def)
  have s: "sound_view (rawDestroyXRP v d)" for d
    using assms(1) by (simp add: sound_view_def solvent_def)
  show ?thesis
  proof (cases "read_account v (e_TreasuryAccountID e)")
    case None
    with assms(1,2) b show ?thesis
      by (simp add: destroyXRP_def Let_def r supply_gap_def sound_view_def solvent_def)
  next
    case (Some t)
    then have f: "find_sle v (KAccount (e_TreasuryAccountID e)) = Some (SAccount t)" by (rule read_SomeD)
    with assms(1) have "0 \<le> acc_Balance t" by (auto simp: sound_view_def dest: solventD)
    with assms(1,2) b s Some f show ?thesis
      by (auto simp: destroyXRP_def Let_def r put_defs supply_gap_def sound_view_def held_put intro!: solvent_put)
  qed
qed

lemma destroyXRP_nonpos: "fee \<le> 0 \<Longrightarrow> destroyXRP e v fee = v"
  by (simp add: destroyXRP_def)

text \<open>Nothing but the treasury account and the header's total changes.\<close>

lemma destroyXRP_frame:
  "k \<noteq> KAccount (e_TreasuryAccountID e) \<Longrightarrow> find_sle (destroyXRP e v fee) k = find_sle v k"
  by (auto simp: destroyXRP_def Let_def put_defs split: option.splits)

lemma destroyXRP_treasury:
  assumes "0 < fee" "fee < 2 ^ 63" "read_account v (e_TreasuryAccountID e) = Some t"
  shows "map_option acc_Balance (read_account (destroyXRP e v fee) (e_TreasuryAccountID e))
         = Some (acc_Balance t + (fee - fee * uint (fee_burnBps v) div 10000))
       \<and> v_drops (destroyXRP e v fee) = v_drops v - fee * uint (fee_burnBps v) div 10000"
proof -
  have b: "muldiv64 fee (fee_burnBps v) kBPS_DENOM < fee" using fee_burn_bounds(3) [of fee v] assms by simp
  have r: "read_account (rawDestroyXRP v d) a = read_account v a" for d a by (simp add: read_account_def)
  show ?thesis using assms b fee_burn_exact [of fee v]
    by (simp add: destroyXRP_def Let_def r put_defs)
qed

end
