(* ===== verification/Slashing.thy ===== *)
theory Slashing
  imports Bonding ApplyContext
begin

section \<open>Slashing\<close>

text \<open>
  \<^verbatim>\<open>ValidatorSlash.cpp\<close>: two conflicting validations signed by a bond's consensus key burn the bond
  and force it to unbond. Deserialization and signature verification of a validation are the
  parameter \<open>e_parseValidation\<close>.
\<close>

definition parseValidationEvidence :: "env \<Rightarrow> blob \<Rightarrow> validation option" where
  "parseValidationEvidence e b = (if b = [] then None else e_parseValidation e b)"

definition verifyDoubleSignEvidence :: "env \<Rightarrow> blob \<Rightarrow> blob \<Rightarrow> account \<Rightarrow> validator_bond \<Rightarrow> bool" where
  "verifyDoubleSignEvidence e evidence1 evidence2 slashTarget sleBond =
     (case (parseValidationEvidence e evidence1, parseValidationEvidence e evidence2) of
        (Some v1, Some v2) \<Rightarrow>
          (let pk1 = val_SignerPublic v1; pk2 = val_SignerPublic v2 in
           if pk1 = [] \<or> pk1 \<noteq> pk2 then False
           else if bond_ConsensusKey sleBond \<noteq> pk1 then False
           else if e_calcValidatorBondID e pk1 \<noteq> slashTarget then False
           else if val_LedgerSequence v1 \<noteq> val_LedgerSequence v2 then False
           else if val_LedgerHash v1 = val_LedgerHash v2 then False
           else True)
      | _ \<Rightarrow> False)"

definition ValidatorSlash_preflight :: "env \<Rightarrow> u32 \<Rightarrow> blob option \<Rightarrow> blob option \<Rightarrow> ter" where
  "ValidatorSlash_preflight e offense evidence1 evidence2 =
     (if \<not> e_featureProofOfParticipation e then temDISABLED
      else if offense < kSLASH_OFFENSE_DOUBLE_SIGN \<or> offense > kSLASH_OFFENSE_INVALID_VOTE then temMALFORMED
      else if offense \<noteq> kSLASH_OFFENSE_DOUBLE_SIGN then temDISABLED
      else if evidence1 = None \<or> evidence2 = None then temMALFORMED
      else if getL evidence1 = getL evidence2 then temMALFORMED
      else tesSUCCESS)"

definition ValidatorSlash_preclaim ::
    "env \<Rightarrow> account \<Rightarrow> u32 \<Rightarrow> blob option \<Rightarrow> blob option \<Rightarrow> view \<Rightarrow> ter" where
  "ValidatorSlash_preclaim e target offense evidence1 evidence2 v =
     (case read_bond v target of
        None \<Rightarrow> tecNO_ENTRY
      | Some sleBond \<Rightarrow>
          let bondStatus = bond_BondStatus sleBond in
          if bondStatus = kBOND_STATUS_UNBONDING then tecDUPLICATE
          else if bondStatus \<noteq> kBOND_STATUS_BONDED \<and> bondStatus \<noteq> kBOND_STATUS_REGISTERED
          then tecNO_PERMISSION
          else if offense \<noteq> kSLASH_OFFENSE_DOUBLE_SIGN then temDISABLED
          else if \<not> verifyDoubleSignEvidence e (getL evidence1) (getL evidence2) target sleBond
          then tecNO_PERMISSION
          else tesSUCCESS)"

text \<open>The product is computed in 128 bits, which cannot overflow here; the quotient truncates.\<close>

definition slashedDrops :: "drops \<Rightarrow> u32 \<Rightarrow> drops" where
  "slashedDrops bondedDrops slashBps = c_div (bondedDrops * uint slashBps) (uint kBPS_DENOM)"

definition ValidatorSlash_doApply ::
    "env \<Rightarrow> tx \<Rightarrow> account \<Rightarrow> u32 \<Rightarrow> blob option \<Rightarrow> blob option \<Rightarrow> view \<Rightarrow> applied" where
  "ValidatorSlash_doApply e t target offense evidence1 evidence2 v =
     (case read_bond v target of
        None \<Rightarrow> Inr (tefINTERNAL, v)
      | Some sleBond \<Rightarrow>
          if offense \<noteq> kSLASH_OFFENSE_DOUBLE_SIGN then Inr (temDISABLED, v)
          else if \<not> verifyDoubleSignEvidence e (getL evidence1) (getL evidence2) target sleBond
          then Inr (tecNO_PERMISSION, v)
          else (case read_account v (bond_Account sleBond) of
             None \<Rightarrow> Inr (tefINTERNAL, v)
           | Some sleTarget \<Rightarrow>
               let bondedDrops = bond_BondedAmount sleBond;
                   slashed = slashedDrops bondedDrops kSLASH_DOUBLE_SIGN_BPS;
                   remainder = bondedDrops - slashed;
                   prevMul = bond_SlashMultiplier sleBond;
                   v1 = put_bond v target
                     (sleBond\<lparr>bond_BondedAmount := remainder,
                        bond_BondStatus := kBOND_STATUS_UNBONDING,
                        bond_UnbondingStartLedger := Some (v_seq v),
                        bond_SlashMultiplier := (if prevMul \<ge> 1000 then prevMul - 1000 else 0),
                        bond_SlashCount := Some (getU (bond_SlashCount sleBond) + 1),
                        bond_PreviousTxnID := tx_ID t, bond_PreviousTxnLgrSeq := v_seq v\<rparr>);
                   v2 = (if slashed > 0 then burnXRP v1 slashed else v1);
                   v3 = (if remainder > 0
                         then put_account v2 (bond_Account sleBond)
                           (sleTarget\<lparr>acc_Balance := acc_Balance sleTarget + remainder\<rparr>)
                         else v2)
               in Inr (tesSUCCESS, v3)))"

subsection \<open>Properties\<close>

text \<open>A double-signing slash takes the whole bond; no remainder is ever paid.\<close>

lemma slashedDrops_all: "slashedDrops d kSLASH_DOUBLE_SIGN_BPS = d"
  by (simp add: slashedDrops_def qxrp_const c_div_def abs_mult sgn_mult mult_sgn_abs)

definition slashed_bond :: "tx \<Rightarrow> u32 \<Rightarrow> validator_bond \<Rightarrow> validator_bond" where
  "slashed_bond t seq b =
     b\<lparr>bond_BondedAmount := 0, bond_BondStatus := kBOND_STATUS_UNBONDING,
       bond_UnbondingStartLedger := Some seq,
       bond_SlashMultiplier := (if bond_SlashMultiplier b \<ge> 1000 then bond_SlashMultiplier b - 1000 else 0),
       bond_SlashCount := Some (getU (bond_SlashCount b) + 1),
       bond_PreviousTxnID := tx_ID t, bond_PreviousTxnLgrSeq := seq\<rparr>"

lemma ValidatorSlash_successE:
  assumes "ValidatorSlash_doApply e t target offense e1 e2 v = Inr (tesSUCCESS, v')"
  obtains bond where "read_bond v target = Some bond" "offense = kSLASH_OFFENSE_DOUBLE_SIGN"
    "verifyDoubleSignEvidence e (getL e1) (getL e2) target bond"
    "v' = burnXRP (put v (KBond target) (SBond (slashed_bond t (v_seq v) bond))) (bond_BondedAmount bond)"
  using assms
  by (auto simp: ValidatorSlash_doApply_def Let_def slashedDrops_all put_defs slashed_bond_def burnXRP_def
      split: option.splits if_splits)

lemma ValidatorSlash_conserves:
  assumes "ValidatorSlash_doApply e t target offense e1 e2 v = Inr (tesSUCCESS, v')" "sound_view v"
  shows "conserves v v'"
  using assms(1)
proof (cases rule: ValidatorSlash_successE)
  case (1 bond)
  from 1(1) have f: "find_sle v (KBond target) = Some (SBond bond)" by (rule read_SomeD)
  with assms(2) have "0 \<le> bond_BondedAmount bond" by (auto simp: sound_view_def dest: solventD)
  moreover have "solvent (put v (KBond target) (SBond (slashed_bond t (v_seq v) bond)))"
    using assms(2) by (auto simp: sound_view_def slashed_bond_def intro: solvent_put)
  ultimately show ?thesis using assms(2) f
    by (auto simp: 1(4) burnXRP_def conserves_def sound_view_def supply_gap_def held_put slashed_bond_def solvent_def)
qed

lemma ValidatorSlash_bonds_ok:
  assumes "ValidatorSlash_doApply e t target offense e1 e2 v = Inr (tesSUCCESS, v')" "bonds_ok e v"
  shows "bonds_ok e v'"
  using assms(1)
proof (cases rule: ValidatorSlash_successE)
  case (1 bond)
  from assms(2) 1(1) have b: "bond_ok e target bond" by (rule bonds_okD)
  then have "(if bond_SlashMultiplier bond \<ge> 1000 then bond_SlashMultiplier bond - 1000 else 0) \<le> kBPS_DENOM"
    by (auto simp: bond_ok_def qxrp_const word_le_nat_alt unat_sub)
  with b have "bond_ok e target (slashed_bond t (v_seq v) bond)"
    by (simp add: bond_ok_def slashed_bond_def)
  with assms(2) have "bonds_ok e (put v (KBond target) (SBond (slashed_bond t (v_seq v) bond)))"
    by (rule bonds_ok_put_bond)
  then show ?thesis
    by (simp add: 1(4) burnXRP_def bonds_ok_def read_bond_def)
qed

text \<open>
  What valid evidence consists of: two validations that parse with good signatures, by the bond's
  own consensus key, for the same ledger sequence and different ledger hashes.
\<close>

lemma verifyDoubleSignEvidence_iff:
  "verifyDoubleSignEvidence e b1 b2 target bond \<longleftrightarrow>
     (\<exists>v1 v2. b1 \<noteq> [] \<and> b2 \<noteq> [] \<and> e_parseValidation e b1 = Some v1 \<and> e_parseValidation e b2 = Some v2
        \<and> val_SignerPublic v1 = bond_ConsensusKey bond \<and> val_SignerPublic v2 = bond_ConsensusKey bond
        \<and> bond_ConsensusKey bond \<noteq> [] \<and> e_calcValidatorBondID e (bond_ConsensusKey bond) = target
        \<and> val_LedgerSequence v1 = val_LedgerSequence v2 \<and> val_LedgerHash v1 \<noteq> val_LedgerHash v2)"
proof (cases "b1 = [] \<or> b2 = [] \<or> e_parseValidation e b1 = None \<or> e_parseValidation e b2 = None")
  case True
  then show ?thesis
    by (auto simp: verifyDoubleSignEvidence_def parseValidationEvidence_def split: option.splits)
next
  case False
  then obtain v1 v2 where "e_parseValidation e b1 = Some v1" "e_parseValidation e b2 = Some v2"
    by auto
  with False show ?thesis
    by (simp add: verifyDoubleSignEvidence_def parseValidationEvidence_def Let_def) metis
qed

end
