(* ===== verification/BondLifecycle.thy ===== *)
theory BondLifecycle
  imports Slashing
begin

section \<open>The life cycle of a bond\<close>

text \<open>
  The bond transactors as one transition system. A step is a transaction whose \<open>preflight\<close> and
  \<open>preclaim\<close> succeed and whose \<open>doApply\<close> returns \<open>tesSUCCESS\<close>, the move to the next ledger, or any
  other change of the view that leaves the identity, the status, the amount and the unbonding
  start of every bond alone (fees, claims, scoring, other transactions).
\<close>

definition bond_core :: "validator_bond \<Rightarrow> account \<times> blob \<times> drops \<times> u32 \<times> u32 option" where
  "bond_core b = (bond_Account b, bond_ConsensusKey b, bond_BondedAmount b, bond_BondStatus b,
     bond_UnbondingStartLedger b)"

inductive bond_step :: "env \<Rightarrow> view \<Rightarrow> view \<Rightarrow> bool" for e where
  step_register: "ValidatorRegister_preflight e pk ck = tesSUCCESS \<Longrightarrow>
    ValidatorRegister_preclaim e ck v = tesSUCCESS \<Longrightarrow>
    ValidatorRegister_doApply e t pk ck v = Inr (tesSUCCESS, v') \<Longrightarrow> bond_step e v v'"
| step_bond: "ValidatorBond_preflight e ck amount = tesSUCCESS \<Longrightarrow>
    ValidatorBond_preclaim e t ck v = tesSUCCESS \<Longrightarrow>
    ValidatorBond_doApply e t ck amount v = Inr (tesSUCCESS, v') \<Longrightarrow> bond_step e v v'"
| step_unbond: "ValidatorUnbond_preflight e ck = tesSUCCESS \<Longrightarrow>
    ValidatorUnbond_preclaim e t ck v = tesSUCCESS \<Longrightarrow>
    ValidatorUnbond_doApply e t ck v = Inr (tesSUCCESS, v') \<Longrightarrow> bond_step e v v'"
| step_release: "ReleaseBond_preflight e = tesSUCCESS \<Longrightarrow>
    ReleaseBond_preclaim target v = tesSUCCESS \<Longrightarrow>
    ReleaseBond_doApply target v = Inr (tesSUCCESS, v') \<Longrightarrow> bond_step e v v'"
| step_slash: "ValidatorSlash_preflight e off e1 e2 = tesSUCCESS \<Longrightarrow>
    ValidatorSlash_preclaim e target off e1 e2 v = tesSUCCESS \<Longrightarrow>
    ValidatorSlash_doApply e t target off e1 e2 v = Inr (tesSUCCESS, v') \<Longrightarrow> bond_step e v v'"
| step_close: "unat (v_seq v) + 1 < 2 ^ 32 \<Longrightarrow> bond_step e v (v\<lparr>v_seq := v_seq v + 1\<rparr>)"
| step_other: "v_seq v' = v_seq v \<Longrightarrow>
    (\<And>i. map_option bond_core (read_bond v' i) = map_option bond_core (read_bond v i)) \<Longrightarrow> bond_step e v v'"

text \<open>What one step does to one bond.\<close>

lemma read_bond_register:
  assumes "ValidatorRegister_doApply e t pk ck v = Inr (tesSUCCESS, v')" "read_bond v i = Some b"
  shows "read_bond v' i = Some b \<and> v_seq v' = v_seq v"
  using assms(1)
proof (cases rule: ValidatorRegister_successE)
  case (1 page v1 acct)
  note f = dir_frame_simps [OF ownerDirInsert_frame [OF 1(1)]]
  from 1 assms(2) f show ?thesis by (auto simp: read_bond_def)
qed

lemma ownerDirRemove_bond:
  "ownerDirRemove w a p k = Inr (b, v2) \<Longrightarrow> read_bond v2 i = read_bond w i \<and> v_seq v2 = v_seq w"
  by (drule ownerDirRemove_frame) (simp add: dir_frame_simps)

lemma read_bond_release:
  assumes "ReleaseBond_doApply target v = Inr (tesSUCCESS, v')" "i \<noteq> target"
  shows "read_bond v' i = read_bond v i \<and> v_seq v' = v_seq v"
  using assms
  by (auto simp: ReleaseBond_doApply_def Let_def put_defs
      split: option.splits sum.splits bool.splits if_splits dest!: ownerDirRemove_bond [of _ _ _ _ _ _ i])

text \<open>
  A bond is staked since ledger \<open>n\<close>, seen from ledger \<open>m\<close>: it is bonded, or its unbonding started
  between the two.
\<close>

definition staked :: "nat \<Rightarrow> nat \<Rightarrow> validator_bond \<Rightarrow> bool" where
  "staked n m b \<longleftrightarrow> bond_BondStatus b = kBOND_STATUS_BONDED
     \<or> bond_BondStatus b = kBOND_STATUS_UNBONDING
       \<and> n \<le> unat (getU (bond_UnbondingStartLedger b)) \<and> unat (getU (bond_UnbondingStartLedger b)) \<le> m"

lemma staked_mono: "staked n m b \<Longrightarrow> m \<le> m' \<Longrightarrow> staked n m' b"
  by (auto simp: staked_def)

definition locked_since :: "nat \<Rightarrow> account \<Rightarrow> view \<Rightarrow> bool" where
  "locked_since n i v \<longleftrightarrow> n \<le> unat (v_seq v) \<and>
     ((\<exists>b. read_bond v i = Some b \<and> staked n (unat (v_seq v)) b) \<or> n + 262800 \<le> unat (v_seq v))"

lemma bond_step_seq: "bond_step e v v' \<Longrightarrow> unat (v_seq v) \<le> unat (v_seq v')"
proof (induction rule: bond_step.induct)
  case (step_register pk ck v t v')
  then show ?case
    by (elim ValidatorRegister_successE)
      (auto simp: dir_frame_simps [OF ownerDirInsert_frame])
next
  case (step_bond ck amount t v v')
  then show ?case by (elim ValidatorBond_successE) simp
next
  case (step_unbond ck t v v')
  then show ?case by (elim ValidatorUnbond_successE) simp
next
  case (step_release target v v')
  then show ?case using read_bond_release [of target v v' "target + 1"] by simp
next
  case (step_slash off e1 e2 target v t v')
  then show ?case by (elim ValidatorSlash_successE) (simp add: burnXRP_def)
next
  case (step_close v)
  then show ?case by (simp add: unat_word_ariths)
qed simp

lemma map_option_coreD:
  assumes "map_option bond_core y = map_option bond_core x" "x = Some b"
  shows "\<exists>b'. y = Some b' \<and> bond_core b' = bond_core b"
  using assms by (cases y) auto

lemma bond_step_locked:
  assumes "bond_step e v v'" "locked_since n i v" "unat (v_seq v') + 262800 < 2 ^ 32"
  shows "locked_since n i v'"
proof (cases "n + 262800 \<le> unat (v_seq v)")
  case True
  with assms(1,2) show ?thesis by (auto simp: locked_since_def dest: bond_step_seq)
next
  case False
  with assms(2) obtain b where b: "read_bond v i = Some b" "staked n (unat (v_seq v)) b" and n: "n \<le> unat (v_seq v)"
    by (auto simp: locked_since_def)
  have sq: "unat (v_seq v) \<le> unat (v_seq v')" using assms(1) by (rule bond_step_seq)
  from assms(1) show ?thesis
  proof cases
    case (step_register pk ck t)
    with b n show ?thesis by (auto simp: locked_since_def dest!: read_bond_register)
  next
    case (step_bond ck amount t)
    from step_bond(3) show ?thesis
      by (rule ValidatorBond_successE) (use b n in \<open>auto simp: locked_since_def staked_def\<close>)
  next
    case (step_unbond ck t)
    from step_unbond(3) show ?thesis
      by (rule ValidatorUnbond_successE) (use b n in \<open>auto simp: locked_since_def staked_def\<close>)
  next
    case (step_release target)
    show ?thesis
    proof (cases "i = target")
      case False
      with step_release(3) b n show ?thesis by (auto simp: locked_since_def dest!: read_bond_release)
    next
      case True
      from step_release(2) b(1) True have
        st: "bond_BondStatus b = kBOND_STATUS_UNBONDING"
        and ns: "\<not> bond_too_soon (getU (bond_UnbondingStartLedger b)) (v_seq v)"
        by (auto simp: ReleaseBond_preclaim_def split: if_splits)
      have lk: "unat kUNBONDING_LOCK_LEDGERS = 262800" by (simp add: qxrp_const)
      have m: "n \<le> unat (getU (bond_UnbondingStartLedger b))"
        using b(2) st by (auto simp: staked_def qxrp_const)
      have "unat (getU (bond_UnbondingStartLedger b)) + unat kUNBONDING_LOCK_LEDGERS < 2 ^ 32"
        using b(2) st sq assms(3) lk by (auto simp: staked_def qxrp_const)
      from bl.open_after [OF ns this] m lk have "n + 262800 \<le> unat (v_seq v)" by simp
      with sq n show ?thesis by (simp add: locked_since_def)
    qed
  next
    case (step_slash off e1 e2 target t)
    from step_slash(3) show ?thesis
      by (rule ValidatorSlash_successE)
        (use b n in \<open>auto simp: locked_since_def staked_def burnXRP_def slashed_bond_def read_bond_def\<close>)
  next
    case step_close
    then have "read_bond v' i = read_bond v i" by (simp add: read_bond_def find_sle_def)
    with b n sq show ?thesis by (auto simp: locked_since_def intro: staked_mono)
  next
    case step_other
    with b n map_option_coreD [OF step_other(2) b(1)] show ?thesis
      by (auto simp: locked_since_def staked_def bond_core_def)
  qed
qed

text \<open>
  Along a whole run: stake that is bonded in ledger \<open>n\<close> is still there, or at least the unbonding
  lock has passed since.
\<close>

lemma bond_run_seq: "(bond_step e)\<^sup>*\<^sup>* v v' \<Longrightarrow> unat (v_seq v) \<le> unat (v_seq v')"
  by (induction rule: rtranclp_induct) (auto dest: bond_step_seq)

lemma bond_run_locked:
  assumes "(bond_step e)\<^sup>*\<^sup>* v v'" "locked_since n i v" "unat (v_seq v') + 262800 < 2 ^ 32"
  shows "locked_since n i v'"
  using assms
proof (induction rule: rtranclp_induct)
  case (step y z)
  have "unat (v_seq y) \<le> unat (v_seq z)" using step(2) by (rule bond_step_seq)
  with step.prems have "unat (v_seq y) + 262800 < 2 ^ 32" by linarith
  with step show ?case by (auto intro: bond_step_locked)
qed

lemma bonded_locked_since:
  "read_bond v i = Some b \<Longrightarrow> bond_BondStatus b = kBOND_STATUS_BONDED \<Longrightarrow> locked_since (unat (v_seq v)) i v"
  by (auto simp: locked_since_def staked_def)

end
