(* ===== verification/Invariants.thy ===== *)
theory Invariants
  imports Slashing
begin

section \<open>Invariant checks\<close>

text \<open>
  The invariant checkers of \<^verbatim>\<open>src/libxrpl/tx/invariants/\<close> that look at the entries of the model, and
  \<open>ApplyContext::checkInvariants\<close>, which runs them over every entry a transaction created, changed
  or deleted. The remaining checkers (offers, non-fungible tokens, vaults, loans, permissioned
  domains) concern entry types that the modelled transactors never write.
\<close>

subsection \<open>The entries of a transaction\<close>

text \<open>
  \<open>visit\<close> hands every changed entry to the checkers. A deleted entry has no contents after; the
  checkers below either ignore the contents of a deleted entry or never see a deleted account.
\<close>

definition visit_keys :: "view \<Rightarrow> view \<Rightarrow> key list" where
  "visit_keys base v =
     filter (\<lambda>k. find_sle base k \<noteq> find_sle v k) (remdups (map fst (v_sles base) @ map fst (v_sles v)))"

definition visit :: "view \<Rightarrow> view \<Rightarrow> (sle option \<times> sle option) list" where
  "visit base v = map (\<lambda>k. (find_sle base k, find_sle v k)) (visit_keys base v)"

subsection \<open>The checkers\<close>

definition is_slash :: "tx \<Rightarrow> bool" where
  "is_slash t = (case tx_body t of ValidatorSlash _ _ _ _ \<Rightarrow> True | _ \<Rightarrow> False)"

definition TransactionFeeCheck_finalize :: "tx \<Rightarrow> drops \<Rightarrow> bool" where
  "TransactionFeeCheck_finalize t fee \<longleftrightarrow> \<not> fee < 0 \<and> \<not> fee \<ge> kINITIAL_XRP \<and> \<not> fee > tx_Fee t"

definition XRPNotCreated_visitEntry :: "sle option \<times> sle option \<Rightarrow> drops \<Rightarrow> drops" where
  "XRPNotCreated_visitEntry ba d =
     (case ba of (before, after) \<Rightarrow>
        let d1 = (case before of Some b \<Rightarrow> d - sle_drops b | None \<Rightarrow> d)
        in case after of Some a \<Rightarrow> d1 + sle_drops a | None \<Rightarrow> d1)"

definition XRPNotCreated_finalize :: "tx \<Rightarrow> drops \<Rightarrow> drops \<Rightarrow> bool" where
  "XRPNotCreated_finalize t fee d =
     (if d > 0 then False
      else if is_slash t then \<not> (- d < fee)
      else \<not> (- d \<noteq> fee))"

definition QXRPDropConservation_visitEntry :: "sle option \<times> sle option \<Rightarrow> drops \<Rightarrow> drops" where
  "QXRPDropConservation_visitEntry ba d =
     (case ba of (before, after) \<Rightarrow>
        let d1 = (case before of Some b \<Rightarrow> d - sle_drops b | None \<Rightarrow> d)
        in case after of Some a \<Rightarrow> d1 + sle_drops a | None \<Rightarrow> d1)"

definition QXRPDropConservation_finalize :: "tx \<Rightarrow> drops \<Rightarrow> drops \<Rightarrow> bool" where
  "QXRPDropConservation_finalize t fee d =
     (if d > 0 then False
      else if is_slash t then (if - d < fee then False else True)
      else if - d \<noteq> fee then False else True)"

definition bad_balance :: "sle option \<Rightarrow> bool" where
  "bad_balance s = (case s of Some (SAccount r) \<Rightarrow> acc_Balance r > kINITIAL_XRP \<or> acc_Balance r < 0 | _ \<Rightarrow> False)"

definition XRPBalanceChecks :: "(sle option \<times> sle option) list \<Rightarrow> bool" where
  "XRPBalanceChecks vs \<longleftrightarrow> (\<forall>(before, after) \<in> set vs. \<not> bad_balance before \<and> \<not> bad_balance after)"

definition is_account :: "sle option \<Rightarrow> bool" where
  "is_account s = (case s of Some (SAccount _) \<Rightarrow> True | _ \<Rightarrow> False)"

text \<open>None of the modelled transactions has a privilege to delete or to create an account.\<close>

definition AccountRootsNotDeleted :: "(sle option \<times> sle option) list \<Rightarrow> bool" where
  "AccountRootsNotDeleted vs \<longleftrightarrow> length (filter (\<lambda>(before, after). after = None \<and> is_account before) vs) = 0"

definition ValidNewAccountRoot :: "(sle option \<times> sle option) list \<Rightarrow> bool" where
  "ValidNewAccountRoot vs \<longleftrightarrow> length (filter (\<lambda>(before, after). before = None \<and> is_account after) vs) = 0"

definition same_type :: "sle \<Rightarrow> sle \<Rightarrow> bool" where
  "same_type s s' = (case s of
       SAccount _ \<Rightarrow> (case s' of SAccount _ \<Rightarrow> True | _ \<Rightarrow> False)
     | SDir _ \<Rightarrow> (case s' of SDir _ \<Rightarrow> True | _ \<Rightarrow> False)
     | SBond _ \<Rightarrow> (case s' of SBond _ \<Rightarrow> True | _ \<Rightarrow> False)
     | SEpoch _ \<Rightarrow> (case s' of SEpoch _ \<Rightarrow> True | _ \<Rightarrow> False)
     | SGovParams _ \<Rightarrow> (case s' of SGovParams _ \<Rightarrow> True | _ \<Rightarrow> False)
     | SProposal _ \<Rightarrow> (case s' of SProposal _ \<Rightarrow> True | _ \<Rightarrow> False)
     | SPopLp _ \<Rightarrow> (case s' of SPopLp _ \<Rightarrow> True | _ \<Rightarrow> False)
     | SName _ \<Rightarrow> (case s' of SName _ \<Rightarrow> True | _ \<Rightarrow> False)
     | SVault _ \<Rightarrow> (case s' of SVault _ \<Rightarrow> True | _ \<Rightarrow> False)
     | SMptIssuance _ \<Rightarrow> (case s' of SMptIssuance _ \<Rightarrow> True | _ \<Rightarrow> False)
     | SMPToken _ \<Rightarrow> (case s' of SMPToken _ \<Rightarrow> True | _ \<Rightarrow> False)
     | SAmm _ \<Rightarrow> (case s' of SAmm _ \<Rightarrow> True | _ \<Rightarrow> False)
     | SRippleState _ \<Rightarrow> (case s' of SRippleState _ \<Rightarrow> True | _ \<Rightarrow> False)
     | STicket _ \<Rightarrow> (case s' of STicket _ \<Rightarrow> True | _ \<Rightarrow> False)
     | SEscrow _ \<Rightarrow> (case s' of SEscrow _ \<Rightarrow> True | _ \<Rightarrow> False)
     | SPayChan _ _ \<Rightarrow> (case s' of SPayChan _ _ \<Rightarrow> True | _ \<Rightarrow> False)
     | SSkipList _ \<Rightarrow> (case s' of SSkipList _ \<Rightarrow> True | _ \<Rightarrow> False)
     | SNegativeUNL _ \<Rightarrow> (case s' of SNegativeUNL _ \<Rightarrow> True | _ \<Rightarrow> False)
     | SOther n \<Rightarrow> s' = SOther n)"

definition LedgerEntryTypesMatch :: "(sle option \<times> sle option) list \<Rightarrow> bool" where
  "LedgerEntryTypesMatch vs \<longleftrightarrow>
     (\<forall>ba \<in> set vs. case ba of (Some before, Some after) \<Rightarrow> same_type before after | _ \<Rightarrow> True)"

subsection \<open>Running them\<close>

definition failInvariantCheck :: "ter \<Rightarrow> ter" where
  "failInvariantCheck result =
     (if result = tecINVARIANT_FAILED \<or> result = tefINVARIANT_FAILED then tefINVARIANT_FAILED
      else tecINVARIANT_FAILED)"

definition invariants_hold :: "tx \<Rightarrow> drops \<Rightarrow> view \<Rightarrow> view \<Rightarrow> bool" where
  "invariants_hold t fee base v =
     (let vs = visit base v in
      list_all id
        [TransactionFeeCheck_finalize t fee,
         AccountRootsNotDeleted vs,
         LedgerEntryTypesMatch vs,
         XRPBalanceChecks vs,
         XRPNotCreated_finalize t fee (fold XRPNotCreated_visitEntry vs 0),
         ValidNewAccountRoot vs,
         QXRPDropConservation_finalize t fee (fold QXRPDropConservation_visitEntry vs 0)])"

definition checkInvariants :: "tx \<Rightarrow> ter \<Rightarrow> drops \<Rightarrow> view \<Rightarrow> view \<Rightarrow> ter" where
  "checkInvariants t result fee base v =
     (if invariants_hold t fee base v then result else failInvariantCheck result)"

subsection \<open>What the drop accounting computes\<close>

lemma visit_fold: "fold XRPNotCreated_visitEntry vs d = d + (\<Sum>(b, a)\<leftarrow>vs. opt_val sle_drops a - opt_val sle_drops b)"
  by (induction vs arbitrary: d) (auto simp: XRPNotCreated_visitEntry_def split: option.splits)

lemma qxrp_visit_same: "QXRPDropConservation_visitEntry = XRPNotCreated_visitEntry"
  by (simp add: fun_eq_iff QXRPDropConservation_visitEntry_def XRPNotCreated_visitEntry_def)

lemma qxrp_finalize_same: "QXRPDropConservation_finalize = XRPNotCreated_finalize"
  by (simp add: fun_eq_iff QXRPDropConservation_finalize_def XRPNotCreated_finalize_def)

lemma held_keys:
  assumes "wf_view v" "finite S" "set (map fst (v_sles v)) \<subseteq> S"
  shows "held v = (\<Sum>k\<in>S. opt_val sle_drops (find_sle v k))"
proof -
  have d: "distinct (map fst (v_sles v))" using assms(1) by (simp add: wf_view_def keys_distinct_def)
  have "held v = (\<Sum>p\<leftarrow>v_sles v. opt_val sle_drops (find_sle v (fst p)))"
    unfolding held_def val_sum_def
    by (rule arg_cong [where f = sum_list], rule map_cong [OF refl])
      (use d in \<open>auto simp: find_sle_def\<close>)
  also have "\<dots> = (\<Sum>k\<leftarrow>map fst (v_sles v). opt_val sle_drops (find_sle v k))" by (simp add: comp_def)
  also have "\<dots> = (\<Sum>k\<in>set (map fst (v_sles v)). opt_val sle_drops (find_sle v k))"
    by (rule sum_list_distinct_conv_sum_set [OF d])
  also have "\<dots> = (\<Sum>k\<in>S. opt_val sle_drops (find_sle v k))"
    using assms(2,3) by (intro sum.mono_neutral_left) (auto simp: find_sle_def map_of_eq_None_iff [THEN iffD2])
  finally show ?thesis .
qed

lemma drop_delta:
  assumes "wf_view base" "wf_view v"
  shows "fold XRPNotCreated_visitEntry (visit base v) 0 = held v - held base"
proof -
  let ?ks = "remdups (map fst (v_sles base) @ map fst (v_sles v))"
  let ?f = "\<lambda>k. opt_val sle_drops (find_sle v k) - opt_val sle_drops (find_sle base k)"
  have "fold XRPNotCreated_visitEntry (visit base v) 0 = (\<Sum>k\<leftarrow>visit_keys base v. ?f k)"
    by (simp add: visit_fold visit_def comp_def)
  also have "\<dots> = (\<Sum>k\<in>set (visit_keys base v). ?f k)"
    by (rule sum_list_distinct_conv_sum_set) (simp add: visit_keys_def)
  also have "\<dots> = (\<Sum>k\<in>set ?ks. ?f k)"
    by (intro sum.mono_neutral_left) (auto simp: visit_keys_def)
  also have "\<dots> = held v - held base"
    using held_keys [OF assms(1), of "set ?ks"] held_keys [OF assms(2), of "set ?ks"]
    by (simp add: sum_subtractf)
  finally show ?thesis .
qed

text \<open>
  The two conservation checks are the same check. They accept exactly when the drops held by all
  entries fell by the fee, or, for a slashing, by the fee at least.
\<close>

lemma conservation_iff:
  assumes "wf_view base" "wf_view v" "0 \<le> fee"
  shows "QXRPDropConservation_finalize t fee (fold QXRPDropConservation_visitEntry (visit base v) 0) \<longleftrightarrow>
    (if is_slash t then held v + fee \<le> held base else held v + fee = held base)"
  using assms(3) by (auto simp: qxrp_visit_same qxrp_finalize_same XRPNotCreated_finalize_def drop_delta [OF assms(1,2)])

end
