(* ===== verification/PoPLEmission.thy ===== *)
theory PoPLEmission
  imports WideArith
begin

section \<open>Emission schedule and emission split\<close>

text \<open>
  \<^verbatim>\<open>include/xrpl/tx/PoPLEmission.h\<close>: the CID emission rate per epoch (all of it in
  \<^verbatim>\<open>std::uint32_t\<close>, so it is modelled on \<open>32 word\<close>), its yearly average, and the split of an
  epoch's emission between vault liquidity providers, AMM liquidity providers and validators.
  \<open>cid_exact\<close> gives the rate as an exact integer function for the epochs where no intermediate
  value is negative; \<open>cid_wrapped\<close> gives it for the epochs after that.
\<close>

definition cidEpochBpsNumerator :: "u32 \<Rightarrow> u32" where
  "cidEpochBpsNumerator epochNum =
     kQXRP_CID_YEAR1_AVG_BPS * kQXRP_CID_DECLINE_DEN + 1326 * kQXRP_CID_DECLINE_NUM
     - kQXRP_CID_DECLINE_NUM * (epochNum - 1) * kQXRP_EPOCHS_PER_YEAR"

definition cidEpochBpsDenominator :: u32 where
  "cidEpochBpsDenominator = kQXRP_EPOCHS_PER_YEAR * kQXRP_CID_DECLINE_DEN"

definition cidYearlyAvgBps :: "u32 \<Rightarrow> u32" where
  "cidYearlyAvgBps epochNum =
     (if epochNum = 0 then kQXRP_CID_YEAR1_AVG_BPS
      else (let year0 = (epochNum - 1) div kQXRP_EPOCHS_PER_YEAR;
                denom = cidEpochBpsDenominator;
                numer = kQXRP_EPOCHS_PER_YEAR *
                          (kQXRP_CID_YEAR1_AVG_BPS * kQXRP_CID_DECLINE_DEN
                           + 1326 * kQXRP_CID_DECLINE_NUM)
                        - kQXRP_EPOCHS_PER_YEAR * kQXRP_CID_DECLINE_NUM *
                          (kQXRP_EPOCHS_PER_YEAR * kQXRP_EPOCHS_PER_YEAR * year0 + 1326);
                yearlyBps = (numer + denom div 2) div denom
            in max kQXRP_CID_YEARLY_FLOOR_BPS yearlyBps))"

definition cidEmissionBps :: "u32 \<Rightarrow> u32" where
  "cidEmissionBps e =
     (let epochNum = (if e = 0 then 1 else e);
          denom = cidEpochBpsDenominator;
          numer = cidEpochBpsNumerator epochNum;
          rounded = (numer + denom div 2) div denom
      in max kQXRP_CID_EPOCH_FLOOR_BPS rounded)"

definition poplLpParticipationBps :: "u32 \<Rightarrow> u32" where
  "poplLpParticipationBps providerCount =
     (if providerCount = 0 then 0
      else (let capped = min providerCount kQXRP_POPL_LP_MAX_PROVIDERS;
                bps = capped * kQXRP_POPL_LP_BPS_PER_PROVIDER
            in min bps kQXRP_POPL_LP_MAX_BPS))"

definition poplAmmLpParticipationBps :: "u32 \<Rightarrow> u32" where
  "poplAmmLpParticipationBps ammProviderCount =
     (if ammProviderCount = 0 then 0
      else (let capped = min ammProviderCount kQXRP_POPL_AMM_LP_MAX_PROVIDERS;
                bps = capped * kQXRP_POPL_AMM_LP_BPS_PER_PROVIDER
            in min bps kQXRP_POPL_AMM_LP_MAX_BPS))"

definition poplValidatorParticipationBps :: "u32 \<Rightarrow> u32 \<Rightarrow> u32" where
  "poplValidatorParticipationBps vaultProviderCount ammProviderCount =
     (let used = poplLpParticipationBps vaultProviderCount
                 + poplAmmLpParticipationBps ammProviderCount
      in if used \<ge> kBPS_DENOM then 0 else kBPS_DENOM - used)"

subsection \<open>The rate as an integer function\<close>

text \<open>The mathematical schedule that the header describes: linear decline, then a floor.\<close>

definition cid_schedule :: "nat \<Rightarrow> int" where
  "cid_schedule e = max 3 ((14254916 - 39000 * (int e - 1)) div 562432)"

lemma cid_denom: "cidEpochBpsDenominator = 562432"
  by (simp add: cidEpochBpsDenominator_def qxrp_const)

lemma cid_rounded_arg:
  "cidEpochBpsNumerator e + cidEpochBpsDenominator div 2 = 14254916 - 39000 * (e - 1)"
proof -
  have h: "(562432 :: u32) div 2 = 281216" by (rule word_uint_eqI) (simp add: uint_div)
  show ?thesis unfolding cid_denom h
    by (simp add: cidEpochBpsNumerator_def qxrp_const algebra_simps)
qed

lemma uint_cid_arg:
  "uint (14254916 - 39000 * (e - 1) :: u32) = (14254916 - 39000 * (uint e - 1)) mod 2 ^ 32"
  by (simp add: uint_word_ariths mod_simps)

lemma uint_cidEmissionBps:
  assumes "e \<noteq> 0"
  shows "uint (cidEmissionBps e) = max 3 ((14254916 - 39000 * (uint e - 1)) mod 2 ^ 32 div 562432)"
proof -
  have eq: "cidEmissionBps e = max 3 ((14254916 - 39000 * (e - 1)) div 562432)"
    using assms unfolding cidEmissionBps_def Let_def cid_rounded_arg
    by (simp add: cid_denom kQXRP_CID_EPOCH_FLOOR_BPS_def)
  have um: "uint (max a b) = max (uint a) (uint b)" for a b :: u32
    by (simp add: max_def word_le_def)
  show ?thesis unfolding eq um uint_div uint_cid_arg by simp
qed

text \<open>The two ranges of the reduced numerator.\<close>

lemma cid_arg_small:
  fixes k :: int
  assumes "1 \<le> k" "k \<le> 366"
  shows "(14254916 - 39000 * (k - 1)) mod 2 ^ 32 = 14254916 - 39000 * (k - 1)"
  using assms by (intro mod_pos_pos_trivial) simp_all

lemma cid_arg_wrapped:
  fixes k :: int
  assumes "367 \<le> k" "k \<le> 110000"
  shows "(14254916 - 39000 * (k - 1)) mod 2 ^ 32 = 2 ^ 32 + 14254916 - 39000 * (k - 1)"
proof -
  have "(14254916 - 39000 * (k - 1)) mod 2 ^ 32 = (14254916 - 39000 * (k - 1) + 2 ^ 32) mod 2 ^ 32"
    by (rule mod_add_self2 [symmetric])
  also have "\<dots> = 14254916 - 39000 * (k - 1) + 2 ^ 32"
    using assms by (intro mod_pos_pos_trivial) simp_all
  finally show ?thesis by simp
qed

text \<open>
  Up to epoch 366 the 32-bit computation is the schedule. (The numerator alone is already
  negative from epoch 360, but adding half the denominator brings the sum back in range.)
\<close>

lemma cid_exact:
  assumes "1 \<le> unat e" "unat e \<le> 366"
  shows "uint (cidEmissionBps e) = cid_schedule (unat e)"
proof -
  have e0: "e \<noteq> 0" using assms(1) by auto
  have k: "1 \<le> int (unat e)" "int (unat e) \<le> 366" using assms by linarith+
  show ?thesis
    unfolding uint_cidEmissionBps [OF e0] uint_int_unat [of e] cid_arg_small [OF k] cid_schedule_def ..
qed

text \<open>From epoch 367 the subtraction wraps and the rate jumps.\<close>

lemma cid_wrapped:
  assumes "367 \<le> unat e" "unat e \<le> 110000"
  shows "uint (cidEmissionBps e)
         = max 3 ((2 ^ 32 + 14254916 - 39000 * (int (unat e) - 1)) div 562432)"
proof -
  have e0: "e \<noteq> 0" using assms(1) by auto
  have k: "367 \<le> int (unat e)" "int (unat e) \<le> 110000" using assms by linarith+
  show ?thesis
    unfolding uint_cidEmissionBps [OF e0] uint_int_unat [of e] cid_arg_wrapped [OF k] ..
qed

lemma cid_schedule_antimono: "m \<le> n \<Longrightarrow> cid_schedule n \<le> cid_schedule m"
  unfolding cid_schedule_def
  by (intro max.mono zdiv_mono1) auto

lemma cid_schedule_bounds: "1 \<le> e \<Longrightarrow> 3 \<le> cid_schedule e \<and> cid_schedule e \<le> 25"
  using cid_schedule_antimono [of 1 e] by (simp add: cid_schedule_def)

text \<open>
  Whatever the epoch, the rate stays below the denominator, so the pool computation never
  commits more than the treasury holds.
\<close>

lemma cidEmissionBps_le_denom: "cidEmissionBps e \<le> kBPS_DENOM"
proof -
  have "uint (cidEmissionBps e') \<le> 10000" if "e' \<noteq> 0" for e'
  proof -
    have "(14254916 - 39000 * (uint e' - 1)) mod 2 ^ 32 \<le> (2 ^ 32 - 1 :: int)"
      using pos_mod_bound [of "2 ^ 32"] by (simp add: zle_diff1_eq)
    then have "(14254916 - 39000 * (uint e' - 1)) mod 2 ^ 32 div 562432 \<le> (2 ^ 32 - 1 :: int) div 562432"
      by (rule zdiv_mono1) simp
    then show ?thesis using that by (simp add: uint_cidEmissionBps)
  qed
  moreover have "cidEmissionBps 0 = cidEmissionBps 1" by (simp add: cidEmissionBps_def)
  ultimately have "uint (cidEmissionBps e) \<le> 10000" by (cases "e = 0") auto
  then show ?thesis by (simp add: kBPS_DENOM_def word_le_def)
qed

subsection \<open>The split\<close>

lemma unat_poplLp: "unat (poplLpParticipationBps n) = min (unat n) 25 * 100"
proof (cases "n = 0")
  case False
  have "unat (min n 25 * 100) = min (unat n) 25 * 100"
    by (subst unat_mult_lem [THEN iffD1]) (simp_all add: unat_min)
  then show ?thesis using False
    by (simp add: poplLpParticipationBps_def qxrp_const Let_def unat_min)
qed (simp add: poplLpParticipationBps_def)

lemma poplAmm_eq_poplLp: "poplAmmLpParticipationBps n = poplLpParticipationBps n"
  by (simp add: poplAmmLpParticipationBps_def poplLpParticipationBps_def qxrp_const)

lemmas unat_poplAmm = unat_poplLp [folded poplAmm_eq_poplLp]

lemma unat_poplUsed:
  "unat (poplLpParticipationBps v + poplAmmLpParticipationBps a)
   = min (unat v) 25 * 100 + min (unat a) 25 * 100"
  by (subst unat_add_lem [THEN iffD1]) (simp_all add: unat_poplLp unat_poplAmm min_def)

lemma poplUsed_le: "unat (poplLpParticipationBps v + poplAmmLpParticipationBps a) \<le> 5000"
  by (simp add: unat_poplUsed min_def)

lemma unat_poplValidator:
  "unat (poplValidatorParticipationBps v a)
   = 10000 - (min (unat v) 25 * 100 + min (unat a) 25 * 100)"
proof -
  let ?u = "poplLpParticipationBps v + poplAmmLpParticipationBps a"
  have le: "?u \<le> 10000" and nge: "\<not> 10000 \<le> ?u"
    using poplUsed_le [of v a] by (simp_all add: word_le_nat_alt)
  have "unat (10000 - ?u) = unat (10000 :: u32) - unat ?u" using le by (rule unat_sub)
  then show ?thesis using nge
    by (simp add: poplValidatorParticipationBps_def kBPS_DENOM_def Let_def unat_poplUsed)
qed

end
