(* ===== verification/Rewards.thy ===== *)
theory Rewards
  imports Directory NodeKeys PoPLEmission
begin

section \<open>Reward claims\<close>

text \<open>
  The three transactors that draw on an epoch's emission: \<^verbatim>\<open>ClaimReward\<close> (validators),
  \<^verbatim>\<open>ClaimLPReward\<close> (holders of vault shares) and \<^verbatim>\<open>ClaimAmmLpReward\<close> (holders of AMM LP tokens). Each
  computes a pro-rata share of its part of the emission, caps it with what is left of the epoch's
  pool, pays it from the treasury, and records the epoch so that it cannot be claimed twice.
\<close>

subsection \<open>The payment\<close>

text \<open>
  The payment that ends each of the three \<open>doApply\<close>: treasury to claimant, and the pool reduced. The
  claimant's account is read after the treasury's was written, as the two may be the same.
\<close>

definition claim_payment :: "env \<Rightarrow> tx \<Rightarrow> reward_epoch \<Rightarrow> drops \<Rightarrow> view \<Rightarrow> ter \<times> view" where
  "claim_payment e t sleEpoch pay v =
     (case read_account v (e_TreasuryAccountID e) of
        None \<Rightarrow> (tefINTERNAL, v)
      | Some sleTreasury \<Rightarrow>
          if acc_Balance sleTreasury < pay then (tecUNFUNDED, v)
          else let v1 = put_account v (e_TreasuryAccountID e)
                     (sleTreasury\<lparr>acc_Balance := acc_Balance sleTreasury - pay\<rparr>)
               in case read_account v1 (tx_Account t) of
                    None \<Rightarrow> (tefINTERNAL, v1)
                  | Some sleAccount \<Rightarrow>
                      let v2 = put_account v1 (tx_Account t)
                            (sleAccount\<lparr>acc_Balance := acc_Balance sleAccount + pay\<rparr>);
                          v3 = put_epoch v2
                            (sleEpoch\<lparr>ep_EpochPoolBalance := ep_EpochPoolBalance sleEpoch - pay,
                               ep_PreviousTxnID := tx_ID t, ep_PreviousTxnLgrSeq := v_seq v\<rparr>)
                      in (tesSUCCESS, v3))"

subsection \<open>ClaimReward\<close>

definition ClaimReward_preflight :: "env \<Rightarrow> blob \<Rightarrow> ter" where
  "ClaimReward_preflight e ckBlob =
     (if \<not> e_featureProofOfParticipation e then temDISABLED
      else if \<not> isValidNodeKey ckBlob then temINVALID_FLAG
      else tesSUCCESS)"

definition ClaimReward_preclaim :: "env \<Rightarrow> tx \<Rightarrow> blob \<Rightarrow> view \<Rightarrow> ter" where
  "ClaimReward_preclaim e t ckBlob v =
     (case read_bond v (e_calcValidatorBondID e ckBlob) of
        None \<Rightarrow> tecNO_ENTRY
      | Some sleBond \<Rightarrow>
          if bond_Account sleBond \<noteq> tx_Account t then tecNO_PERMISSION
          else if bond_BondStatus sleBond \<noteq> kBOND_STATUS_BONDED then tecNO_PERMISSION
          else if getU (bond_CompositeScore sleBond) < kMIN_COMPOSITE_SCORE_BPS then tecINSUFF_FEE
          else if read_epoch v = None then tecNO_ENTRY
          else tesSUCCESS)"

definition validatorPoolDrops :: "reward_epoch \<Rightarrow> drops" where
  "validatorPoolDrops sleEpoch =
     (let usedBps = min kBPS_DENOM (getU (ep_LPAllocationBps sleEpoch) + getU (ep_AmmLPAllocationBps sleEpoch))
      in muldiv64 (ep_EmissionRate sleEpoch) (kBPS_DENOM - usedBps) kBPS_DENOM)"

definition ClaimReward_doApply :: "env \<Rightarrow> tx \<Rightarrow> blob \<Rightarrow> view \<Rightarrow> applied" where
  "ClaimReward_doApply e t ckBlob v =
     (let bondID = e_calcValidatorBondID e ckBlob in
      case read_bond v bondID of
        None \<Rightarrow> Inr (tefINTERNAL, v)
      | Some sleBond \<Rightarrow>
      (case read_epoch v of
         None \<Rightarrow> Inr (tefINTERNAL, v)
       | Some sleEpoch \<Rightarrow>
          let currentEpoch = ep_EpochNumber sleEpoch;
              aggregateScore = getU (ep_AggregateCompositeScore sleEpoch)
          in if currentEpoch \<le> getU (bond_LastClaimedEpoch sleBond) then Inr (tecDUPLICATE, v)
          else if aggregateScore = 0 then Inr (tecNO_PERMISSION, v)
          else let shareDrops = muldiv64 (validatorPoolDrops sleEpoch)
                     (getU (bond_CompositeScore sleBond)) aggregateScore;
                   poolRemaining = ep_EpochPoolBalance sleEpoch
               in if shareDrops \<le> 0 then Inr (tesSUCCESS, v)
                  else if poolRemaining \<le> 0 then Inr (tecUNFUNDED, v)
                  else (case claim_payment e t sleEpoch (min shareDrops poolRemaining) v of
                          (r, v1) \<Rightarrow>
                            if r \<noteq> tesSUCCESS then Inr (r, v1)
                            else Inr (tesSUCCESS, put_bond v1 bondID
                              (sleBond\<lparr>bond_LastClaimedEpoch := Some currentEpoch,
                                 bond_PreviousTxnID := tx_ID t, bond_PreviousTxnLgrSeq := v_seq v1\<rparr>)))))"

subsection \<open>ClaimLPReward\<close>

definition liveAggregateVaultShareSupply :: "view \<Rightarrow> u64" where
  "liveAggregateVaultShareSupply v =
     fold (\<lambda>(k, s) total. case s of
        SVault shareMptID \<Rightarrow>
          (case read_issuance v shareMptID of Some outstanding \<Rightarrow> total + outstanding | None \<Rightarrow> total)
      | _ \<Rightarrow> total) (v_sles v) 0"

definition ClaimLPReward_preflight :: "env \<Rightarrow> key option \<Rightarrow> ter" where
  "ClaimLPReward_preflight e vaultID =
     (if \<not> e_featureProofOfParticipation e then temDISABLED
      else if vaultID = None then temMALFORMED
      else tesSUCCESS)"

definition ClaimLPReward_preclaim :: "tx \<Rightarrow> key \<Rightarrow> view \<Rightarrow> ter" where
  "ClaimLPReward_preclaim t vaultKey v =
     (case read_vault v vaultKey of
        None \<Rightarrow> tecNO_ENTRY
      | Some shareMptID \<Rightarrow>
      (case read_epoch v of
         None \<Rightarrow> tecNO_ENTRY
       | Some sleEpoch \<Rightarrow>
          if getU (ep_LPAllocationBps sleEpoch) = 0 then tecNO_PERMISSION
          else if getU (ep_AggregateLPShares sleEpoch) = 0 then tecNO_PERMISSION
          else if (case read_mptoken v shareMptID (tx_Account t) of
                     None \<Rightarrow> True | Some sleMpt \<Rightarrow> getU (mt_MPTAmount sleMpt) = 0)
          then tecNO_PERMISSION
          else if (case read_pop_lp v (tx_Account t) vaultKey of
                     None \<Rightarrow> False
                   | Some sleState \<Rightarrow> ep_EpochNumber sleEpoch \<le> getU (pl_LastClaimedEpoch sleState))
          then tecDUPLICATE
          else tesSUCCESS))"

text \<open>The record of the last claim of an account on a vault or an AMM.\<close>

definition mark_claimed :: "tx \<Rightarrow> key \<Rightarrow> u32 \<Rightarrow> view \<Rightarrow> applied" where
  "mark_claimed t vaultKey currentEpoch v =
     (case read_pop_lp v (tx_Account t) vaultKey of
        Some sleState \<Rightarrow>
          Inr (tesSUCCESS, put v (KPopLp (tx_Account t) vaultKey)
            (SPopLp (sleState\<lparr>pl_LastClaimedEpoch := Some currentEpoch,
               pl_PreviousTxnID := tx_ID t, pl_PreviousTxnLgrSeq := v_seq v\<rparr>)))
      | None \<Rightarrow>
          (case insert_sle v (KPopLp (tx_Account t) vaultKey)
             (SPopLp \<lparr>pl_Account = tx_Account t, pl_VaultID = vaultKey,
                pl_LastClaimedEpoch = Some currentEpoch, pl_PreviousTxnID = tx_ID t,
                pl_PreviousTxnLgrSeq = v_seq v\<rparr>) of
             Inl ex \<Rightarrow> Inl ex
           | Inr v' \<Rightarrow> Inr (tesSUCCESS, v')))"

text \<open>Drops as an unsigned 64-bit value, negative amounts as zero.\<close>

definition unsigned_drops :: "drops \<Rightarrow> u64" where
  "unsigned_drops d = word_of_int (max 0 d)"

definition lp_share :: "reward_epoch \<Rightarrow> u64 \<Rightarrow> u64 \<Rightarrow> u64" where
  "lp_share sleEpoch userShares denom =
     (let lpPoolDrops = muldivU64 (unsigned_drops (ep_EmissionRate sleEpoch))
            (ucast (getU (ep_LPAllocationBps sleEpoch))) (ucast kBPS_DENOM)
      in muldivU64 lpPoolDrops userShares denom)"

definition ClaimLPReward_doApply :: "env \<Rightarrow> tx \<Rightarrow> key \<Rightarrow> view \<Rightarrow> applied" where
  "ClaimLPReward_doApply e t vaultKey v =
     (case read_vault v vaultKey of
        None \<Rightarrow> Inr (tefINTERNAL, v)
      | Some shareMptID \<Rightarrow>
      (case read_epoch v of
         None \<Rightarrow> Inr (tefINTERNAL, v)
       | Some sleEpoch \<Rightarrow>
          let currentEpoch = ep_EpochNumber sleEpoch;
              snapshotLPShares = getU (ep_AggregateLPShares sleEpoch)
          in if getU (ep_LPAllocationBps sleEpoch) = 0 \<or> snapshotLPShares = 0 then Inr (tecNO_PERMISSION, v)
          else (case read_mptoken v shareMptID (tx_Account t) of
             None \<Rightarrow> Inr (tefINTERNAL, v)
           | Some sleMpt \<Rightarrow>
               let userShares = getU (mt_MPTAmount sleMpt) in
               if userShares = 0 then Inr (tecNO_PERMISSION, v)
               else let denom = max snapshotLPShares (liveAggregateVaultShareSupply v) in
               if denom = 0 then Inr (tecNO_PERMISSION, v)
               else let shareDrops = lp_share sleEpoch userShares denom;
                        poolRemaining = unsigned_drops (ep_EpochPoolBalance sleEpoch)
               in if shareDrops = 0 then Inr (tesSUCCESS, v)
                  else if poolRemaining = 0 then Inr (tecUNFUNDED, v)
                  else (case claim_payment e t sleEpoch (s64 (uint (min shareDrops poolRemaining))) v of
                          (r, v1) \<Rightarrow>
                            if r \<noteq> tesSUCCESS then Inr (r, v1)
                            else mark_claimed t vaultKey currentEpoch v1))))"

subsection \<open>ClaimAmmLpReward\<close>

definition lsfGlobalFreeze :: u32 where "lsfGlobalFreeze = 0x00400000"
definition lsfLowFreeze :: u32 where "lsfLowFreeze = 0x00400000"
definition lsfHighFreeze :: u32 where "lsfHighFreeze = 0x00800000"

definition isFlag :: "u32 \<Rightarrow> u32 \<Rightarrow> bool" where
  "isFlag flags f \<longleftrightarrow> and flags f = f"

definition isFrozen :: "view \<Rightarrow> account \<Rightarrow> currency \<Rightarrow> account \<Rightarrow> bool" where
  "isFrozen v account currency issuer =
     (if currency = 0 then False
      else if (case read_account v issuer of
                 None \<Rightarrow> False | Some sle \<Rightarrow> isFlag (acc_Flags sle) lsfGlobalFreeze)
      then True
      else if issuer \<noteq> account
      then (case read_line v (keylet_line account issuer currency) of
              None \<Rightarrow> False
            | Some sle \<Rightarrow> isFlag (rs_Flags sle) (if issuer > account then lsfHighFreeze else lsfLowFreeze))
      else False)"

fun set_issuer :: "account \<Rightarrow> stamount \<Rightarrow> stamount" where
  "set_issuer a (IOU c i neg m ex) = IOU c a neg m ex"
| "set_issuer a (Native d) = Native d"

definition ammLPHolds :: "env \<Rightarrow> view \<Rightarrow> amm_entry \<Rightarrow> account \<Rightarrow> stamount" where
  "ammLPHolds e v ammSle lpAccount =
     (let ammAccount = amm_Account ammSle;
          currency = e_ammLPTCurrency e (amm_Asset ammSle) (amm_Asset2 ammSle)
      in case read_line v (keylet_line lpAccount ammAccount currency) of
           None \<Rightarrow> IOU currency ammAccount False 0 0
         | Some sle \<Rightarrow>
             if isFrozen v lpAccount currency ammAccount then IOU currency ammAccount False 0 0
             else set_issuer ammAccount
               (if lpAccount > ammAccount then negate (rs_Balance sle) else rs_Balance sle))"

definition nativeAmmTvlDrops :: "view \<Rightarrow> amm_entry \<Rightarrow> u64" where
  "nativeAmmTvlDrops v ammSle =
     (let m = mantissa (amm_LPTokenBalance ammSle);
          fallback = (if m > 0 then m else 1)
      in case read_account v (amm_Account ammSle) of
           Some sleAmmAcct \<Rightarrow>
             if acc_Balance sleAmmAcct > 0 then word_of_int (acc_Balance sleAmmAcct) else fallback
         | None \<Rightarrow> fallback)"

definition positiveMantissa :: "stamount \<Rightarrow> u64" where
  "positiveMantissa amt = (if signum amt \<le> 0 then 0 else if mantissa amt > 0 then mantissa amt else 0)"

definition liveAggregateNativeAmmTvl :: "view \<Rightarrow> u64" where
  "liveAggregateNativeAmmTvl v =
     fold (\<lambda>(k, s) tvl. case s of
        SAmm amm \<Rightarrow>
          if \<not> asset_native (amm_Asset amm) \<and> \<not> asset_native (amm_Asset2 amm) then tvl
          else tvl + nativeAmmTvlDrops v amm
      | _ \<Rightarrow> tvl) (v_sles v) 0"

definition ClaimAmmLpReward_preflight :: "env \<Rightarrow> asset option \<Rightarrow> asset option \<Rightarrow> ter" where
  "ClaimAmmLpReward_preflight e asset1 asset2 =
     (if \<not> e_featureProofOfParticipation e then temDISABLED
      else if asset1 = None \<or> asset2 = None then temMALFORMED
      else if asset1 = asset2 then temBAD_AMM_TOKENS
      else tesSUCCESS)"

definition ClaimAmmLpReward_preclaim :: "env \<Rightarrow> tx \<Rightarrow> asset \<Rightarrow> asset \<Rightarrow> view \<Rightarrow> ter" where
  "ClaimAmmLpReward_preclaim e t asset1 asset2 v =
     (if \<not> asset_native asset1 \<and> \<not> asset_native asset2 then tecNO_PERMISSION
      else case read_amm v (keylet_amm asset1 asset2) of
        None \<Rightarrow> tecNO_ENTRY
      | Some ammSle \<Rightarrow>
      (case read_epoch v of
         None \<Rightarrow> tecNO_ENTRY
       | Some sleEpoch \<Rightarrow>
          if getU (ep_AmmLPAllocationBps sleEpoch) = 0 then tecNO_PERMISSION
          else if getU (ep_AggregateAmmTvlDrops sleEpoch) = 0 then tecNO_PERMISSION
          else if signum (ammLPHolds e v ammSle (tx_Account t)) \<le> 0 then tecNO_PERMISSION
          else if signum (amm_LPTokenBalance ammSle) \<le> 0 then tecNO_PERMISSION
          else if (case read_pop_lp v (tx_Account t) (keylet_amm asset1 asset2) of
                     None \<Rightarrow> False
                   | Some sleState \<Rightarrow> ep_EpochNumber sleEpoch \<le> getU (pl_LastClaimedEpoch sleState))
          then tecDUPLICATE
          else tesSUCCESS))"

definition amm_share :: "reward_epoch \<Rightarrow> u64 \<Rightarrow> u64 \<Rightarrow> u64 \<Rightarrow> u64 \<Rightarrow> u64" where
  "amm_share sleEpoch poolTvl tvlDenom userMant totalMant =
     (let ammBasket = muldivU64 (unsigned_drops (ep_EmissionRate sleEpoch))
            (ucast (getU (ep_AmmLPAllocationBps sleEpoch))) (ucast kBPS_DENOM);
          poolBasket = muldivU64 ammBasket poolTvl tvlDenom
      in muldivU64 poolBasket userMant totalMant)"

definition ClaimAmmLpReward_doApply :: "env \<Rightarrow> tx \<Rightarrow> asset \<Rightarrow> asset \<Rightarrow> view \<Rightarrow> applied" where
  "ClaimAmmLpReward_doApply e t asset1 asset2 v =
     (case read_amm v (keylet_amm asset1 asset2) of
        None \<Rightarrow> Inr (tefINTERNAL, v)
      | Some ammSle \<Rightarrow>
      (case read_epoch v of
         None \<Rightarrow> Inr (tefINTERNAL, v)
       | Some sleEpoch \<Rightarrow>
          let currentEpoch = ep_EpochNumber sleEpoch;
              aggregateAmmTvl = getU (ep_AggregateAmmTvlDrops sleEpoch)
          in if getU (ep_AmmLPAllocationBps sleEpoch) = 0 \<or> aggregateAmmTvl = 0 then Inr (tecNO_PERMISSION, v)
          else let userMant = positiveMantissa (ammLPHolds e v ammSle (tx_Account t));
                   totalMant = positiveMantissa (amm_LPTokenBalance ammSle)
          in if userMant = 0 \<or> totalMant = 0 then Inr (tecNO_PERMISSION, v)
          else let poolTvl = nativeAmmTvlDrops v ammSle;
                   tvlDenom = max aggregateAmmTvl (liveAggregateNativeAmmTvl v)
          in if tvlDenom = 0 \<or> poolTvl = 0 then Inr (tecNO_PERMISSION, v)
          else let shareDrops = amm_share sleEpoch poolTvl tvlDenom userMant totalMant;
                   poolRemaining = unsigned_drops (ep_EpochPoolBalance sleEpoch)
          in if shareDrops = 0 then Inr (tesSUCCESS, v)
             else if poolRemaining = 0 then Inr (tecUNFUNDED, v)
             else (case claim_payment e t sleEpoch (s64 (uint (min shareDrops poolRemaining))) v of
                     (r, v1) \<Rightarrow>
                       if r \<noteq> tesSUCCESS then Inr (r, v1)
                       else mark_claimed t (keylet_amm asset1 asset2) currentEpoch v1)))"

subsection \<open>The payment conserves the supply\<close>

lemma claim_payment_successE:
  assumes "claim_payment e t ep pay v = (tesSUCCESS, v')"
  obtains tr acct where "read_account v (e_TreasuryAccountID e) = Some tr" "pay \<le> acc_Balance tr"
    "read_account (put v (KAccount (e_TreasuryAccountID e)) (SAccount (tr\<lparr>acc_Balance := acc_Balance tr - pay\<rparr>)))
       (tx_Account t) = Some acct"
    "v' = put (put (put v (KAccount (e_TreasuryAccountID e)) (SAccount (tr\<lparr>acc_Balance := acc_Balance tr - pay\<rparr>)))
        (KAccount (tx_Account t)) (SAccount (acct\<lparr>acc_Balance := acc_Balance acct + pay\<rparr>)))
        KRewardEpoch (SEpoch (ep\<lparr>ep_EpochPoolBalance := ep_EpochPoolBalance ep - pay,
          ep_PreviousTxnID := tx_ID t, ep_PreviousTxnLgrSeq := v_seq v\<rparr>))"
  using assms
  by (auto simp: claim_payment_def Let_def put_defs split: option.splits if_splits)

lemma claim_payment_conserves:
  assumes "claim_payment e t ep pay v = (tesSUCCESS, v')" "sound_view v" "0 \<le> pay" "read_epoch v = Some ep"
  shows "conserves v v'"
  using assms(1)
proof (cases rule: claim_payment_successE)
  case (1 tr acct)
  let ?k = "KAccount (e_TreasuryAccountID e)" and ?a = "KAccount (tx_Account t)"
  let ?v1 = "put v ?k (SAccount (tr\<lparr>acc_Balance := acc_Balance tr - pay\<rparr>))"
  let ?v2 = "put ?v1 ?a (SAccount (acct\<lparr>acc_Balance := acc_Balance acct + pay\<rparr>))"
  have f: "find_sle v ?k = Some (SAccount tr)" using 1(1) by (rule read_SomeD)
  have g: "find_sle ?v1 ?a = Some (SAccount acct)" using 1(3) by (rule read_SomeD)
  have ep: "find_sle v KRewardEpoch = Some (SEpoch ep)" using assms(4) by (rule read_SomeD)
  have s1: "sound_view ?v1" "supply_gap ?v1 = supply_gap v - pay"
    using assms(2) f 1(2) by (auto simp: sound_view_def supply_gap_def held_put intro!: solvent_put)
  have "0 \<le> acc_Balance acct" using solventD [OF _ g] s1(1) by (auto simp: sound_view_def)
  then have s2: "sound_view ?v2" "supply_gap ?v2 = supply_gap v"
    using s1 g assms(3) by (auto simp: sound_view_def supply_gap_def held_put intro!: solvent_put)
  have "conserves ?v2 v'" unfolding 1(4) using s2(1) ep by (intro conserves_same) auto
  with s2 show ?thesis by (simp add: conserves_def)
qed

text \<open>What a payment does to the epoch, the treasury and the claimant.\<close>

definition epoch_pool :: "view \<Rightarrow> drops" where
  "epoch_pool v = (case read_epoch v of None \<Rightarrow> 0 | Some ep \<Rightarrow> ep_EpochPoolBalance ep)"

definition treasury_drops :: "env \<Rightarrow> view \<Rightarrow> drops" where
  "treasury_drops e v =
     (case read_account v (e_TreasuryAccountID e) of None \<Rightarrow> 0 | Some a \<Rightarrow> acc_Balance a)"

lemma claim_payment_effect:
  assumes "claim_payment e t ep pay v = (tesSUCCESS, v')"
  shows "read_epoch v' = Some (ep\<lparr>ep_EpochPoolBalance := ep_EpochPoolBalance ep - pay,
           ep_PreviousTxnID := tx_ID t, ep_PreviousTxnLgrSeq := v_seq v\<rparr>)"
    and "treasury_drops e v' = treasury_drops e v - (if tx_Account t = e_TreasuryAccountID e then 0 else pay)"
    and "tx_Account t \<noteq> e_TreasuryAccountID e \<Longrightarrow>
         map_option acc_Balance (read_account v' (tx_Account t))
         = map_option (\<lambda>a. acc_Balance a + pay) (read_account v (tx_Account t))"
    and "read_bond v' i = read_bond v i" and "read_pop_lp v' x k = read_pop_lp v x k"
    and "find_sle v' (KPopLp x k) = find_sle v (KPopLp x k)"
  using assms by (auto simp: treasury_drops_def elim!: claim_payment_successE split: if_splits)

subsection \<open>What the three claims have in common\<close>

text \<open>
  A claim that succeeds either changes nothing (the share rounds to zero) or pays a positive
  amount within the pool and then writes one record that holds the same drops as before.
\<close>

definition claim_record :: "key \<Rightarrow> bool" where
  "claim_record k \<longleftrightarrow> (case k of KBond _ \<Rightarrow> True | KPopLp _ _ \<Rightarrow> True | _ \<Rightarrow> False)"

definition claim_effect :: "env \<Rightarrow> tx \<Rightarrow> view \<Rightarrow> view \<Rightarrow> bool" where
  "claim_effect e t v v' \<longleftrightarrow> v' = v \<or>
     (\<exists>ep pay v1 k s. read_epoch v = Some ep \<and> 0 < pay \<and> pay \<le> ep_EpochPoolBalance ep
        \<and> claim_payment e t ep pay v = (tesSUCCESS, v1) \<and> claim_record k
        \<and> opt_val sle_drops (find_sle v1 k) = sle_drops s \<and> v' = put v1 k s)"

lemma claim_effectI:
  "read_epoch v = Some ep \<Longrightarrow> 0 < pay \<Longrightarrow> pay \<le> ep_EpochPoolBalance ep \<Longrightarrow>
   claim_payment e t ep pay v = (tesSUCCESS, v1) \<Longrightarrow> claim_record k \<Longrightarrow>
   opt_val sle_drops (find_sle v1 k) = sle_drops s \<Longrightarrow> v' = put v1 k s \<Longrightarrow> claim_effect e t v v'"
  unfolding claim_effect_def by blast

definition epoch_ok :: "view \<Rightarrow> bool" where
  "epoch_ok v \<longleftrightarrow> (case read_epoch v of None \<Rightarrow> True
     | Some ep \<Rightarrow> 0 \<le> ep_EpochPoolBalance ep \<and> ep_EpochPoolBalance ep \<le> ep_EmissionRate ep
         \<and> ep_EmissionRate ep < 2 ^ 63)"

lemma ClaimReward_effect:
  assumes "ClaimReward_doApply e t ck v = Inr (tesSUCCESS, v')"
  shows "claim_effect e t v v'"
proof -
  let ?id = "e_calcValidatorBondID e ck"
  obtain b ep where b: "read_bond v ?id = Some b" and ep: "read_epoch v = Some ep"
    using assms by (auto simp: ClaimReward_doApply_def Let_def split: option.splits)
  show ?thesis
  proof (cases "v' = v")
    case False
    define pay where "pay = min (muldiv64 (validatorPoolDrops ep) (getU (bond_CompositeScore b))
        (getU (ep_AggregateCompositeScore ep))) (ep_EpochPoolBalance ep)"
    obtain v1 where p: "claim_payment e t ep pay v = (tesSUCCESS, v1)" "0 < pay"
      and v': "v' = put v1 (KBond ?id) (SBond (b\<lparr>bond_LastClaimedEpoch := Some (ep_EpochNumber ep),
                 bond_PreviousTxnID := tx_ID t, bond_PreviousTxnLgrSeq := v_seq v1\<rparr>))"
      using assms b ep False
      by (auto simp: ClaimReward_doApply_def Let_def put_defs pay_def [symmetric] split: if_splits prod.splits)
        (auto simp: pay_def)
    have "read_bond v1 ?id = Some b" using claim_payment_effect(4) [OF p(1)] b by simp
    then have "find_sle v1 (KBond ?id) = Some (SBond b)" by (rule read_SomeD)
    moreover have "pay \<le> ep_EpochPoolBalance ep" by (simp add: pay_def)
    ultimately show ?thesis
      by (intro claim_effectI [OF ep p(2) _ p(1) _ _ v']) (simp_all add: claim_record_def)
  qed (simp add: claim_effect_def)
qed

lemma mark_claimed_effect:
  assumes "mark_claimed t k n v1 = Inr (tesSUCCESS, v')"
  shows "\<exists>s. v' = put v1 (KPopLp (tx_Account t) k) (SPopLp s) \<and> pl_LastClaimedEpoch s = Some n
    \<and> opt_val sle_drops (find_sle v1 (KPopLp (tx_Account t) k)) = 0"
  using assms
  by (auto simp: mark_claimed_def split: option.splits sum.splits dest!: insert_sle_InrD read_SomeD)

text \<open>The unsigned arithmetic of the two liquidity claims, on a pool in the 64-bit range.\<close>

lemma uint_unsigned_drops: "0 \<le> d \<Longrightarrow> d < 2 ^ 63 \<Longrightarrow> uint (unsigned_drops d) = d"
  by (simp add: unsigned_drops_def uint_word_of_int)

lemma capped_share:
  assumes "share \<noteq> 0" "unsigned_drops pool \<noteq> 0" "0 \<le> pool" "pool < 2 ^ 63"
  shows "0 < s64 (uint (min share (unsigned_drops pool))) \<and> s64 (uint (min share (unsigned_drops pool))) \<le> pool"
proof -
  have u: "uint (unsigned_drops pool) = pool" using assms by (simp add: uint_unsigned_drops)
  have "0 < uint share" "0 < pool"
    using uint_pos [OF assms(1)] uint_pos [OF assms(2)] u by simp_all
  moreover have "uint (min share (unsigned_drops pool)) = min (uint share) pool"
    by (simp only: uint_min u)
  ultimately show ?thesis using assms by (simp add: s64_id)
qed

text \<open>A successful liquidity claim pays and then marks the epoch.\<close>

lemma lp_tail_effect:
  assumes "(case claim_payment e t ep (s64 (uint (min share (unsigned_drops (ep_EpochPoolBalance ep))))) v of
      (r, v1) \<Rightarrow> if r \<noteq> tesSUCCESS then Inr (r, v1) else mark_claimed t k n v1) = Inr (tesSUCCESS, v')"
    and "share \<noteq> 0" "unsigned_drops (ep_EpochPoolBalance ep) \<noteq> 0" "read_epoch v = Some ep" "epoch_ok v"
  shows "claim_effect e t v v'
    \<and> (\<exists>s. read_pop_lp v' (tx_Account t) k = Some s \<and> pl_LastClaimedEpoch s = Some n)"
proof -
  define pay where "pay = s64 (uint (min share (unsigned_drops (ep_EpochPoolBalance ep))))"
  from assms(1) obtain v1 where p: "claim_payment e t ep pay v = (tesSUCCESS, v1)"
    and m: "mark_claimed t k n v1 = Inr (tesSUCCESS, v')"
    by (auto simp: pay_def [symmetric] split: prod.splits if_splits)
  have "0 < pay" "pay \<le> ep_EpochPoolBalance ep"
    using capped_share [OF assms(2,3)] assms(4,5) by (auto simp: pay_def epoch_ok_def)
  moreover from mark_claimed_effect [OF m] obtain s where
    "v' = put v1 (KPopLp (tx_Account t) k) (SPopLp s)" "pl_LastClaimedEpoch s = Some n"
    "opt_val sle_drops (find_sle v1 (KPopLp (tx_Account t) k)) = 0" by blast
  ultimately show ?thesis
    by (auto simp: claim_record_def intro!: claim_effectI [OF assms(4) _ _ p])
qed

lemma ClaimLPReward_effect:
  assumes "ClaimLPReward_doApply e t k v = Inr (tesSUCCESS, v')" "epoch_ok v"
  shows "claim_effect e t v v'
    \<and> (v' = v \<or> (\<exists>ep s. read_epoch v = Some ep \<and> read_pop_lp v' (tx_Account t) k = Some s
                     \<and> pl_LastClaimedEpoch s = Some (ep_EpochNumber ep)))"
proof (cases "v' = v")
  case False
  then obtain ep where ep: "read_epoch v = Some ep"
    using assms(1) by (auto simp: ClaimLPReward_doApply_def Let_def split: option.splits)
  obtain share where "share \<noteq> 0" "unsigned_drops (ep_EpochPoolBalance ep) \<noteq> 0"
    "(case claim_payment e t ep (s64 (uint (min share (unsigned_drops (ep_EpochPoolBalance ep))))) v of
      (r, v1) \<Rightarrow> if r \<noteq> tesSUCCESS then Inr (r, v1) else mark_claimed t k (ep_EpochNumber ep) v1) = Inr (tesSUCCESS, v')"
    using assms(1) ep False
    by (auto simp: ClaimLPReward_doApply_def Let_def split: option.splits if_splits)
  from lp_tail_effect [OF this(3,1,2) ep assms(2)] ep show ?thesis by blast
qed (simp add: claim_effect_def)

lemma ClaimAmmLpReward_effect:
  assumes "ClaimAmmLpReward_doApply e t a1 a2 v = Inr (tesSUCCESS, v')" "epoch_ok v"
  shows "claim_effect e t v v'
    \<and> (v' = v \<or> (\<exists>ep s. read_epoch v = Some ep \<and> read_pop_lp v' (tx_Account t) (keylet_amm a1 a2) = Some s
                     \<and> pl_LastClaimedEpoch s = Some (ep_EpochNumber ep)))"
proof (cases "v' = v")
  case False
  then obtain ep where ep: "read_epoch v = Some ep"
    using assms(1) by (auto simp: ClaimAmmLpReward_doApply_def Let_def split: option.splits)
  obtain share where "share \<noteq> 0" "unsigned_drops (ep_EpochPoolBalance ep) \<noteq> 0"
    "(case claim_payment e t ep (s64 (uint (min share (unsigned_drops (ep_EpochPoolBalance ep))))) v of
      (r, v1) \<Rightarrow> if r \<noteq> tesSUCCESS then Inr (r, v1) else mark_claimed t (keylet_amm a1 a2) (ep_EpochNumber ep) v1)
     = Inr (tesSUCCESS, v')"
    using assms(1) ep False
    by (auto simp: ClaimAmmLpReward_doApply_def Let_def split: option.splits if_splits)
  from lp_tail_effect [OF this(3,1,2) ep assms(2)] ep show ?thesis by blast
qed (simp add: claim_effect_def)

lemma claim_effect_conserves: "claim_effect e t v v' \<Longrightarrow> sound_view v \<Longrightarrow> conserves v v'"
proof -
  assume c: "claim_effect e t v v'" and s: "sound_view v"
  show ?thesis
  proof (cases "v' = v")
    case False
    with c obtain ep pay v1 k x where h: "read_epoch v = Some ep" "0 < pay"
      "claim_payment e t ep pay v = (tesSUCCESS, v1)"
      "opt_val sle_drops (find_sle v1 k) = sle_drops x" "v' = put v1 k x"
      by (auto simp: claim_effect_def)
    have v1: "conserves v v1" using h(1,2,3) s by (intro claim_payment_conserves) auto
    have "0 \<le> sle_drops x"
      using v1 h(4) by (cases "find_sle v1 k") (auto simp: conserves_def sound_view_def dest: solventD)
    moreover have "sound_view v1" using v1 by (simp add: conserves_def)
    ultimately have "conserves v1 v'" unfolding h(5) using h(4) by (intro conserves_same) simp_all
    with v1 show ?thesis by (rule conserves_trans)
  qed (simp add: conserves_refl s)
qed

text \<open>
  The pool never grows and never goes below zero, the emission stays what it was, and what the
  treasury loses the pool loses too (a claim by the treasury itself only shrinks the pool).
\<close>

definition pool_step :: "env \<Rightarrow> view \<Rightarrow> view \<Rightarrow> bool" where
  "pool_step e v v' \<longleftrightarrow> epoch_pool v' \<le> epoch_pool v
     \<and> treasury_drops e v - treasury_drops e v' \<le> epoch_pool v - epoch_pool v'
     \<and> map_option (\<lambda>ep. (ep_EpochNumber ep, ep_EmissionRate ep)) (read_epoch v')
       = map_option (\<lambda>ep. (ep_EpochNumber ep, ep_EmissionRate ep)) (read_epoch v)"

lemma claim_record_reads:
  assumes "claim_record k"
  shows "read_epoch (put v k x) = read_epoch v" "treasury_drops e (put v k x) = treasury_drops e v"
    "epoch_pool (put v k x) = epoch_pool v"
  using assms by (auto simp: claim_record_def treasury_drops_def epoch_pool_def split: key.splits)

lemma claim_effect_pool:
  assumes "claim_effect e t v v'" "epoch_ok v"
  shows "epoch_ok v' \<and> pool_step e v v'"
proof (cases "v' = v")
  case False
  with assms(1) obtain ep pay v1 k x where h: "read_epoch v = Some ep" "0 < pay" "pay \<le> ep_EpochPoolBalance ep"
    "claim_payment e t ep pay v = (tesSUCCESS, v1)" "claim_record k" "v' = put v1 k x"
    by (auto simp: claim_effect_def)
  have "read_epoch v' = read_epoch v1" "treasury_drops e v' = treasury_drops e v1"
    by (simp_all only: h(6) claim_record_reads [OF h(5)])
  with h(1-3) claim_payment_effect(1,2) [OF h(4)] assms(2) show ?thesis
    by (auto simp: epoch_ok_def pool_step_def epoch_pool_def)
qed (use assms in \<open>simp add: pool_step_def\<close>)

text \<open>
  Any sequence of claims, successful or not, by any accounts: the treasury never pays out more
  than the pool had at the start.
\<close>

datatype claim_op = CReward tx blob | CLpReward tx key | CAmmReward tx asset asset

fun claim_apply :: "env \<Rightarrow> claim_op \<Rightarrow> view \<Rightarrow> applied" where
  "claim_apply e (CReward t ck) v = ClaimReward_doApply e t ck v"
| "claim_apply e (CLpReward t k) v = ClaimLPReward_doApply e t k v"
| "claim_apply e (CAmmReward t a1 a2) v = ClaimAmmLpReward_doApply e t a1 a2 v"

text \<open>The framework keeps a transactor's changes only when it returns \<open>tesSUCCESS\<close>.\<close>

definition claim_step :: "env \<Rightarrow> claim_op \<Rightarrow> view \<Rightarrow> view" where
  "claim_step e c v = (case claim_apply e c v of Inr (tesSUCCESS, v') \<Rightarrow> v' | _ \<Rightarrow> v)"

lemma claim_apply_effect:
  "claim_apply e c v = Inr (tesSUCCESS, v') \<Longrightarrow> epoch_ok v \<Longrightarrow> \<exists>t. claim_effect e t v v'"
  by (cases c) (auto dest: ClaimReward_effect ClaimLPReward_effect ClaimAmmLpReward_effect)

lemma claim_step_effect: "epoch_ok v \<Longrightarrow> \<exists>t. claim_effect e t v (claim_step e c v)"
  using claim_apply_effect [of e c v]
  by (auto simp: claim_step_def claim_effect_def split: sum.splits ter.splits)

interpretation cl: step_system "claim_step e" "\<lambda>v. sound_view v \<and> epoch_ok v"
    "\<lambda>v v'. pool_step e v v' \<and> supply_gap v' = supply_gap v" for e
proof (unfold_locales, goal_cases)
  case (1 v c)
  then obtain t where c: "claim_effect e t v (claim_step e c v)" using claim_step_effect by blast
  from 1 claim_effect_pool [OF c] claim_effect_conserves [OF c] show ?case by (auto simp: conserves_def)
next
  case (2 v)
  then show ?case by (simp add: pool_step_def)
next
  case (3 s s' s'')
  then show ?case by (auto simp: pool_step_def)
qed

lemma claims_bounded_by_pool:
  assumes "sound_view v" "epoch_ok v"
  shows "treasury_drops e v - treasury_drops e (fold (claim_step e) cs v) \<le> epoch_pool v
    \<and> supply_gap (fold (claim_step e) cs v) = supply_gap v"
proof -
  let ?w = "fold (claim_step e) cs v"
  from cl.run_law [of v e cs] assms have "epoch_ok ?w" "pool_step e v ?w" "supply_gap ?w = supply_gap v" by auto
  moreover from this(1) have "0 \<le> epoch_pool ?w" by (auto simp: epoch_ok_def epoch_pool_def split: option.splits)
  ultimately show ?thesis by (auto simp: pool_step_def)
qed

subsection \<open>At most one claim per epoch\<close>

lemma ClaimReward_once:
  assumes "ClaimReward_doApply e t ck v = Inr (tesSUCCESS, v')" "v' \<noteq> v"
  shows "ClaimReward_doApply e t' ck v' = Inr (tecDUPLICATE, v')"
proof -
  let ?id = "e_calcValidatorBondID e ck"
  from assms obtain b ep pay v1 where p: "claim_payment e t ep pay v = (tesSUCCESS, v1)"
    and v': "v' = put_bond v1 ?id (b\<lparr>bond_LastClaimedEpoch := Some (ep_EpochNumber ep),
                 bond_PreviousTxnID := tx_ID t, bond_PreviousTxnLgrSeq := v_seq v1\<rparr>)"
    by (auto simp: ClaimReward_doApply_def Let_def split: option.splits if_splits prod.splits)
  have "read_epoch v1 = Some (ep\<lparr>ep_EpochPoolBalance := ep_EpochPoolBalance ep - pay,
           ep_PreviousTxnID := tx_ID t, ep_PreviousTxnLgrSeq := v_seq v\<rparr>)"
    by (rule claim_payment_effect(1) [OF p])
  then show ?thesis by (simp add: ClaimReward_doApply_def v' put_defs Let_def)
qed

lemma ClaimLPReward_once:
  assumes "ClaimLPReward_doApply e t k v = Inr (tesSUCCESS, v')" "v' \<noteq> v" "epoch_ok v"
    and "tx_Account t' = tx_Account t"
  shows "ClaimLPReward_preclaim t' k v' \<noteq> tesSUCCESS"
proof -
  from ClaimLPReward_effect [OF assms(1,3)] assms(2) obtain ep s where
    c: "claim_effect e t v v'" and "read_epoch v = Some ep"
    and s: "read_pop_lp v' (tx_Account t) k = Some s" "pl_LastClaimedEpoch s = Some (ep_EpochNumber ep)"
    by blast
  with claim_effect_pool [OF c assms(3)] obtain ep' where
    "read_epoch v' = Some ep'" "ep_EpochNumber ep' = ep_EpochNumber ep"
    by (auto simp: pool_step_def)
  with s assms(4) show ?thesis by (auto simp: ClaimLPReward_preclaim_def split: option.splits)
qed

lemma ClaimAmmLpReward_once:
  assumes "ClaimAmmLpReward_doApply e t a1 a2 v = Inr (tesSUCCESS, v')" "v' \<noteq> v" "epoch_ok v"
    and "tx_Account t' = tx_Account t"
  shows "ClaimAmmLpReward_preclaim e t' a1 a2 v' \<noteq> tesSUCCESS"
proof -
  from ClaimAmmLpReward_effect [OF assms(1,3)] assms(2) obtain ep s where
    c: "claim_effect e t v v'" and "read_epoch v = Some ep"
    and s: "read_pop_lp v' (tx_Account t) (keylet_amm a1 a2) = Some s" "pl_LastClaimedEpoch s = Some (ep_EpochNumber ep)"
    by blast
  with claim_effect_pool [OF c assms(3)] obtain ep' where
    "read_epoch v' = Some ep'" "ep_EpochNumber ep' = ep_EpochNumber ep"
    by (auto simp: pool_step_def)
  with s assms(4) show ?thesis by (auto simp: ClaimAmmLpReward_preclaim_def split: option.splits)
qed

subsection \<open>Pro-rata shares fit their baskets\<close>

lemma uint_used_le: "uint (kBPS_DENOM - min kBPS_DENOM w) = 10000 - min 10000 (uint w)"
proof -
  have "min kBPS_DENOM w \<le> kBPS_DENOM" by simp
  then have "uint (kBPS_DENOM - min kBPS_DENOM w) = uint kBPS_DENOM - uint (min kBPS_DENOM w)"
    by (intro uint_sub_lem [THEN iffD1]) (simp only: word_le_def)
  also have "uint kBPS_DENOM = 10000" by (simp add: qxrp_const)
  finally show ?thesis by (simp add: uint_min qxrp_const)
qed

lemma validatorPoolDrops_exact:
  assumes "0 \<le> ep_EmissionRate ep" "ep_EmissionRate ep < 2 ^ 63"
  shows "validatorPoolDrops ep = ep_EmissionRate ep *
      (10000 - min 10000 (uint (getU (ep_LPAllocationBps ep) + getU (ep_AmmLPAllocationBps ep)))) div 10000"
    and "0 \<le> validatorPoolDrops ep" and "validatorPoolDrops ep \<le> ep_EmissionRate ep"
proof -
  let ?w = "getU (ep_LPAllocationBps ep) + getU (ep_AmmLPAllocationBps ep)"
  have le: "kBPS_DENOM - min kBPS_DENOM ?w \<le> kBPS_DENOM"
    by (simp add: word_le_def uint_used_le) (simp add: qxrp_const)
  note m = muldiv64_bps [OF assms le]
  have v: "validatorPoolDrops ep = muldiv64 (ep_EmissionRate ep) (kBPS_DENOM - min kBPS_DENOM ?w) kBPS_DENOM"
    by (simp only: validatorPoolDrops_def Let_def)
  show "validatorPoolDrops ep = ep_EmissionRate ep * (10000 - min 10000 (uint ?w)) div 10000"
    unfolding v m(1) uint_used_le ..
  show "0 \<le> validatorPoolDrops ep" "validatorPoolDrops ep \<le> ep_EmissionRate ep"
    unfolding v by (rule m(2), rule m(3))
qed

lemma validator_share_exact:
  assumes "0 \<le> p" "p < 2 ^ 63" "score \<le> agg" "0 < agg" "uint score \<le> 10000"
  shows "muldiv64 p score agg = p * uint score div uint agg"
proof (rule muldiv64_exact [OF assms(1-4)])
  have "uint score * uint agg \<le> 10000 * 2 ^ 32"
    using assms(5) uint32_lt [of agg] by (intro mult_mono) auto
  then show "uint score * uint agg \<le> 2 ^ 63" by simp
qed

text \<open>
  Validators whose scores add up to at most the recorded aggregate cannot together claim more
  than the validators' part of the emission.
\<close>

lemma validator_shares_fit:
  fixes score :: "'a \<Rightarrow> u32"
  assumes "0 \<le> ep_EmissionRate ep" "ep_EmissionRate ep < 2 ^ 63" "finite S" "0 < agg"
    and "\<And>x. x \<in> S \<Longrightarrow> uint (score x) \<le> 10000" and "(\<Sum>x\<in>S. uint (score x)) \<le> uint agg"
  shows "(\<Sum>x\<in>S. muldiv64 (validatorPoolDrops ep) (score x) agg) \<le> validatorPoolDrops ep"
proof -
  note v = validatorPoolDrops_exact(2,3) [OF assms(1,2)]
  have le: "score x \<le> agg" if "x \<in> S" for x
    using member_le_sum [OF that, of "\<lambda>x. uint (score x)"] assms(3,6) by (simp add: word_le_def)
  have "muldiv64 (validatorPoolDrops ep) (score x) agg = validatorPoolDrops ep * uint (score x) div uint agg"
    if "x \<in> S" for x
    using v assms(2,4) le [OF that] assms(5) [OF that] by (intro validator_share_exact) auto
  then have "(\<Sum>x\<in>S. muldiv64 (validatorPoolDrops ep) (score x) agg)
      = (\<Sum>x\<in>S. validatorPoolDrops ep * uint (score x) div uint agg)" by simp
  also have "\<dots> \<le> validatorPoolDrops ep"
    using v assms by (intro sum_floor_div_le) (auto simp: word_less_def)
  finally show ?thesis .
qed

definition lp_basket :: "reward_epoch \<Rightarrow> u64" where
  "lp_basket ep = muldivU64 (unsigned_drops (ep_EmissionRate ep))
     (ucast (getU (ep_LPAllocationBps ep))) (ucast kBPS_DENOM)"

definition amm_basket :: "reward_epoch \<Rightarrow> u64" where
  "amm_basket ep = muldivU64 (unsigned_drops (ep_EmissionRate ep))
     (ucast (getU (ep_AmmLPAllocationBps ep))) (ucast kBPS_DENOM)"

lemma lp_shares_fit:
  fixes shares :: "'a \<Rightarrow> u64"
  assumes "finite S" "0 < denom" "(\<Sum>x\<in>S. uint (shares x)) \<le> uint denom"
  shows "(\<Sum>x\<in>S. uint (lp_share ep (shares x) denom)) \<le> uint (lp_basket ep)"
proof -
  have le: "shares x \<le> denom" if "x \<in> S" for x
    using member_le_sum [OF that, of "\<lambda>x. uint (shares x)"] assms by (simp add: word_le_def)
  have "uint (lp_share ep (shares x) denom) = uint (lp_basket ep) * uint (shares x) div uint denom"
    if "x \<in> S" for x
  proof -
    have "unat (muldivU64 (lp_basket ep) (shares x) denom) = unat (lp_basket ep) * unat (shares x) div unat denom"
      using le [OF that] by (rule muldivU64_exact)
    then have "int (unat (muldivU64 (lp_basket ep) (shares x) denom))
        = int (unat (lp_basket ep)) * int (unat (shares x)) div int (unat denom)" by (simp add: zdiv_int)
    then show ?thesis by (simp add: lp_share_def lp_basket_def Let_def)
  qed
  then have "(\<Sum>x\<in>S. uint (lp_share ep (shares x) denom))
      = (\<Sum>x\<in>S. uint (lp_basket ep) * uint (shares x) div uint denom)" by simp
  also have "\<dots> \<le> uint (lp_basket ep)"
    using assms by (intro sum_floor_div_le) (auto simp: word_less_def)
  finally show ?thesis .
qed

text \<open>The three baskets together never exceed the emission.\<close>

lemma basket_exact:
  assumes "0 \<le> E" "E < 2 ^ 63" "uint (b :: u32) \<le> 10000"
  shows "uint (muldivU64 (unsigned_drops E) (ucast b) (ucast kBPS_DENOM)) = E * uint b div 10000"
proof -
  have u: "uint (unsigned_drops E) = E" using assms by (simp add: uint_unsigned_drops)
  have "uint b < 2 ^ 64" using uint32_lt [of b] by simp
  then have ub: "uint (ucast b :: u64) = uint b" by (simp add: unsigned_ucast_eq take_bit_int_eq_self)
  have d: "uint (ucast kBPS_DENOM :: u64) = 10000" by (simp add: qxrp_const)
  have "(ucast b :: u64) \<le> ucast kBPS_DENOM" using assms(3) ub d by (simp add: word_le_def)
  then have "unat (muldivU64 (unsigned_drops E) (ucast b) (ucast kBPS_DENOM))
      = unat (unsigned_drops E) * unat (ucast b :: u64) div unat (ucast kBPS_DENOM :: u64)"
    by (rule muldivU64_exact)
  then have "int (unat (muldivU64 (unsigned_drops E) (ucast b) (ucast kBPS_DENOM)))
      = int (unat (unsigned_drops E)) * int (unat (ucast b :: u64)) div int (unat (ucast kBPS_DENOM :: u64))"
    by (simp add: zdiv_int)
  then show ?thesis using u ub d by simp
qed

lemma split_floor3:
  fixes E l a :: int
  assumes "0 \<le> E" "0 \<le> l" "0 \<le> a" "l + a \<le> 10000"
  shows "E * (10000 - (l + a)) div 10000 + E * l div 10000 + E * a div 10000 \<le> E"
proof -
  have "10000 * (E * (10000 - (l + a)) div 10000 + E * l div 10000 + E * a div 10000)
      \<le> E * (10000 - (l + a)) + E * l + E * a"
    using mult_div_le_self [of 10000 "E * (10000 - (l + a))"] mult_div_le_self [of 10000 "E * l"]
      mult_div_le_self [of 10000 "E * a"] by (simp add: distrib_left)
  also have "\<dots> = 10000 * E" by (simp add: algebra_simps)
  finally show ?thesis by simp
qed

lemma baskets_fit:
  assumes "0 \<le> ep_EmissionRate ep" "ep_EmissionRate ep < 2 ^ 63"
    and "uint (getU (ep_LPAllocationBps ep)) + uint (getU (ep_AmmLPAllocationBps ep)) \<le> 10000"
  shows "validatorPoolDrops ep + uint (lp_basket ep) + uint (amm_basket ep) \<le> ep_EmissionRate ep"
proof -
  let ?l = "getU (ep_LPAllocationBps ep)" and ?a = "getU (ep_AmmLPAllocationBps ep)"
  have s: "uint (?l + ?a) = uint ?l + uint ?a"
    using assms(3) by (intro uint_plus_simple_iff [THEN iffD1]) (simp add: word_le_def uint_word_ariths)
  have "uint ?l \<le> 10000" "uint ?a \<le> 10000" using assms(3) uint_ge_0 [of ?l] uint_ge_0 [of ?a] by linarith+
  then have "uint (lp_basket ep) = ep_EmissionRate ep * uint ?l div 10000"
    "uint (amm_basket ep) = ep_EmissionRate ep * uint ?a div 10000"
    using assms(1,2) by (simp_all add: lp_basket_def amm_basket_def basket_exact)
  moreover have "validatorPoolDrops ep = ep_EmissionRate ep * (10000 - (uint ?l + uint ?a)) div 10000"
    using validatorPoolDrops_exact(1) [OF assms(1,2)] assms(3) s by simp
  ultimately show ?thesis using split_floor3 [of "ep_EmissionRate ep" "uint ?l" "uint ?a"] assms by simp
qed

text \<open>
  The AMM share weighs LP tokens by their mantissas alone. Two normalized amounts have mantissas
  of the same order whatever their values, so a holder of a vanishing fraction of the LP tokens
  can be assigned several times the basket of the whole pool.
\<close>

lemma positiveMantissa_exponent: "positiveMantissa (IOU c i False m ex) = positiveMantissa (IOU c i False m ex')"
  by (simp add: positiveMantissa_def)

end
