(* ===== verification/Governance.thy ===== *)
theory Governance
  imports Directory NodeKeys
begin

section \<open>Governance\<close>

text \<open>
  Proposals and votes on the burn rate (\<^verbatim>\<open>GovernanceProposal.cpp\<close>, \<^verbatim>\<open>GovernanceVote.cpp\<close>) and the
  tally at ledger close (\<^verbatim>\<open>GovernanceTally.cpp\<close>). A proposal keeps the voters' bond identifiers as
  packed 20-byte strings; a bond votes at most once, with its composite score as weight, and the
  sums saturate at 32 bits.
\<close>

subsection \<open>The packed voter list\<close>

definition kACCOUNT_ID_BYTES :: nat where "kACCOUNT_ID_BYTES = 20"

text \<open>The bytes of an account identifier, most significant first.\<close>

definition id_bytes :: "account \<Rightarrow> blob" where
  "id_bytes a = map (\<lambda>i. ucast (drop_bit (8 * (19 - i)) a)) [0..<20]"

function hasVoted_loop :: "blob \<Rightarrow> blob \<Rightarrow> nat \<Rightarrow> bool" where
  "hasVoted_loop voterList bond i =
     (if i + kACCOUNT_ID_BYTES \<le> length voterList
      then if take kACCOUNT_ID_BYTES (drop i voterList) = bond then True
           else hasVoted_loop voterList bond (i + kACCOUNT_ID_BYTES)
      else False)"
  by pat_completeness auto

termination
  by (relation "measure (\<lambda>(vl, b, i). length vl - i)") (auto simp: kACCOUNT_ID_BYTES_def)

declare hasVoted_loop.simps [simp del]

definition hasVoted :: "blob \<Rightarrow> account \<Rightarrow> bool" where
  "hasVoted voterList bondID =
     (if length voterList mod kACCOUNT_ID_BYTES \<noteq> 0 then False
      else hasVoted_loop voterList (id_bytes bondID) 0)"

definition appendVoter :: "blob \<Rightarrow> account \<Rightarrow> blob" where
  "appendVoter voterList bondID = voterList @ id_bytes bondID"

subsection \<open>GovernanceProposal\<close>

definition GovernanceProposal_preflight :: "env \<Rightarrow> blob \<Rightarrow> u32 \<Rightarrow> u32 \<Rightarrow> ter" where
  "GovernanceProposal_preflight e ckBlob proposalType val =
     (if \<not> e_featureProofOfParticipation e then temDISABLED
      else if \<not> isValidNodeKey ckBlob then temINVALID_FLAG
      else if proposalType \<noteq> kPROPOSAL_TYPE_BURN_BPS then temMALFORMED
      else if val < kFEE_BURN_MIN_BPS \<or> val > kFEE_BURN_MAX_BPS then temBAD_AMOUNT
      else tesSUCCESS)"

definition GovernanceProposal_preclaim :: "env \<Rightarrow> blob \<Rightarrow> view \<Rightarrow> ter" where
  "GovernanceProposal_preclaim e ckBlob v =
     (case read_bond v (e_calcValidatorBondID e ckBlob) of
        None \<Rightarrow> tecNO_ENTRY
      | Some sleBond \<Rightarrow>
          if bond_BondStatus sleBond \<noteq> kBOND_STATUS_BONDED then tecNO_PERMISSION else tesSUCCESS)"

definition GovernanceProposal_doApply :: "env \<Rightarrow> tx \<Rightarrow> u32 \<Rightarrow> u32 \<Rightarrow> view \<Rightarrow> applied" where
  "GovernanceProposal_doApply e t proposalType val v =
     (let account = tx_Account t; seq = v_seq v;
          proposalKey = KProposal account (tx_Sequence t);
          sleProposal = \<lparr>pr_Account = account, pr_ProposalType = proposalType, pr_ProposalValue = val,
            pr_ProposalExpiry = seq + kGOVERNANCE_VOTING_LEDGERS, pr_ProposalState = 0,
            pr_VotedFor = Some 0, pr_VotedAgainst = Some 0, pr_VoterList = Some [],
            pr_OwnerNode = 0, pr_PreviousTxnID = TxnId (tx_ID t), pr_PreviousTxnLgrSeq = seq\<rparr>
      in case ownerDirInsert e v account proposalKey of
           Inl ex \<Rightarrow> Inl ex
         | Inr (None, v1) \<Rightarrow> Inr (tecDIR_FULL, v1)
         | Inr (Some page, v1) \<Rightarrow>
             (case insert_sle v1 proposalKey (SProposal (sleProposal\<lparr>pr_OwnerNode := page\<rparr>)) of
                Inl ex \<Rightarrow> Inl ex
              | Inr v2 \<Rightarrow>
                  (case read_account v2 account of
                     None \<Rightarrow> Inr (tefINTERNAL, v2)
                   | Some sleAccount \<Rightarrow>
                       let v3 = put_account v2 account
                             (sleAccount\<lparr>acc_OwnerCount := acc_OwnerCount sleAccount + 1\<rparr>)
                       in (case read_epoch v3 of
                             None \<Rightarrow> Inr (tesSUCCESS, v3)
                           | Some sleEpoch \<Rightarrow>
                               Inr (tesSUCCESS, put_epoch v3
                                 (sleEpoch\<lparr>ep_Proposals := Some (getL (ep_Proposals sleEpoch) @ [proposalKey]),
                                    ep_PreviousTxnID := tx_ID t, ep_PreviousTxnLgrSeq := seq\<rparr>))))))"

subsection \<open>GovernanceVote\<close>

definition GovernanceVote_preflight :: "env \<Rightarrow> blob \<Rightarrow> u32 \<Rightarrow> ter" where
  "GovernanceVote_preflight e ckBlob vote =
     (if \<not> e_featureProofOfParticipation e then temDISABLED
      else if \<not> isValidNodeKey ckBlob then temINVALID_FLAG
      else if vote > 1 then temMALFORMED
      else tesSUCCESS)"

definition GovernanceVote_preclaim :: "env \<Rightarrow> tx \<Rightarrow> blob \<Rightarrow> key \<Rightarrow> view \<Rightarrow> ter" where
  "GovernanceVote_preclaim e t ckBlob proposalID v =
     (let bondID = e_calcValidatorBondID e ckBlob in
      case read_bond v bondID of
        None \<Rightarrow> tecNO_ENTRY
      | Some sleBond \<Rightarrow>
          if bond_BondStatus sleBond \<noteq> kBOND_STATUS_BONDED then tecNO_PERMISSION
          else if bond_Account sleBond \<noteq> tx_Account t then tecNO_PERMISSION
          else (case read_proposal v proposalID of
             None \<Rightarrow> tecNO_ENTRY
           | Some sleProposal \<Rightarrow>
               if pr_ProposalState sleProposal \<noteq> 0 then tecEXPIRED
               else if v_seq v \<ge> pr_ProposalExpiry sleProposal then tecEXPIRED
               else if hasVoted (getL (pr_VoterList sleProposal)) bondID then tecDUPLICATE
               else tesSUCCESS))"

definition saturating_add :: "u32 \<Rightarrow> u32 \<Rightarrow> u32" where
  "saturating_add prev weight = ucast (min (ucast prev + ucast weight :: u64) 0xFFFFFFFF)"

definition GovernanceVote_doApply :: "env \<Rightarrow> tx \<Rightarrow> blob \<Rightarrow> key \<Rightarrow> u32 \<Rightarrow> view \<Rightarrow> applied" where
  "GovernanceVote_doApply e t ckBlob proposalID vote v =
     (let bondID = e_calcValidatorBondID e ckBlob in
      case read_proposal v proposalID of
        None \<Rightarrow> Inr (tefINTERNAL, v)
      | Some sleProposal \<Rightarrow>
      (case read_bond v bondID of
         None \<Rightarrow> Inr (tefINTERNAL, v)
       | Some sleBond \<Rightarrow>
          let weight = getU (bond_CompositeScore sleBond);
              tallied = (if vote = 1
                then sleProposal\<lparr>pr_VotedFor := Some (saturating_add (getU (pr_VotedFor sleProposal)) weight)\<rparr>
                else sleProposal\<lparr>pr_VotedAgainst := Some (saturating_add (getU (pr_VotedAgainst sleProposal)) weight)\<rparr>)
          in Inr (tesSUCCESS, put v proposalID (SProposal
               (tallied\<lparr>pr_VoterList := Some (appendVoter (getL (pr_VoterList tallied)) bondID),
                  pr_PreviousTxnID := TxnId (tx_ID t), pr_PreviousTxnLgrSeq := v_seq v\<rparr>)))))"

subsection \<open>The tally\<close>

definition proposal_passed :: "u32 \<Rightarrow> u32 \<Rightarrow> bool" where
  "proposal_passed votedFor aggregateScore \<longleftrightarrow> aggregateScore > 0 \<and>
     uint votedFor * uint kBPS_DENOM \<ge> uint aggregateScore * uint kGOVERNANCE_SUPERMAJORITY_BPS"

definition tally_params :: "u32 \<Rightarrow> key \<Rightarrow> governance_proposal \<Rightarrow> view \<Rightarrow> view" where
  "tally_params seq key sleProposal v =
     (let sleParams = (case read_gov_params v of
            Some p \<Rightarrow> p
          | None \<Rightarrow> \<lparr>gp_CurrentBurnBps = None, gp_PreviousTxnID = IndexRef key, gp_PreviousTxnLgrSeq = seq\<rparr>)
      in if pr_ProposalType sleProposal = kPROPOSAL_TYPE_BURN_BPS
         then put v KGovParams (SGovParams
                (sleParams\<lparr>gp_CurrentBurnBps :=
                     Some (clamp (pr_ProposalValue sleProposal) kFEE_BURN_MIN_BPS kFEE_BURN_MAX_BPS),
                   gp_PreviousTxnID := IndexRef key, gp_PreviousTxnLgrSeq := seq\<rparr>))
         else v)"

definition tally_one :: "u32 \<Rightarrow> u32 \<Rightarrow> key \<Rightarrow> view \<Rightarrow> view" where
  "tally_one seq aggregateScore key v =
     (case read_proposal v key of
        None \<Rightarrow> v
      | Some sleProposal \<Rightarrow>
          if pr_ProposalState sleProposal \<noteq> 0 then v
          else if seq < pr_ProposalExpiry sleProposal then v
          else let passed = proposal_passed (getU (pr_VotedFor sleProposal)) aggregateScore;
                   v1 = (if passed then tally_params seq key sleProposal v else v)
               in put v1 key (SProposal
                    (sleProposal\<lparr>pr_ProposalState := (if passed then 1 else 2),
                       pr_PreviousTxnID := IndexRef key, pr_PreviousTxnLgrSeq := seq\<rparr>)))"

definition applyGovernanceTally :: "env \<Rightarrow> view \<Rightarrow> u32 \<Rightarrow> key list \<Rightarrow> view" where
  "applyGovernanceTally e v seq openProposalKeys =
     (if \<not> e_featureProofOfParticipation e then v
      else if openProposalKeys = [] then v
      else let aggregateScore = (case read_epoch v of
                 None \<Rightarrow> 0 | Some sleEpoch \<Rightarrow> getU (ep_AggregateCompositeScore sleEpoch))
           in fold (tally_one seq aggregateScore) openProposalKeys v)"

subsection \<open>The voter list stands for a list of bonds\<close>

lemma length_id_bytes [simp]: "length (id_bytes a) = 20"
  by (simp add: id_bytes_def)

lemma bit_id_bytes:
  assumes "n < 160"
  shows "bit (id_bytes a ! (19 - n div 8)) (n mod 8) = bit a n"
proof -
  have "n div 8 \<le> 19" using assms by linarith
  then have "[0..<20] ! (19 - n div 8) = 19 - n div 8" by (subst nth_upt) auto
  with \<open>n div 8 \<le> 19\<close> have "id_bytes a ! (19 - n div 8) = ucast (drop_bit (8 * (n div 8)) a)"
    by (simp add: id_bytes_def)
  then show ?thesis by (simp add: bit_simps)
qed

lemma id_bytes_inj: "id_bytes a = id_bytes b \<Longrightarrow> a = b"
proof (rule bit_word_eqI)
  fix n assume h: "id_bytes a = id_bytes b" "n < LENGTH(160)"
  then have "n < 160" by simp
  with bit_id_bytes [of n a] bit_id_bytes [of n b] h(1) show "bit a n = bit b n" by simp
qed

definition packed :: "account list \<Rightarrow> blob" where
  "packed ids = concat (map id_bytes ids)"

lemma packed_simps [simp]: "packed [] = []" "packed (i # ids) = id_bytes i @ packed ids"
  by (simp_all add: packed_def)

lemma appendVoter_packed: "appendVoter (packed ids) i = packed (ids @ [i])"
  by (simp add: appendVoter_def packed_def)

lemma length_packed [simp]: "length (packed ids) = 20 * length ids"
  by (induction ids) simp_all

lemma hasVoted_loop_shift: "hasVoted_loop (pre @ rest) b (length pre + i) = hasVoted_loop rest b i"
proof (induction rest b i rule: hasVoted_loop.induct)
  case (1 rest b i)
  then show ?case
    by (subst (1 2) hasVoted_loop.simps) (simp add: kACCOUNT_ID_BYTES_def add.assoc)
qed

lemma hasVoted_loop_packed: "hasVoted_loop (packed ids) (id_bytes b) 0 \<longleftrightarrow> b \<in> set ids"
proof (induction ids)
  case Nil
  then show ?case by (simp add: hasVoted_loop.simps kACCOUNT_ID_BYTES_def)
next
  case (Cons i ids)
  have "hasVoted_loop (packed (i # ids)) (id_bytes b) 0
      = (id_bytes i = id_bytes b \<or> hasVoted_loop (id_bytes i @ packed ids) (id_bytes b) (length (id_bytes i) + 0))"
    by (subst hasVoted_loop.simps) (simp add: kACCOUNT_ID_BYTES_def)
  also have "\<dots> = (id_bytes i = id_bytes b \<or> hasVoted_loop (packed ids) (id_bytes b) 0)"
    by (simp only: hasVoted_loop_shift)
  also have "\<dots> = (b \<in> set (i # ids))"
    using Cons by (auto dest: id_bytes_inj)
  finally show ?case .
qed

lemma hasVoted_packed: "hasVoted (packed ids) b \<longleftrightarrow> b \<in> set ids"
  by (simp add: hasVoted_def hasVoted_loop_packed kACCOUNT_ID_BYTES_def)

lemma unat_saturating_add: "unat (saturating_add a b) = min (unat a + unat b) (2 ^ 32 - 1)"
proof -
  have s: "unat (ucast a + ucast b :: u64) = unat a + unat b"
    using unat32_lt [of a] unat32_lt [of b] by (simp add: unat_word_ariths unsigned_ucast_eq take_bit_nat_eq_self)
  have m: "unat (0xFFFFFFFF :: u64) = 2 ^ 32 - 1" by simp
  have "unat (min (ucast a + ucast b :: u64) 0xFFFFFFFF) = min (unat a + unat b) (2 ^ 32 - 1)"
    by (simp only: unat_min s m)
  then show ?thesis by (simp add: saturating_add_def unsigned_ucast_eq take_bit_nat_eq_self min_def)
qed

subsection \<open>A proposal refines a ballot\<close>

text \<open>
  The abstract ballot: who voted, and the unbounded sums of the weights. The stored entry packs
  the voters and saturates the sums.
\<close>

record ballot =
  b_voters :: "account list"
  b_for :: nat
  b_against :: nat

definition cast :: "account \<Rightarrow> bool \<Rightarrow> nat \<Rightarrow> ballot \<Rightarrow> ballot" where
  "cast i yes w b = b\<lparr>b_voters := b_voters b @ [i],
     b_for := b_for b + (if yes then w else 0), b_against := b_against b + (if yes then 0 else w)\<rparr>"

definition represents :: "governance_proposal \<Rightarrow> ballot \<Rightarrow> bool" where
  "represents p b \<longleftrightarrow> getL (pr_VoterList p) = packed (b_voters b) \<and> distinct (b_voters b)
     \<and> unat (getU (pr_VotedFor p)) = min (b_for b) (2 ^ 32 - 1)
     \<and> unat (getU (pr_VotedAgainst p)) = min (b_against b) (2 ^ 32 - 1)"

lemma GovernanceVote_successE:
  assumes "GovernanceVote_doApply e t ck k vote v = Inr (tesSUCCESS, v')"
  obtains p b where "read_proposal v k = Some p" "read_bond v (e_calcValidatorBondID e ck) = Some b"
    "v' = put v k (SProposal ((if vote = 1
        then p\<lparr>pr_VotedFor := Some (saturating_add (getU (pr_VotedFor p)) (getU (bond_CompositeScore b)))\<rparr>
        else p\<lparr>pr_VotedAgainst := Some (saturating_add (getU (pr_VotedAgainst p)) (getU (bond_CompositeScore b)))\<rparr>)
        \<lparr>pr_VoterList := Some (appendVoter (getL (pr_VoterList p)) (e_calcValidatorBondID e ck)),
          pr_PreviousTxnID := TxnId (tx_ID t), pr_PreviousTxnLgrSeq := v_seq v\<rparr>))"
  using assms by (auto simp: GovernanceVote_doApply_def Let_def split: option.splits if_splits)

lemma min_sat_add: "min (min a m + w) m = min (a + w) (m :: nat)"
  by (simp add: min_def)

lemma GovernanceVote_refines:
  assumes "GovernanceVote_doApply e t ck k vote v = Inr (tesSUCCESS, v')"
    and "GovernanceVote_preclaim e t ck k v = tesSUCCESS"
    and "read_proposal v k = Some p" "represents p b"
  shows "\<exists>p' bond. read_proposal v' k = Some p' \<and> read_bond v (e_calcValidatorBondID e ck) = Some bond
    \<and> represents p' (cast (e_calcValidatorBondID e ck) (vote = 1) (unat (getU (bond_CompositeScore bond))) b)"
  using assms(1)
proof (cases rule: GovernanceVote_successE)
  case (1 p1 bond)
  with assms(3) have [simp]: "p1 = p" by simp
  from assms(2-4) 1(2) have "e_calcValidatorBondID e ck \<notin> set (b_voters b)"
    by (auto simp: GovernanceVote_preclaim_def Let_def represents_def hasVoted_packed split: if_splits)
  with 1 assms(4) show ?thesis
    by (auto simp: represents_def cast_def appendVoter_packed unat_saturating_add min_sat_add)
qed

text \<open>A bond that has voted cannot vote again, whoever submits the transaction.\<close>

lemma GovernanceVote_once:
  assumes "GovernanceVote_doApply e t ck k vote v = Inr (tesSUCCESS, v')"
    and "GovernanceVote_preclaim e t ck k v = tesSUCCESS"
    and "read_proposal v k = Some p" "represents p b"
    and "e_calcValidatorBondID e ck' = e_calcValidatorBondID e ck"
  shows "GovernanceVote_preclaim e t' ck' k v' \<noteq> tesSUCCESS"
proof -
  obtain p' and bond :: validator_bond where r: "read_proposal v' k = Some p'"
    "represents p' (cast (e_calcValidatorBondID e ck) (vote = 1) (unat (getU (bond_CompositeScore bond))) b)"
    using GovernanceVote_refines [OF assms(1-4)] by blast
  then have "hasVoted (getL (pr_VoterList p')) (e_calcValidatorBondID e ck)"
    by (simp add: represents_def cast_def hasVoted_packed)
  with r(1) assms(5) show ?thesis
    by (auto simp: GovernanceVote_preclaim_def Let_def split: option.splits)
qed

lemma GovernanceVote_conserves:
  assumes "GovernanceVote_doApply e t ck k vote v = Inr (tesSUCCESS, v')" "sound_view v"
  shows "conserves v v'"
  using assms(1)
proof (cases rule: GovernanceVote_successE)
  case (1 p b)
  from 1(1) have "find_sle v k = Some (SProposal p)" by (rule read_SomeD)
  with assms(2) show ?thesis unfolding 1(3) by (intro conserves_same) simp_all
qed

subsection \<open>Proposals\<close>

definition new_proposal :: "tx \<Rightarrow> u32 \<Rightarrow> u32 \<Rightarrow> u64 \<Rightarrow> u32 \<Rightarrow> governance_proposal" where
  "new_proposal t proposalType val page seq =
     \<lparr>pr_Account = tx_Account t, pr_ProposalType = proposalType, pr_ProposalValue = val,
      pr_ProposalExpiry = seq + kGOVERNANCE_VOTING_LEDGERS, pr_ProposalState = 0,
      pr_VotedFor = Some 0, pr_VotedAgainst = Some 0, pr_VoterList = Some [],
      pr_OwnerNode = page, pr_PreviousTxnID = TxnId (tx_ID t), pr_PreviousTxnLgrSeq = seq\<rparr>"

lemma GovernanceProposal_successE:
  assumes "GovernanceProposal_doApply e t pt val v = Inr (tesSUCCESS, v')"
  obtains page v1 acct where
    "ownerDirInsert e v (tx_Account t) (KProposal (tx_Account t) (tx_Sequence t)) = Inr (Some page, v1)"
    "find_sle v (KProposal (tx_Account t) (tx_Sequence t)) = None" "read_account v (tx_Account t) = Some acct"
    "v' = (let v3 = put (put v1 (KProposal (tx_Account t) (tx_Sequence t))
                 (SProposal (new_proposal t pt val page (v_seq v))))
               (KAccount (tx_Account t)) (SAccount (acct\<lparr>acc_OwnerCount := acc_OwnerCount acct + 1\<rparr>))
           in case read_epoch v of None \<Rightarrow> v3
              | Some ep \<Rightarrow> put v3 KRewardEpoch (SEpoch (ep\<lparr>ep_Proposals :=
                    Some (getL (ep_Proposals ep) @ [KProposal (tx_Account t) (tx_Sequence t)]),
                  ep_PreviousTxnID := tx_ID t, ep_PreviousTxnLgrSeq := v_seq v\<rparr>)))"
proof -
  let ?k = "KProposal (tx_Account t) (tx_Sequence t)"
  from assms obtain page v1 where
    d: "ownerDirInsert e v (tx_Account t) ?k = Inr (Some page, v1)"
    by (auto simp: GovernanceProposal_doApply_def Let_def split: sum.splits option.splits)
  note f = dir_frame_simps [OF ownerDirInsert_frame [OF d]]
  from assms d f show thesis
    by (auto simp: GovernanceProposal_doApply_def Let_def put_defs new_proposal_def intro!: that
        split: sum.splits option.splits dest!: insert_sle_InrD)
qed

text \<open>
  A new proposal starts as the empty ballot, open for the voting window, and its key is recorded
  in the epoch, if there is one.
\<close>

lemma GovernanceProposal_result:
  assumes "GovernanceProposal_doApply e t pt val v = Inr (tesSUCCESS, v')"
  shows "\<exists>page. read_proposal v' (KProposal (tx_Account t) (tx_Sequence t))
        = Some (new_proposal t pt val page (v_seq v))
      \<and> (\<forall>ep. read_epoch v = Some ep \<longrightarrow> (\<exists>ep'. read_epoch v' = Some ep'
           \<and> getL (ep_Proposals ep') = getL (ep_Proposals ep) @ [KProposal (tx_Account t) (tx_Sequence t)]))"
  using assms
proof (cases rule: GovernanceProposal_successE)
  case (1 page v1 acct)
  then show ?thesis by (auto simp: Let_def split: option.splits)
qed

lemma new_proposal_ballot: "represents (new_proposal t pt val page seq) \<lparr>b_voters = [], b_for = 0, b_against = 0\<rparr>"
  by (simp add: represents_def new_proposal_def)

text \<open>
  The entry it stores sets three \<^verbatim>\<open>SoeDefault\<close> fields to their defaults, so it does not pass the
  template when it is read back.
\<close>

lemma new_proposal_template: "\<not> applyTemplate_ok (SProposal (new_proposal t pt val page seq))"
  by (simp add: new_proposal_def)

lemma GovernanceProposal_conserves:
  assumes "GovernanceProposal_doApply e t pt val v = Inr (tesSUCCESS, v')" "sound_view v"
  shows "conserves v v'"
  using assms(1)
proof (cases rule: GovernanceProposal_successE)
  case (1 page v1 acct)
  let ?k = "KProposal (tx_Account t) (tx_Sequence t)"
  note f = dir_frame_simps [OF ownerDirInsert_frame [OF 1(1)]]
  have c1: "conserves v v1" using 1(1) assms(2) by (rule ownerDirInsert_conserves)
  let ?v2 = "put v1 ?k (SProposal (new_proposal t pt val page (v_seq v)))"
  have c2: "conserves v1 ?v2" using c1 1(2) f by (intro conserves_same) (auto simp: conserves_def)
  let ?v3 = "put ?v2 (KAccount (tx_Account t)) (SAccount (acct\<lparr>acc_OwnerCount := acc_OwnerCount acct + 1\<rparr>))"
  have "find_sle ?v2 (KAccount (tx_Account t)) = Some (SAccount acct)" using 1(3) f by (auto dest: read_SomeD)
  then have c3: "conserves ?v2 ?v3" using c2
    by (intro conserves_same) (auto simp: conserves_def sound_view_def dest: solventD)
  have s3: "sound_view ?v3" using c3 by (simp add: conserves_def)
  have "conserves ?v3 v'"
  proof (cases "read_epoch v")
    case None
    with 1(4) s3 show ?thesis by (simp add: Let_def conserves_refl)
  next
    case (Some ep)
    then have "find_sle ?v3 KRewardEpoch = Some (SEpoch ep)" using f by (auto dest: read_SomeD)
    then have "conserves ?v3 (put ?v3 KRewardEpoch (SEpoch x))" for x
      using s3 by (intro conserves_same) simp_all
    with 1(4) Some show ?thesis by (simp add: Let_def)
  qed
  with c1 c2 c3 show ?thesis by (blast intro: conserves_trans)
qed

subsection \<open>The tally decides once, by the threshold\<close>

text \<open>The threshold in percent: the weight in favour is at least 67 percent of the aggregate score.\<close>

lemma proposal_passed_iff:
  "proposal_passed f a \<longleftrightarrow> 0 < unat a \<and> 6700 * unat a \<le> 10000 * unat f"
proof -
  have "uint f * uint kBPS_DENOM \<ge> uint a * uint kGOVERNANCE_SUPERMAJORITY_BPS \<longleftrightarrow> 67 * uint a \<le> 100 * uint f"
    by (simp add: qxrp_const)
  also have "\<dots> \<longleftrightarrow> 6700 * unat a \<le> 10000 * unat f"
    unfolding uint_int_unat [of a] uint_int_unat [of f] by linarith
  finally show ?thesis by (simp add: proposal_passed_def word_less_nat_alt)
qed

lemma tally_one_cases:
  assumes "read_proposal v k = Some p"
  shows "tally_one seq agg k v =
    (if pr_ProposalState p \<noteq> 0 \<or> seq < pr_ProposalExpiry p then v
     else put (if proposal_passed (getU (pr_VotedFor p)) agg then tally_params seq k p v else v) k
       (SProposal (p\<lparr>pr_ProposalState := (if proposal_passed (getU (pr_VotedFor p)) agg then 1 else 2),
          pr_PreviousTxnID := IndexRef k, pr_PreviousTxnLgrSeq := seq\<rparr>)))"
  using assms by (simp add: tally_one_def Let_def)

text \<open>A tally touches only open, expired proposals and the governance parameters.\<close>

lemma tally_params_other: "k' \<noteq> KGovParams \<Longrightarrow> find_sle (tally_params seq k p v) k' = find_sle v k'"
  by (simp add: tally_params_def Let_def)

lemma tally_one_other:
  "k' \<noteq> k \<Longrightarrow> k' \<noteq> KGovParams \<Longrightarrow> find_sle (tally_one seq agg k v) k' = find_sle v k'"
  by (auto simp: tally_one_def Let_def tally_params_other split: option.splits)

lemma tally_fold_other:
  "k' \<notin> set ks \<Longrightarrow> k' \<noteq> KGovParams \<Longrightarrow> find_sle (fold (tally_one seq agg) ks v) k' = find_sle v k'"
  by (induction ks arbitrary: v) (auto simp: tally_one_other)

text \<open>What a tally writes to the parameters is inside the legal range.\<close>

definition params_ok :: "view \<Rightarrow> bool" where
  "params_ok v \<longleftrightarrow> (case read_gov_params v of None \<Rightarrow> True | Some g \<Rightarrow>
     (case gp_CurrentBurnBps g of None \<Rightarrow> True
      | Some b \<Rightarrow> kFEE_BURN_MIN_BPS \<le> b \<and> b \<le> kFEE_BURN_MAX_BPS))"

lemma read_gov_params_put:
  "read_gov_params (put v k s) =
     (if k = KGovParams then (case s of SGovParams r \<Rightarrow> Some r | _ \<Rightarrow> None) else read_gov_params v)"
  by (simp add: read_gov_params_def)

lemma tally_params_ok: "params_ok v \<Longrightarrow> params_ok (tally_params seq k p v)"
  using clamp_bounds [of kFEE_BURN_MIN_BPS kFEE_BURN_MAX_BPS "pr_ProposalValue p"]
  by (simp add: tally_params_def params_ok_def Let_def read_gov_params_put qxrp_const)

lemma params_ok_put: "k \<noteq> KGovParams \<Longrightarrow> params_ok (put v k s) = params_ok v"
  by (simp add: params_ok_def read_gov_params_put)

lemma tally_one_params_ok: "params_ok v \<Longrightarrow> k \<noteq> KGovParams \<Longrightarrow> params_ok (tally_one seq agg k v)"
  by (auto simp: tally_one_def Let_def params_ok_put tally_params_ok split: option.splits)

text \<open>The outcome of one proposal under a whole tally of distinct keys.\<close>

lemma tally_fold_params_ok:
  "KGovParams \<notin> set ks \<Longrightarrow> params_ok v \<Longrightarrow> params_ok (fold (tally_one seq agg) ks v)"
proof (induction ks arbitrary: v)
  case (Cons k ks)
  then have "params_ok (tally_one seq agg k v)" by (intro tally_one_params_ok) auto
  with Cons show ?case by simp
qed simp

lemma tally_fold_decides:
  assumes "distinct ks" "k \<in> set ks" "KGovParams \<notin> set ks" "read_proposal v k = Some p"
    and "pr_ProposalState p = 0" "pr_ProposalExpiry p \<le> seq"
  shows "\<exists>p'. read_proposal (fold (tally_one seq agg) ks v) k = Some p'
    \<and> pr_ProposalState p' = (if proposal_passed (getU (pr_VotedFor p)) agg then 1 else 2)
    \<and> pr_VotedFor p' = pr_VotedFor p \<and> pr_VoterList p' = pr_VoterList p"
  using assms
proof (induction ks arbitrary: v)
  case (Cons j ks)
  show ?case
  proof (cases "j = k")
    case True
    then have n: "k \<notin> set ks" "k \<noteq> KGovParams" using Cons.prems by auto
    have "read_proposal (fold (tally_one seq agg) ks w) k = read_proposal w k" for w
      using tally_fold_other [OF n, of seq agg w] by (simp add: read_proposal_def)
    moreover have "\<not> seq < pr_ProposalExpiry p" using Cons.prems(6) by simp
    ultimately show ?thesis using True Cons.prems(4,5) tally_one_cases [OF Cons.prems(4), of seq agg]
      by simp
  next
    case False
    have "k \<noteq> KGovParams" using Cons.prems by auto
    then have "read_proposal (tally_one seq agg j v) k = Some p"
      using Cons.prems(4) tally_one_other [of k j seq agg v] False by (simp add: read_proposal_def)
    with Cons False show ?thesis by simp
  qed
qed simp

text \<open>
  Tallies move no drops, provided the key of the parameters holds parameters or nothing.
\<close>

lemma tally_params_conserves:
  assumes "sound_view v" "opt_val sle_drops (find_sle v KGovParams) = 0"
  shows "conserves v (tally_params seq k p v) \<and> opt_val sle_drops (find_sle (tally_params seq k p v) KGovParams) = 0"
  using assms by (auto simp: tally_params_def Let_def intro!: conserves_same conserves_refl)

lemma tally_one_conserves:
  assumes "sound_view v" "opt_val sle_drops (find_sle v KGovParams) = 0"
  shows "conserves v (tally_one seq agg k v) \<and> opt_val sle_drops (find_sle (tally_one seq agg k v) KGovParams) = 0"
proof (cases "read_proposal v k")
  case None
  with assms show ?thesis by (simp add: tally_one_def conserves_refl)
next
  case (Some p)
  then have f: "find_sle v k = Some (SProposal p)" by (rule read_SomeD)
  define w where "w = (if proposal_passed (getU (pr_VotedFor p)) agg then tally_params seq k p v else v)"
  have w: "conserves v w" "opt_val sle_drops (find_sle w KGovParams) = 0" "opt_val sle_drops (find_sle w k) = 0"
    using tally_params_conserves [OF assms, of seq k p] assms f
    by (auto simp: w_def conserves_refl tally_params_def Let_def)
  then have "conserves w (put w k (SProposal x))" for x
    by (intro conserves_same) (auto simp: conserves_def)
  with w assms show ?thesis
    unfolding tally_one_cases [OF Some] w_def [symmetric]
    by (auto intro: conserves_trans conserves_refl)
qed

lemma applyGovernanceTally_conserves:
  assumes "sound_view v" "opt_val sle_drops (find_sle v KGovParams) = 0"
  shows "conserves v (applyGovernanceTally e v seq ks)"
proof -
  have "conserves v (fold (tally_one seq agg) ks v)" for agg
    using assms
  proof (induction ks arbitrary: v)
    case Nil
    then show ?case by (simp add: conserves_refl)
  next
    case (Cons j ks)
    note c = tally_one_conserves [OF Cons.prems, of seq agg j]
    then have "conserves (tally_one seq agg j v) (fold (tally_one seq agg) ks (tally_one seq agg j v))"
      by (intro Cons.IH) (auto simp: conserves_def)
    with c show ?case by (auto intro: conserves_trans)
  qed
  with assms show ?thesis by (simp add: applyGovernanceTally_def Let_def conserves_refl)
qed

end
