(* ===== verification/Names.thy ===== *)
theory Names
  imports Directory
begin

section \<open>Account names\<close>

text \<open>
  \<^verbatim>\<open>AccountNameHelpers.h\<close> and the transactors \<^verbatim>\<open>NameSet\<close>, \<^verbatim>\<open>NameUnbond\<close> and \<^verbatim>\<open>NameRelease\<close>: a name is a
  normalized string bound to one account against a bond of 100 FALCON; the owner gives it up, and
  after a lock of one epoch anyone can release it, which pays the bond back.
\<close>

subsection \<open>Normalization\<close>

definition tolower :: "u8 \<Rightarrow> u8" where
  "tolower c = (if 0x41 \<le> c \<and> c \<le> 0x5A then c + 0x20 else c)"

definition is_alnum :: "u8 \<Rightarrow> bool" where
  "is_alnum c \<longleftrightarrow> 0x61 \<le> c \<and> c \<le> 0x7A \<or> 0x30 \<le> c \<and> c \<le> 0x39"

definition dot :: u8 where "dot = 0x2E"

text \<open>The loop over the characters: the index, whether the previous character was a dot, the output.\<close>

fun normalize_loop :: "nat \<Rightarrow> nat \<Rightarrow> bool \<Rightarrow> blob \<Rightarrow> blob \<Rightarrow> blob option" where
  "normalize_loop sz i prevDot [] out = Some out"
| "normalize_loop sz i prevDot (c # cs) out =
     (let lower = tolower c in
      if is_alnum lower then normalize_loop sz (i + 1) False cs (out @ [lower])
      else if lower = dot
      then if i = 0 \<or> i + 1 = sz \<or> prevDot then None
           else normalize_loop sz (i + 1) True cs (out @ [dot])
      else None)"

definition normalizeName :: "blob \<Rightarrow> blob option" where
  "normalizeName raw =
     (if raw = [] \<or> length raw < kNAME_MIN_LEN \<or> length raw > kNAME_MAX_LEN then None
      else case normalize_loop (length raw) 0 False raw [] of
        None \<Rightarrow> None
      | Some out \<Rightarrow> if length out < kNAME_MIN_LEN \<or> length out > kNAME_MAX_LEN then None else Some out)"

definition isValidNormalizedName :: "blob \<Rightarrow> bool" where
  "isValidNormalizedName name \<longleftrightarrow> normalizeName name \<noteq> None"

subsection \<open>NameSet\<close>

definition NameSet_preflight :: "env \<Rightarrow> blob option \<Rightarrow> ter" where
  "NameSet_preflight e raw =
     (if \<not> e_featureAccountNames e then temDISABLED
      else if raw = None then temMALFORMED
      else case normalizeName (getL raw) of
        None \<Rightarrow> temMALFORMED
      | Some name \<Rightarrow> if getL raw \<noteq> name then temMALFORMED else tesSUCCESS)"

text \<open>\<open>preclaim\<close> and \<open>doApply\<close> dereference the normalized name, which \<open>preflight\<close> has checked to exist.\<close>

definition NameSet_preclaim :: "tx \<Rightarrow> blob \<Rightarrow> view \<Rightarrow> ter" where
  "NameSet_preclaim t name v =
     (if read_name v (KAccountName name) \<noteq> None then tecDUPLICATE
      else case read_account v (tx_Account t) of
        None \<Rightarrow> terNO_ACCOUNT
      | Some sleAccount \<Rightarrow>
          if acc_AccountName sleAccount \<noteq> None then tecDUPLICATE
          else if acc_Balance sleAccount < kNAME_BOND_DROPS then tecUNFUNDED
          else tesSUCCESS)"

definition NameSet_doApply :: "env \<Rightarrow> tx \<Rightarrow> blob \<Rightarrow> view \<Rightarrow> applied" where
  "NameSet_doApply e t name v =
     (let account = tx_Account t in
      case read_account v account of
        None \<Rightarrow> Inr (tefINTERNAL, v)
      | Some sleAccount \<Rightarrow>
          if acc_Balance sleAccount < kNAME_BOND_DROPS then Inr (tecUNFUNDED, v)
          else let sleName = \<lparr>nm_Name = name, nm_Account = account, nm_BondedAmount = kNAME_BOND_DROPS,
                     nm_NameStatus = kNAME_STATUS_ACTIVE, nm_UnbondingStartLedger = None,
                     nm_OwnerNode = 0, nm_PreviousTxnID = tx_ID t, nm_PreviousTxnLgrSeq = v_seq v\<rparr>
               in case ownerDirInsert e v account (KAccountName name) of
                    Inl ex \<Rightarrow> Inl ex
                  | Inr (None, v1) \<Rightarrow> Inr (tecDIR_FULL, v1)
                  | Inr (Some page, v1) \<Rightarrow>
                      (case insert_sle v1 (KAccountName name) (SName (sleName\<lparr>nm_OwnerNode := page\<rparr>)) of
                         Inl ex \<Rightarrow> Inl ex
                       | Inr v2 \<Rightarrow> Inr (tesSUCCESS, put_account v2 account
                           (sleAccount\<lparr>acc_Balance := acc_Balance sleAccount - kNAME_BOND_DROPS,
                              acc_AccountName := Some (KAccountName name),
                              acc_OwnerCount := acc_OwnerCount sleAccount + 1\<rparr>))))"

subsection \<open>NameUnbond\<close>

text \<open>The two copies of the look-up, for \<open>preclaim\<close> and for \<open>doApply\<close>, are the same function.\<close>

definition resolveNameKeylet :: "tx \<Rightarrow> blob option \<Rightarrow> view \<Rightarrow> key option" where
  "resolveNameKeylet t raw v =
     (case raw of
        Some r \<Rightarrow> (case normalizeName r of None \<Rightarrow> None | Some name \<Rightarrow> Some (KAccountName name))
      | None \<Rightarrow>
          (case read_account v (tx_Account t) of
             None \<Rightarrow> None | Some sleAccount \<Rightarrow> acc_AccountName sleAccount))"

definition NameUnbond_preflight :: "env \<Rightarrow> blob option \<Rightarrow> ter" where
  "NameUnbond_preflight e raw =
     (if \<not> e_featureAccountNames e then temDISABLED
      else case raw of
        None \<Rightarrow> tesSUCCESS
      | Some r \<Rightarrow>
          (case normalizeName r of
             None \<Rightarrow> temMALFORMED
           | Some name \<Rightarrow> if r \<noteq> name then temMALFORMED else tesSUCCESS))"

definition NameUnbond_preclaim :: "tx \<Rightarrow> blob option \<Rightarrow> view \<Rightarrow> ter" where
  "NameUnbond_preclaim t raw v =
     (case resolveNameKeylet t raw v of
        None \<Rightarrow> tecNO_ENTRY
      | Some kl \<Rightarrow>
          (case read_name v kl of
             None \<Rightarrow> tecNO_ENTRY
           | Some sleName \<Rightarrow>
               if nm_Account sleName \<noteq> tx_Account t then tecNO_PERMISSION
               else if nm_NameStatus sleName \<noteq> kNAME_STATUS_ACTIVE then tecNO_PERMISSION
               else tesSUCCESS))"

definition NameUnbond_doApply :: "tx \<Rightarrow> blob option \<Rightarrow> view \<Rightarrow> applied" where
  "NameUnbond_doApply t raw v =
     (case resolveNameKeylet t raw v of
        None \<Rightarrow> Inr (tefINTERNAL, v)
      | Some kl \<Rightarrow>
          (case read_name v kl of
             None \<Rightarrow> Inr (tefINTERNAL, v)
           | Some sleName \<Rightarrow>
               Inr (tesSUCCESS, put v kl (SName
                 (sleName\<lparr>nm_NameStatus := kNAME_STATUS_RELEASING,
                    nm_UnbondingStartLedger := Some (v_seq v),
                    nm_PreviousTxnID := tx_ID t, nm_PreviousTxnLgrSeq := v_seq v\<rparr>)))))"

subsection \<open>NameRelease\<close>

definition NameRelease_preflight :: "env \<Rightarrow> blob option \<Rightarrow> ter" where
  "NameRelease_preflight e raw =
     (if \<not> e_featureAccountNames e then temDISABLED
      else if raw = None then temMALFORMED
      else case normalizeName (getL raw) of
        None \<Rightarrow> temMALFORMED
      | Some name \<Rightarrow> if getL raw \<noteq> name then temMALFORMED else tesSUCCESS)"

definition name_too_soon :: "u32 \<Rightarrow> u32 \<Rightarrow> bool" where
  "name_too_soon startLedger seq \<longleftrightarrow> seq < startLedger + kNAME_UNBOND_LEDGERS"

definition NameRelease_preclaim :: "blob \<Rightarrow> view \<Rightarrow> ter" where
  "NameRelease_preclaim name v =
     (case read_name v (KAccountName name) of
        None \<Rightarrow> tecNO_ENTRY
      | Some sleName \<Rightarrow>
          if nm_NameStatus sleName \<noteq> kNAME_STATUS_RELEASING then tecNO_PERMISSION
          else if name_too_soon (getU (nm_UnbondingStartLedger sleName)) (v_seq v) then tecTOO_SOON
          else tesSUCCESS)"

definition NameRelease_doApply :: "blob \<Rightarrow> view \<Rightarrow> applied" where
  "NameRelease_doApply name v =
     (case read_name v (KAccountName name) of
        None \<Rightarrow> Inr (tefINTERNAL, v)
      | Some sleName \<Rightarrow>
          let owner = nm_Account sleName in
          (case read_account v owner of
             None \<Rightarrow> Inr (tefINTERNAL, v)
           | Some sleAccount0 \<Rightarrow>
               let bonded = nm_BondedAmount sleName;
                   sleAccount1 = (if bonded > 0
                     then sleAccount0\<lparr>acc_Balance := acc_Balance sleAccount0 + bonded\<rparr> else sleAccount0)
               in case ownerDirRemove v owner (nm_OwnerNode sleName) (KAccountName name) of
                    Inl ex \<Rightarrow> Inl ex
                  | Inr (False, v1) \<Rightarrow> Inr (tefBAD_LEDGER, v1)
                  | Inr (True, v1) \<Rightarrow>
                      let sleAccount2 = (if acc_AccountName sleAccount1 = Some (KAccountName name)
                            then sleAccount1\<lparr>acc_AccountName := None\<rparr> else sleAccount1);
                          ownerCount = acc_OwnerCount sleAccount2;
                          v2 = put_account v1 owner
                            (if ownerCount > 0 then sleAccount2\<lparr>acc_OwnerCount := ownerCount - 1\<rparr>
                             else sleAccount2)
                      in Inr (tesSUCCESS, del v2 (KAccountName name))))"

subsection \<open>Normalization against its specification\<close>

text \<open>
  A well-formed name: 3 to 32 lower-case letters, digits and dots, no dot at either end and no
  two dots in a row.
\<close>

fun no_double_dot :: "blob \<Rightarrow> bool" where
  "no_double_dot (a # b # cs) = ((a = dot \<longrightarrow> b \<noteq> dot) \<and> no_double_dot (b # cs))"
| "no_double_dot _ = True"

definition well_formed_name :: "blob \<Rightarrow> bool" where
  "well_formed_name n \<longleftrightarrow> kNAME_MIN_LEN \<le> length n \<and> length n \<le> kNAME_MAX_LEN
     \<and> (\<forall>c \<in> set n. is_alnum c \<or> c = dot) \<and> hd n \<noteq> dot \<and> last n \<noteq> dot \<and> no_double_dot n"

lemma not_alnum_dot [simp]: "\<not> is_alnum dot"
  by (simp add: is_alnum_def dot_def)

lemma no_double_dot_Cons:
  "no_double_dot (a # cs) \<longleftrightarrow> (a = dot \<longrightarrow> cs = [] \<or> hd cs \<noteq> dot) \<and> no_double_dot cs"
  by (cases cs) auto

text \<open>The loop in the middle of a name of the given size, with \<open>i > 0\<close>.\<close>

lemma normalize_loop_middle:
  "0 < i \<Longrightarrow> i + length cs = sz \<Longrightarrow>
   normalize_loop sz i pd cs out =
     (if (\<forall>c \<in> set (map tolower cs). is_alnum c \<or> c = dot) \<and> (cs \<noteq> [] \<longrightarrow> last (map tolower cs) \<noteq> dot)
         \<and> (pd \<longrightarrow> cs = [] \<or> hd (map tolower cs) \<noteq> dot) \<and> no_double_dot (map tolower cs)
      then Some (out @ map tolower cs) else None)"
proof (induction cs arbitrary: i pd out)
  case Nil
  then show ?case by simp
next
  case (Cons c cs)
  then have IH: "normalize_loop sz (Suc i) pd' cs out' =
     (if (\<forall>c \<in> set (map tolower cs). is_alnum c \<or> c = dot) \<and> (cs \<noteq> [] \<longrightarrow> last (map tolower cs) \<noteq> dot)
         \<and> (pd' \<longrightarrow> cs = [] \<or> hd (map tolower cs) \<noteq> dot) \<and> no_double_dot (map tolower cs)
      then Some (out' @ map tolower cs) else None)" for pd' out' by simp
  have e: "Suc i = sz \<longleftrightarrow> cs = []" using Cons.prems by auto
  show ?case
  proof (cases "is_alnum (tolower c)")
    case True
    then have "tolower c \<noteq> dot" by auto
    with True show ?thesis by (simp add: Let_def IH no_double_dot_Cons)
  next
    case False
    with Cons.prems(1) e show ?thesis
      by (auto simp: Let_def IH no_double_dot_Cons)
  qed
qed

lemma normalizeName_spec:
  "normalizeName raw = (if well_formed_name (map tolower raw) then Some (map tolower raw) else None)"
proof (cases raw)
  case Nil
  then show ?thesis by (simp add: normalizeName_def well_formed_name_def qxrp_const)
next
  case (Cons c cs)
  have l: "normalize_loop (length raw) 0 False raw [] =
     (if (\<forall>c \<in> set (map tolower raw). is_alnum c \<or> c = dot) \<and> hd (map tolower raw) \<noteq> dot
         \<and> last (map tolower raw) \<noteq> dot \<and> no_double_dot (map tolower raw)
      then Some (map tolower raw) else None)"
  proof (cases "is_alnum (tolower c)")
    case True
    then have "tolower c \<noteq> dot" by auto
    with True show ?thesis
      using normalize_loop_middle [of 1 cs "length raw" False "[tolower c]"]
      by (auto simp: Cons Let_def no_double_dot_Cons)
  next
    case False
    then show ?thesis by (auto simp: Cons Let_def)
  qed
  then show ?thesis using Cons
    by (auto simp: normalizeName_def well_formed_name_def simp del: normalize_loop.simps)
qed

lemma tolower_fixed: "is_alnum c \<or> c = dot \<Longrightarrow> tolower c = c"
  by (auto simp: tolower_def is_alnum_def dot_def word_le_nat_alt)

lemma normalizeName_idem: "normalizeName raw = Some name \<Longrightarrow> normalizeName name = Some name"
proof -
  assume "normalizeName raw = Some name"
  then have w: "well_formed_name name" by (auto simp: normalizeName_spec split: if_splits)
  then have "map tolower name = name"
    by (intro map_idI) (auto simp: well_formed_name_def intro: tolower_fixed)
  with w show ?thesis by (simp add: normalizeName_spec)
qed

text \<open>\<open>preflight\<close> accepts exactly the well-formed names, so every name in the ledger is one.\<close>

lemma NameSet_preflight_iff:
  "NameSet_preflight e raw = tesSUCCESS \<longleftrightarrow>
     e_featureAccountNames e \<and> (\<exists>n. raw = Some n \<and> well_formed_name n \<and> normalizeName n = Some n)"
  by (auto simp: NameSet_preflight_def normalizeName_spec split: option.splits if_splits)

subsection \<open>Setting a name\<close>

definition new_name :: "tx \<Rightarrow> blob \<Rightarrow> u64 \<Rightarrow> u32 \<Rightarrow> account_name" where
  "new_name t name page seq =
     \<lparr>nm_Name = name, nm_Account = tx_Account t, nm_BondedAmount = kNAME_BOND_DROPS,
      nm_NameStatus = kNAME_STATUS_ACTIVE, nm_UnbondingStartLedger = None,
      nm_OwnerNode = page, nm_PreviousTxnID = tx_ID t, nm_PreviousTxnLgrSeq = seq\<rparr>"

definition named_account :: "blob \<Rightarrow> account_root \<Rightarrow> account_root" where
  "named_account name a = a\<lparr>acc_Balance := acc_Balance a - kNAME_BOND_DROPS,
     acc_AccountName := Some (KAccountName name), acc_OwnerCount := acc_OwnerCount a + 1\<rparr>"

lemma NameSet_successE:
  assumes "NameSet_doApply e t name v = Inr (tesSUCCESS, v')"
  obtains acct page v1 where "read_account v (tx_Account t) = Some acct" "kNAME_BOND_DROPS \<le> acc_Balance acct"
    "ownerDirInsert e v (tx_Account t) (KAccountName name) = Inr (Some page, v1)"
    "find_sle v (KAccountName name) = None"
    "v' = put (put v1 (KAccountName name) (SName (new_name t name page (v_seq v))))
            (KAccount (tx_Account t)) (SAccount (named_account name acct))"
proof -
  from assms obtain acct page v1 where
    a: "read_account v (tx_Account t) = Some acct" "kNAME_BOND_DROPS \<le> acc_Balance acct"
    and d: "ownerDirInsert e v (tx_Account t) (KAccountName name) = Inr (Some page, v1)"
    by (auto simp: NameSet_doApply_def Let_def split: sum.splits option.splits if_splits)
  note f = dir_frame_simps [OF ownerDirInsert_frame [OF d]]
  from assms a d f show thesis
    by (intro that [OF a d])
      (auto simp: NameSet_doApply_def Let_def put_defs new_name_def named_account_def
        split: sum.splits dest!: insert_sle_InrD)
qed

lemma NameSet_conserves:
  assumes "NameSet_doApply e t name v = Inr (tesSUCCESS, v')" "sound_view v"
  shows "conserves v v'"
  using assms(1)
proof (cases rule: NameSet_successE)
  case (1 acct page v1)
  note f = dir_frame_simps [OF ownerDirInsert_frame [OF 1(3)]]
  have c1: "conserves v v1" using 1(3) assms(2) by (rule ownerDirInsert_conserves)
  have a: "find_sle v1 (KAccount (tx_Account t)) = Some (SAccount acct)" "find_sle v1 (KAccountName name) = None"
    using 1(1,4) f by (auto dest: read_SomeD)
  have w: "sle_drops (SAccount (named_account name acct)) + sle_drops (SName (new_name t name page (v_seq v)))
      = sle_drops (SAccount acct)" "0 \<le> sle_drops (SName (new_name t name page (v_seq v)))"
    by (simp_all add: named_account_def new_name_def qxrp_const)
  have wf: "wf_view v1" "solvent v1" using c1 by (auto simp: conserves_def sound_view_def)
  have "held v' = held v1"
    unfolding 1(5) using wf a w(1) by (simp add: held_put)
  moreover have "solvent v'" unfolding 1(5) using wf w(2) 1(2)
    by (intro solvent_put) (simp_all add: named_account_def)
  ultimately show ?thesis using c1 wf
    by (simp add: conserves_def sound_view_def supply_gap_def 1(5))
qed

text \<open>
  The reverse pointer. Every name entry belongs to an existing account that points back at it, is
  stored under its own name, and holds exactly the name bond.
\<close>

definition name_ok :: "view \<Rightarrow> blob \<Rightarrow> account_name \<Rightarrow> bool" where
  "name_ok v s n \<longleftrightarrow> nm_Name n = s \<and> nm_BondedAmount n = kNAME_BOND_DROPS
     \<and> (nm_NameStatus n = kNAME_STATUS_ACTIVE \<or> nm_NameStatus n = kNAME_STATUS_RELEASING)
     \<and> (\<exists>a. read_account v (nm_Account n) = Some a \<and> acc_AccountName a = Some (KAccountName s))"

definition names_ok :: "view \<Rightarrow> bool" where
  "names_ok v \<longleftrightarrow> (\<forall>s n. read_name v (KAccountName s) = Some n \<longrightarrow> name_ok v s n)"

lemma one_name_per_account:
  assumes "names_ok v" "read_name v (KAccountName s) = Some n" "read_name v (KAccountName s') = Some n'"
    and "nm_Account n = nm_Account n'"
  shows "s = s'"
proof -
  have "name_ok v s n" "name_ok v s' n'" using assms(1-3) by (simp_all add: names_ok_def)
  with assms(4) show ?thesis by (auto simp: name_ok_def)
qed

lemma read_name_frame: "dir_frame (KOwnerDir a) v v' \<Longrightarrow> read_name v' (KAccountName s) = read_name v (KAccountName s)"
  by (simp add: read_name_def dir_frame_simps)

lemma NameSet_names_ok:
  assumes "NameSet_doApply e t name v = Inr (tesSUCCESS, v')" "NameSet_preclaim t name v = tesSUCCESS" "names_ok v"
  shows "names_ok v'"
  using assms(1)
proof (cases rule: NameSet_successE)
  case (1 acct page v1)
  note f = ownerDirInsert_frame [OF 1(3)]
  have none: "acc_AccountName acct = None"
    using assms(2) 1(1) by (auto simp: NameSet_preclaim_def split: if_splits)
  show ?thesis unfolding names_ok_def
  proof (intro allI impI)
    fix s n assume n: "read_name v' (KAccountName s) = Some n"
    show "name_ok v' s n"
    proof (cases "s = name")
      case True
      with n have "n = new_name t name page (v_seq v)" by (simp add: 1(5))
      with True show ?thesis by (simp add: 1(5) name_ok_def new_name_def named_account_def)
    next
      case False
      with n have "read_name v (KAccountName s) = Some n" by (simp add: 1(5) read_name_frame [OF f])
      with assms(3) have ok: "name_ok v s n" by (simp add: names_ok_def)
      with none 1(1) have "nm_Account n \<noteq> tx_Account t" by (auto simp: name_ok_def)
      with ok show ?thesis by (auto simp: name_ok_def 1(5) dir_frame_simps [OF f])
    qed
  qed
qed

subsection \<open>Giving a name up\<close>

lemma NameUnbond_successE:
  assumes "NameUnbond_doApply t raw v = Inr (tesSUCCESS, v')"
  obtains kl n where "resolveNameKeylet t raw v = Some kl" "read_name v kl = Some n"
    "v' = put v kl (SName (n\<lparr>nm_NameStatus := kNAME_STATUS_RELEASING,
        nm_UnbondingStartLedger := Some (v_seq v), nm_PreviousTxnID := tx_ID t,
        nm_PreviousTxnLgrSeq := v_seq v\<rparr>))"
  using assms by (auto simp: NameUnbond_doApply_def split: option.splits)

lemma NameUnbond_conserves:
  assumes "NameUnbond_doApply t raw v = Inr (tesSUCCESS, v')" "sound_view v"
  shows "conserves v v'"
  using assms(1)
proof (cases rule: NameUnbond_successE)
  case (1 kl n)
  then have "find_sle v kl = Some (SName n)" by (auto dest: read_SomeD)
  with assms(2) show ?thesis unfolding 1(3)
    by (intro conserves_same) (auto simp: sound_view_def dest: solventD)
qed

lemma NameUnbond_names_ok:
  assumes "NameUnbond_doApply t raw v = Inr (tesSUCCESS, v')" "names_ok v"
  shows "names_ok v'"
  using assms(1)
proof (cases rule: NameUnbond_successE)
  case (1 kl' n)
  have acc: "read_account v' a = read_account v a" for a
    using read_SomeD(4) [OF 1(2)] by (simp add: 1(3) read_account_def)
  show ?thesis unfolding names_ok_def
  proof (intro allI impI)
    fix s m assume m: "read_name v' (KAccountName s) = Some m"
    show "name_ok v' s m"
    proof (cases "kl' = KAccountName s")
      case True
      with 1(2) assms(2) have "name_ok v s n" by (simp add: names_ok_def)
      moreover from m True have "nm_Name m = nm_Name n" "nm_BondedAmount m = nm_BondedAmount n"
        "nm_Account m = nm_Account n" "nm_NameStatus m = kNAME_STATUS_RELEASING" by (auto simp: 1(3))
      ultimately show ?thesis by (simp add: name_ok_def acc)
    next
      case False
      with m have "read_name v (KAccountName s) = Some m" by (simp add: 1(3))
      with assms(2) have "name_ok v s m" by (simp add: names_ok_def)
      then show ?thesis by (simp add: name_ok_def acc)
    qed
  qed
qed

subsection \<open>Releasing a name\<close>

definition unnamed_account :: "account_root \<Rightarrow> account_name \<Rightarrow> key \<Rightarrow> account_root" where
  "unnamed_account a n k = a\<lparr>acc_Balance := acc_Balance a + nm_BondedAmount n,
     acc_AccountName := (if acc_AccountName a = Some k then None else acc_AccountName a),
     acc_OwnerCount := (if acc_OwnerCount a > 0 then acc_OwnerCount a - 1 else acc_OwnerCount a)\<rparr>"

lemma NameRelease_successE:
  assumes "NameRelease_doApply name v = Inr (tesSUCCESS, v')" "read_name v (KAccountName name) = Some n"
    and "0 \<le> nm_BondedAmount n"
  obtains acct v1 where "read_account v (nm_Account n) = Some acct"
    "ownerDirRemove v (nm_Account n) (nm_OwnerNode n) (KAccountName name) = Inr (True, v1)"
    "v' = del (put v1 (KAccount (nm_Account n)) (SAccount (unnamed_account acct n (KAccountName name))))
            (KAccountName name)"
proof -
  from assms(1,2) obtain acct where a: "read_account v (nm_Account n) = Some acct"
    by (auto simp: NameRelease_doApply_def Let_def split: option.splits)
  from assms(1,2) a obtain v1 where
    d: "ownerDirRemove v (nm_Account n) (nm_OwnerNode n) (KAccountName name) = Inr (True, v1)"
    by (auto simp: NameRelease_doApply_def Let_def split: sum.splits bool.splits)
  have z: "nm_BondedAmount n = 0" if "\<not> 0 < nm_BondedAmount n" using assms(3) that by simp
  from assms(1,2) a d have "v' = del (put v1 (KAccount (nm_Account n)) (SAccount (unnamed_account acct n (KAccountName name))))
            (KAccountName name)"
    by (cases "0 < nm_BondedAmount n"; cases "acc_AccountName acct = Some (KAccountName name)"; cases "acc_OwnerCount acct > 0")
      (simp_all add: NameRelease_doApply_def Let_def put_defs unnamed_account_def z)
  with a d show thesis by (rule that)
qed

lemma NameRelease_conserves:
  assumes "NameRelease_doApply name v = Inr (tesSUCCESS, v')" "sound_view v"
  shows "conserves v v'"
proof -
  from assms(1) obtain n where n: "read_name v (KAccountName name) = Some n"
    by (auto simp: NameRelease_doApply_def split: option.splits)
  then have fn: "find_sle v (KAccountName name) = Some (SName n)" by (rule read_SomeD)
  with assms(2) have nn: "0 \<le> nm_BondedAmount n" by (auto simp: sound_view_def dest: solventD)
  from assms(1) n nn show ?thesis
  proof (cases rule: NameRelease_successE)
    case (1 acct v1)
    note f = dir_frame_simps [OF ownerDirRemove_frame [OF 1(2)]]
    have c: "conserves v v1" using 1(2) assms(2) by (rule ownerDirRemove_conserves)
    have a: "find_sle v1 (KAccount (nm_Account n)) = Some (SAccount acct)" "find_sle v1 (KAccountName name) = Some (SName n)"
      using 1(1) fn f by (auto dest: read_SomeD)
    have wf: "wf_view v1" "solvent v1" using c by (auto simp: conserves_def sound_view_def)
    have bal: "0 \<le> acc_Balance acct" using wf(2) a(1) by (auto dest: solventD)
    have "held v' = held v1"
      unfolding 1(3) using wf a by (simp add: held_put held_del unnamed_account_def)
    moreover have "solvent v'" unfolding 1(3) using wf bal nn
      by (intro solvent_del solvent_put) (simp_all add: unnamed_account_def)
    ultimately show ?thesis using c wf by (simp add: conserves_def sound_view_def supply_gap_def 1(3))
  qed
qed

text \<open>
  Release pays the bond back to the owner, removes the name and the pointer to it, and takes the
  index out of the owner's directory.
\<close>

lemma NameRelease_result:
  assumes "NameRelease_doApply name v = Inr (tesSUCCESS, v')" "read_name v (KAccountName name) = Some n"
    and "names_ok v" "owner_dir_ok v (nm_Account n)"
  shows "read_name v' (KAccountName name) = None
    \<and> (\<exists>a a'. read_account v (nm_Account n) = Some a \<and> read_account v' (nm_Account n) = Some a'
         \<and> acc_Balance a' = acc_Balance a + kNAME_BOND_DROPS \<and> acc_AccountName a' = None)
    \<and> owner_entries v' (nm_Account n) = owner_entries v (nm_Account n) - {(nm_OwnerNode n, KAccountName name)}"
proof -
  have ok: "name_ok v name n" using assms(2,3) by (simp add: names_ok_def)
  then have b: "nm_BondedAmount n = kNAME_BOND_DROPS" by (simp add: name_ok_def)
  then have "0 \<le> nm_BondedAmount n" by (simp add: qxrp_const)
  with assms(1,2) show ?thesis
  proof (cases rule: NameRelease_successE)
    case (1 acct v1)
    have "acc_AccountName acct = Some (KAccountName name)" using ok 1(1) by (auto simp: name_ok_def)
    with od.rm_true [OF 1(2) assms(4)] 1 b show ?thesis by (simp add: unnamed_account_def)
  qed
qed

lemma NameRelease_names_ok:
  assumes "NameRelease_doApply name v = Inr (tesSUCCESS, v')" "names_ok v"
  shows "names_ok v'"
proof -
  from assms(1) obtain n where n: "read_name v (KAccountName name) = Some n"
    by (auto simp: NameRelease_doApply_def split: option.splits)
  have ok: "name_ok v name n" using n assms(2) by (simp add: names_ok_def)
  then have "0 \<le> nm_BondedAmount n" by (simp add: name_ok_def qxrp_const)
  with assms(1) n show ?thesis
  proof (cases rule: NameRelease_successE)
    case (1 acct v1)
    note f = ownerDirRemove_frame [OF 1(2)]
    show ?thesis unfolding names_ok_def
    proof (intro allI impI)
      fix s m assume m: "read_name v' (KAccountName s) = Some m"
      then have s: "s \<noteq> name" and m': "read_name v (KAccountName s) = Some m"
        by (auto simp: 1(3) read_name_frame [OF f] split: if_splits)
      then have mk: "name_ok v s m" using assms(2) by (simp add: names_ok_def)
      then have "nm_Account m \<noteq> nm_Account n"
        using one_name_per_account [OF assms(2) m' n] s by auto
      with mk show "name_ok v' s m" by (auto simp: name_ok_def 1(3) dir_frame_simps [OF f])
    qed
  qed
qed

interpretation nl: ledger_lock kNAME_UNBOND_LEDGERS name_too_soon
  by unfold_locales (simp add: name_too_soon_def)

lemma NameRelease_locked:
  assumes "NameRelease_preclaim name v = tesSUCCESS" "read_name v (KAccountName name) = Some n"
    and "nm_UnbondingStartLedger n = Some start" "unat start + 172800 < 2 ^ 32"
  shows "unat start + 172800 \<le> unat (v_seq v)"
proof -
  have "\<not> name_too_soon start (v_seq v)"
    using assms(1-3) by (auto simp: NameRelease_preclaim_def split: if_splits)
  from nl.open_after [OF this] assms(4) show ?thesis by (simp add: qxrp_const)
qed

end
