(* ===== verification/Transactor.thy ===== *)
theory Transactor
  imports Invariants Rewards Governance Names
begin

section \<open>Applying a transaction\<close>

text \<open>
  The path of one transaction through \<^verbatim>\<open>src/libxrpl/tx/Transactor.cpp\<close> and \<^verbatim>\<open>applySteps.cpp\<close>: the checks
  that need no ledger (\<open>preflight\<close>), those that read it (\<open>preclaim\<close>), and the application, which takes
  the fee and the sequence number, runs the transactor, falls back to a bare fee claim, checks the
  invariants and finally splits the fee. Transactions are single-signed, not delegated and not
  part of a batch; metadata and the threading of \<^verbatim>\<open>PreviousTxnID\<close> are left out.
\<close>

subsection \<open>Parameters of an application\<close>

record apply_params =
  ap_open :: bool                 \<comment> \<open>the view is an open ledger\<close>
  ap_retry :: bool                \<comment> \<open>\<^verbatim>\<open>TapRetry\<close>\<close>
  ap_failHard :: bool             \<comment> \<open>\<^verbatim>\<open>TapFailHard\<close>\<close>
  ap_dryRun :: bool               \<comment> \<open>\<^verbatim>\<open>TapDryRun\<close>\<close>
  ap_networkID :: u32
  ap_minimumFee :: drops          \<comment> \<open>the base fee scaled by the load\<close>
  ap_sigGood :: "tx \<Rightarrow> bool"      \<comment> \<open>the cryptographic check of the signature\<close>
  ap_txExists :: "u256 \<Rightarrow> bool"

subsection \<open>Checks without a ledger\<close>

definition tfInnerBatchTxn :: u32 where "tfInnerBatchTxn = 0x40000000"
definition tfUniversalMask :: u32 where "tfUniversalMask = 0x3FFFFFFF"

definition preflight0 :: "apply_params \<Rightarrow> tx \<Rightarrow> ter" where
  "preflight0 ap t =
     (if ap_networkID ap \<le> 1024 \<and> tx_NetworkID t \<noteq> None then telNETWORK_ID_MAKES_TX_NON_CANONICAL
      else if \<not> ap_networkID ap \<le> 1024 \<and> tx_NetworkID t = None then telREQUIRES_NETWORK_ID
      else if \<not> ap_networkID ap \<le> 1024 \<and> tx_NetworkID t \<noteq> Some (ap_networkID ap) then telWRONG_NETWORK
      else if tx_ID t = 0 then temINVALID
      else if and (tx_Flags t) tfUniversalMask \<noteq> 0 then temINVALID_FLAG
      else tesSUCCESS)"

datatype SeqProxy = SeqNo u32 | TicketNo u32

definition getSeqProxy :: "tx \<Rightarrow> SeqProxy" where
  "getSeqProxy t =
     (if tx_Sequence t \<noteq> 0 then SeqNo (tx_Sequence t)
      else case tx_TicketSequence t of None \<Rightarrow> SeqNo (tx_Sequence t) | Some n \<Rightarrow> TicketNo n)"

fun isTicket :: "SeqProxy \<Rightarrow> bool" where
  "isTicket (TicketNo _) = True"
| "isTicket (SeqNo _) = False"

text \<open>No modelled transaction is the genesis bootstrap payment, the one that may carry a classical key.\<close>

definition preflightCheckSigningKey :: "tx \<Rightarrow> ter" where
  "preflightCheckSigningKey t =
     (if tx_SigningPubKey t \<noteq> [] \<and> \<not> isFalconSigningKey (tx_SigningPubKey t) then temBAD_SIGNATURE
      else tesSUCCESS)"

definition preflight1 :: "apply_params \<Rightarrow> tx \<Rightarrow> ter" where
  "preflight1 ap t =
     (let ret = preflight0 ap t in
      if ret \<noteq> tesSUCCESS then ret
      else if tx_Account t = 0 then temBAD_SRC_ACCOUNT
      else if tx_Fee t < 0 \<or> \<not> tx_Fee t \<le> kINITIAL_XRP then temBAD_FEE
      else let ret2 = preflightCheckSigningKey t in
      if ret2 \<noteq> tesSUCCESS then ret2
      else if isTicket (getSeqProxy t) \<and> tx_AccountTxnID t \<noteq> None then temINVALID
      else if and (tx_Flags t) tfInnerBatchTxn \<noteq> 0 then temINVALID_FLAG
      else tesSUCCESS)"

definition preflight2 :: "apply_params \<Rightarrow> tx \<Rightarrow> ter" where
  "preflight2 ap t =
     (if ap_dryRun ap then (if getL (tx_TxnSignature t) \<noteq> [] then temINVALID else tesSUCCESS)
      else if \<not> ap_sigGood ap t then temINVALID
      else tesSUCCESS)"

text \<open>The dispatch on the transaction type; absent required fields do not pass \<open>preflight\<close>.\<close>

definition tx_preflight :: "env \<Rightarrow> tx \<Rightarrow> ter" where
  "tx_preflight e t = (case tx_body t of
       ValidatorRegister pk ck \<Rightarrow> ValidatorRegister_preflight e pk ck
     | ValidatorBond ck amount \<Rightarrow> ValidatorBond_preflight e ck amount
     | ValidatorUnbond ck \<Rightarrow> ValidatorUnbond_preflight e ck
     | ReleaseBond target \<Rightarrow> ReleaseBond_preflight e
     | ValidatorSlash target offense e1 e2 \<Rightarrow> ValidatorSlash_preflight e offense e1 e2
     | ClaimReward ck \<Rightarrow> ClaimReward_preflight e ck
     | ClaimLPReward vault \<Rightarrow> ClaimLPReward_preflight e vault
     | ClaimAmmLpReward a1 a2 \<Rightarrow> ClaimAmmLpReward_preflight e a1 a2
     | GovernanceProposal ck ty val \<Rightarrow> GovernanceProposal_preflight e ck ty val
     | GovernanceVote ck k vote \<Rightarrow> GovernanceVote_preflight e ck vote
     | NameSet name \<Rightarrow> NameSet_preflight e name
     | NameUnbond name \<Rightarrow> NameUnbond_preflight e name
     | NameRelease name \<Rightarrow> NameRelease_preflight e name)"

definition tx_feature :: "env \<Rightarrow> tx \<Rightarrow> bool" where
  "tx_feature e t = (case tx_body t of
       NameSet _ \<Rightarrow> e_featureAccountNames e
     | NameUnbond _ \<Rightarrow> e_featureAccountNames e
     | NameRelease _ \<Rightarrow> e_featureAccountNames e
     | _ \<Rightarrow> e_featureProofOfParticipation e)"

definition invokePreflight :: "env \<Rightarrow> apply_params \<Rightarrow> tx \<Rightarrow> ter" where
  "invokePreflight e ap t =
     (if \<not> tx_feature e t then temDISABLED
      else let r1 = preflight1 ap t in if r1 \<noteq> tesSUCCESS then r1
      else let r2 = tx_preflight e t in if r2 \<noteq> tesSUCCESS then r2
      else preflight2 ap t)"

subsection \<open>Checks against the ledger\<close>

definition checkSeqProxy :: "tx \<Rightarrow> view \<Rightarrow> ter" where
  "checkSeqProxy t v =
     (case read_account v (tx_Account t) of
        None \<Rightarrow> terNO_ACCOUNT
      | Some sle \<Rightarrow>
          (case getSeqProxy t of
             SeqNo n \<Rightarrow>
               if tx_TicketSequence t \<noteq> None then temSEQ_AND_TICKET
               else if n \<noteq> acc_Sequence sle
                    then (if acc_Sequence sle < n then terPRE_SEQ else tefPAST_SEQ)
                    else tesSUCCESS
           | TicketNo n \<Rightarrow>
               if acc_Sequence sle \<le> n then terPRE_TICKET
               else if read_ticket v (KTicket (tx_Account t) n) = None then tefNO_TICKET
               else tesSUCCESS))"

definition checkPriorTxAndLastLedger :: "apply_params \<Rightarrow> tx \<Rightarrow> view \<Rightarrow> ter" where
  "checkPriorTxAndLastLedger ap t v =
     (case read_account v (tx_Account t) of
        None \<Rightarrow> terNO_ACCOUNT
      | Some sle \<Rightarrow>
          if tx_AccountTxnID t \<noteq> None \<and> getU (acc_AccountTxnID sle) \<noteq> getU (tx_AccountTxnID t) then tefWRONG_PRIOR
          else if tx_LastLedgerSequence t \<noteq> None \<and> v_seq v > getU (tx_LastLedgerSequence t) then tefMAX_LEDGER
          else if ap_txExists ap (tx_ID t) then tefALREADY
          else tesSUCCESS)"

definition lsfDisableMaster :: u32 where "lsfDisableMaster = 0x00100000"

definition checkSingleSign :: "account \<Rightarrow> account \<Rightarrow> account_root \<Rightarrow> ter" where
  "checkSingleSign idSigner idAccount sleAccount =
     (let isMasterDisabled = (and (acc_Flags sleAccount) lsfDisableMaster \<noteq> 0) in
      if acc_RegularKey sleAccount = Some idSigner then tesSUCCESS
      else if \<not> isMasterDisabled \<and> idAccount = idSigner then tesSUCCESS
      else if isMasterDisabled \<and> idAccount = idSigner then tefMASTER_DISABLED
      else tefBAD_AUTH)"

definition checkSign :: "env \<Rightarrow> apply_params \<Rightarrow> tx \<Rightarrow> view \<Rightarrow> ter" where
  "checkSign e ap t v =
     (if ap_dryRun ap \<and> tx_SigningPubKey t = [] then tesSUCCESS
      else if \<not> isFalconSigningKey (tx_SigningPubKey t) then tefBAD_AUTH
      else case read_account v (tx_Account t) of
             None \<Rightarrow> terNO_ACCOUNT
           | Some sleAccount \<Rightarrow>
               checkSingleSign (e_calcAccountID e (tx_SigningPubKey t)) (tx_Account t) sleAccount)"

definition checkFee :: "apply_params \<Rightarrow> tx \<Rightarrow> view \<Rightarrow> ter" where
  "checkFee ap t v =
     (let feePaid = tx_Fee t in
      if \<not> feePaid \<le> kINITIAL_XRP \<or> feePaid < 0 then temBAD_FEE
      else if ap_open ap \<and> feePaid < ap_minimumFee ap then telINSUF_FEE_P
      else if feePaid = 0 then tesSUCCESS
      else case read_account v (tx_Account t) of
             None \<Rightarrow> terNO_ACCOUNT
           | Some sle \<Rightarrow>
               if acc_Balance sle < feePaid
               then (if acc_Balance sle > 0 \<and> \<not> ap_open ap then tecINSUFF_FEE else terINSUF_FEE_B)
               else tesSUCCESS)"

definition tx_preclaim :: "env \<Rightarrow> tx \<Rightarrow> view \<Rightarrow> ter" where
  "tx_preclaim e t v = (case tx_body t of
       ValidatorRegister pk ck \<Rightarrow> ValidatorRegister_preclaim e ck v
     | ValidatorBond ck amount \<Rightarrow> ValidatorBond_preclaim e t ck v
     | ValidatorUnbond ck \<Rightarrow> ValidatorUnbond_preclaim e t ck v
     | ReleaseBond target \<Rightarrow> ReleaseBond_preclaim target v
     | ValidatorSlash target offense e1 e2 \<Rightarrow> ValidatorSlash_preclaim e target offense e1 e2 v
     | ClaimReward ck \<Rightarrow> ClaimReward_preclaim e t ck v
     | ClaimLPReward vault \<Rightarrow> (case vault of Some k \<Rightarrow> ClaimLPReward_preclaim t k v | None \<Rightarrow> temMALFORMED)
     | ClaimAmmLpReward a1 a2 \<Rightarrow>
         (case (a1, a2) of (Some x, Some y) \<Rightarrow> ClaimAmmLpReward_preclaim e t x y v | _ \<Rightarrow> temMALFORMED)
     | GovernanceProposal ck ty val \<Rightarrow> GovernanceProposal_preclaim e ck v
     | GovernanceVote ck k vote \<Rightarrow> GovernanceVote_preclaim e t ck k v
     | NameSet name \<Rightarrow> NameSet_preclaim t (getL name) v
     | NameUnbond name \<Rightarrow> NameUnbond_preclaim t name v
     | NameRelease name \<Rightarrow> NameRelease_preclaim (getL name) v)"

definition invokePreclaim :: "env \<Rightarrow> apply_params \<Rightarrow> tx \<Rightarrow> view \<Rightarrow> ter" where
  "invokePreclaim e ap t v =
     (let r1 = checkSeqProxy t v in if r1 \<noteq> tesSUCCESS then r1
      else let r2 = checkPriorTxAndLastLedger ap t v in if r2 \<noteq> tesSUCCESS then r2
      else let r3 = checkSign e ap t v in if r3 \<noteq> tesSUCCESS then r3
      else let r4 = checkFee ap t v in if r4 \<noteq> tesSUCCESS then r4
      else tx_preclaim e t v)"

subsection \<open>Sequence number, ticket and fee\<close>

definition confineOwnerCount :: "u32 \<Rightarrow> int \<Rightarrow> u32" where
  "confineOwnerCount current adjustment =
     (let adjusted = current + word_of_int adjustment in
      if adjustment > 0 then (if adjusted < current then - 1 else adjusted)
      else (if adjusted > current then 0 else adjusted))"

definition ticketDelete :: "view \<Rightarrow> account \<Rightarrow> key \<Rightarrow> (ter \<times> view) result" where
  "ticketDelete v account ticketIndex =
     (case read_ticket v ticketIndex of
        None \<Rightarrow> Inr (tefBAD_LEDGER, v)
      | Some sleTicket \<Rightarrow>
          (case dirRemove v (KOwnerDir account) (tk_OwnerNode sleTicket) ticketIndex True of
             Inl ex \<Rightarrow> Inl ex
           | Inr (False, v1) \<Rightarrow> Inr (tefBAD_LEDGER, v1)
           | Inr (True, v1) \<Rightarrow>
               (case read_account v1 account of
                  None \<Rightarrow> Inr (tefBAD_LEDGER, v1)
                | Some sleAccount \<Rightarrow>
                    (case acc_TicketCount sleAccount of
                       None \<Rightarrow> Inr (tefBAD_LEDGER, v1)
                     | Some ticketCount \<Rightarrow>
                         Inr (tesSUCCESS, del (put_account v1 account
                           (sleAccount\<lparr>acc_TicketCount := if ticketCount = 1 then None else Some (ticketCount - 1),
                              acc_OwnerCount := confineOwnerCount (acc_OwnerCount sleAccount) (- 1)\<rparr>)) ticketIndex)))))"

text \<open>
  The account entry is shared: what \<open>consumeSeqProxy\<close> writes into it is seen by the code after it.
\<close>

definition consumeSeqProxy :: "tx \<Rightarrow> account_root \<Rightarrow> view \<Rightarrow> (ter \<times> view) result" where
  "consumeSeqProxy t sleAccount v =
     (case getSeqProxy t of
        SeqNo n \<Rightarrow> Inr (tesSUCCESS, put_account v (tx_Account t) (sleAccount\<lparr>acc_Sequence := n + 1\<rparr>))
      | TicketNo n \<Rightarrow> ticketDelete v (tx_Account t) (KTicket (tx_Account t) n))"

definition payFee :: "tx \<Rightarrow> view \<Rightarrow> ter \<times> view" where
  "payFee t v =
     (case read_account v (tx_Account t) of
        None \<Rightarrow> (tefINTERNAL, v)
      | Some sle \<Rightarrow> (tesSUCCESS, put_account v (tx_Account t) (sle\<lparr>acc_Balance := acc_Balance sle - tx_Fee t\<rparr>)))"

definition tx_doApply :: "env \<Rightarrow> tx \<Rightarrow> view \<Rightarrow> applied" where
  "tx_doApply e t v = (case tx_body t of
       ValidatorRegister pk ck \<Rightarrow> ValidatorRegister_doApply e t pk ck v
     | ValidatorBond ck amount \<Rightarrow> ValidatorBond_doApply e t ck amount v
     | ValidatorUnbond ck \<Rightarrow> ValidatorUnbond_doApply e t ck v
     | ReleaseBond target \<Rightarrow> ReleaseBond_doApply target v
     | ValidatorSlash target offense e1 e2 \<Rightarrow> ValidatorSlash_doApply e t target offense e1 e2 v
     | ClaimReward ck \<Rightarrow> ClaimReward_doApply e t ck v
     | ClaimLPReward vault \<Rightarrow>
         (case vault of Some k \<Rightarrow> ClaimLPReward_doApply e t k v | None \<Rightarrow> Inr (temMALFORMED, v))
     | ClaimAmmLpReward a1 a2 \<Rightarrow>
         (case (a1, a2) of (Some x, Some y) \<Rightarrow> ClaimAmmLpReward_doApply e t x y v | _ \<Rightarrow> Inr (temMALFORMED, v))
     | GovernanceProposal ck ty val \<Rightarrow> GovernanceProposal_doApply e t ty val v
     | GovernanceVote ck k vote \<Rightarrow> GovernanceVote_doApply e t ck k vote v
     | NameSet name \<Rightarrow> NameSet_doApply e t (getL name) v
     | NameUnbond name \<Rightarrow> NameUnbond_doApply t name v
     | NameRelease name \<Rightarrow> NameRelease_doApply (getL name) v)"

text \<open>\<open>Transactor::apply\<close>: first the sequence number or the ticket, the fee and the last transaction, then \<open>doApply\<close>.\<close>

definition charge :: "tx \<Rightarrow> account_root \<Rightarrow> view \<Rightarrow> (ter \<times> view) result" where
  "charge t sle v =
     (case consumeSeqProxy t sle v of
        Inl ex \<Rightarrow> Inl ex
      | Inr (result, v1) \<Rightarrow>
          if result \<noteq> tesSUCCESS then Inr (result, v1)
          else (case payFee t v1 of (result2, v2) \<Rightarrow>
            if result2 \<noteq> tesSUCCESS then Inr (result2, v2)
            else Inr (tesSUCCESS,
              (case read_account v2 (tx_Account t) of
                 Some sle2 \<Rightarrow>
                   put_account v2 (tx_Account t)
                     (if acc_AccountTxnID sle2 \<noteq> None then sle2\<lparr>acc_AccountTxnID := Some (tx_ID t)\<rparr> else sle2)
               | None \<Rightarrow> v2))))"

definition transactor_apply :: "env \<Rightarrow> tx \<Rightarrow> view \<Rightarrow> applied" where
  "transactor_apply e t v =
     (case read_account v (tx_Account t) of
        None \<Rightarrow> tx_doApply e t v
      | Some sle \<Rightarrow>
          (case charge t sle v of
             Inl ex \<Rightarrow> Inl ex
           | Inr (result, v1) \<Rightarrow> if result \<noteq> tesSUCCESS then Inr (result, v1) else tx_doApply e t v1))"

subsection \<open>The fee claim\<close>

definition transactor_reset :: "tx \<Rightarrow> drops \<Rightarrow> view \<Rightarrow> (ter \<times> drops \<times> view) result" where
  "transactor_reset t fee base =
     (case read_account base (tx_Account t) of
        None \<Rightarrow> Inr (tefINTERNAL, 0, base)
      | Some txnAcct \<Rightarrow>
          (let balance = acc_Balance txnAcct;
               fee' = (if fee > balance then balance else fee);
               txnAcct' = txnAcct\<lparr>acc_Balance := balance - fee'\<rparr>
           in case consumeSeqProxy t txnAcct' (put_account base (tx_Account t) txnAcct') of
                Inl ex \<Rightarrow> Inl ex
              | Inr (r, v1) \<Rightarrow> Inr (r, fee', if r = tesSUCCESS then v1 else base)))"

subsection \<open>The application\<close>

definition kOVERSIZE_META_DATA_CAP :: nat where "kOVERSIZE_META_DATA_CAP = 5200"

definition isTecClaimHardFail :: "apply_params \<Rightarrow> ter \<Rightarrow> bool" where
  "isTecClaimHardFail ap r \<longleftrightarrow> isTecClaim r \<and> \<not> ap_retry ap"

text \<open>
  The state of \<open>Transactor::operator()\<close>: the result, whether it will be applied, the fee, the pending
  view. The entries that a failed transaction may still remove (offers, trust lines, expired
  tokens and credentials) are not written by the modelled transactors.
\<close>

type_synonym pending = "ter \<times> bool \<times> drops \<times> view"

definition claim_stage :: "apply_params \<Rightarrow> tx \<Rightarrow> view \<Rightarrow> ter \<times> view \<Rightarrow> pending result" where
  "claim_stage ap t base rv =
     (case rv of (result0, v) \<Rightarrow>
      let fee = tx_Fee t;
          result = (if length (visit_keys base v) > kOVERSIZE_META_DATA_CAP then tecOVERSIZE else result0)
      in if isTecClaim result \<and> ap_failHard ap then Inr (result, False, fee, base)
         else if result = tecOVERSIZE \<or> result = tecEXPIRED \<or> isTecClaimHardFail ap result
         then (case transactor_reset t fee base of
                 Inl ex \<Rightarrow> Inl ex
               | Inr (r, fee', v') \<Rightarrow>
                   let result' = (if r \<noteq> tesSUCCESS then r else result)
                   in Inr (result', isTecClaim result', fee', v'))
         else Inr (result, result0 = tesSUCCESS, fee, v))"

definition invariant_stage :: "tx \<Rightarrow> view \<Rightarrow> pending \<Rightarrow> pending result" where
  "invariant_stage t base p =
     (case p of (result0, applied, fee, v) \<Rightarrow>
      if \<not> applied then Inr p
      else let result = checkInvariants t result0 fee base v in
      if result = tecINVARIANT_FAILED
      then (case transactor_reset t fee base of
              Inl ex \<Rightarrow> Inl ex
            | Inr (r, fee', v') \<Rightarrow>
                let result' = (if r \<noteq> tesSUCCESS then r else result);
                    result'' = (if result' = tesSUCCESS \<or> isTecClaim result'
                                then checkInvariants t result' fee' base v' else result')
                in Inr (result'', isTecClaim result'' \<or> result'' = tesSUCCESS, fee', v'))
      else Inr (result, isTecClaim result \<or> result = tesSUCCESS, fee, v))"

definition commit_stage :: "env \<Rightarrow> apply_params \<Rightarrow> view \<Rightarrow> pending \<Rightarrow> (ter \<times> bool \<times> view) result" where
  "commit_stage e ap base p =
     (case p of (result, applied, fee, v) \<Rightarrow>
      if \<not> applied then Inr (result, False, base)
      else if fee < 0 then Inl (LogicError ''fee charged is negative!'')
      else let v1 = (if \<not> ap_open ap \<and> fee \<noteq> 0 then destroyXRP e v fee else v)
           in if ap_dryRun ap then Inr (result, False, base) else Inr (result, True, v1))"

definition transactor_operator :: "env \<Rightarrow> apply_params \<Rightarrow> tx \<Rightarrow> ter \<Rightarrow> view \<Rightarrow> (ter \<times> bool \<times> view) result" where
  "transactor_operator e ap t preclaimResult base =
     (case (if preclaimResult = tesSUCCESS then transactor_apply e t base else Inr (preclaimResult, base)) of
        Inl ex \<Rightarrow> Inl ex
      | Inr rv \<Rightarrow>
          (case claim_stage ap t base rv of
             Inl ex \<Rightarrow> Inl ex
           | Inr p \<Rightarrow>
               (case invariant_stage t base p of Inl ex \<Rightarrow> Inl ex | Inr q \<Rightarrow> commit_stage e ap base q)))"

text \<open>
  \<open>doApply(preclaim(preflight(tx), view), view)\<close>. An exception during the application is caught and
  leaves the view as it was.
\<close>

definition apply_tx :: "env \<Rightarrow> apply_params \<Rightarrow> tx \<Rightarrow> view \<Rightarrow> ter \<times> bool \<times> view" where
  "apply_tx e ap t v =
     (let pf = invokePreflight e ap t in
      if pf \<noteq> tesSUCCESS then (pf, False, v)
      else let pc = invokePreclaim e ap t v in
      if \<not> (pc = tesSUCCESS \<or> isTecClaimHardFail ap pc) then (pc, False, v)
      else case transactor_operator e ap t pc v of
             Inl ex \<Rightarrow> (tefEXCEPTION, False, v)
           | Inr r \<Rightarrow> r)"

end
