(* ===== verification/TxFrame.thy ===== *)
theory TxFrame
  imports Transactor
begin

section \<open>What a transactor leaves alone\<close>

text \<open>
  A transactor leaves the sequence numbers of all accounts and all tickets alone, which the charge
  before it has used up; and of the header's total only a slashing takes anything.
\<close>

text \<open>The entries that the ledger itself keeps, and that are found by their name alone, hold no drops.\<close>

fun single_key :: "key \<Rightarrow> bool" where
  "single_key KRewardEpoch = True"
| "single_key KGovParams = True"
| "single_key KSkip = True"
| "single_key (KSkipAt _) = True"
| "single_key _ = False"

definition singles_ok :: "view \<Rightarrow> bool" where
  "singles_ok v \<longleftrightarrow> (\<forall>k. single_key k \<longrightarrow> opt_val sle_drops (find_sle v k) = 0)"

lemma singles_okD: "singles_ok v \<Longrightarrow> single_key k \<Longrightarrow> opt_val sle_drops (find_sle v k) = 0"
  by (simp add: singles_ok_def)

lemma singles_ok_cong: "(\<And>k. single_key k \<Longrightarrow> find_sle v' k = find_sle v k) \<Longrightarrow> singles_ok v' = singles_ok v"
  by (simp add: singles_ok_def)

lemma singles_ok_put:
  "singles_ok v \<Longrightarrow> (single_key k \<Longrightarrow> opt_val sle_drops (find_sle v k) = 0 \<Longrightarrow> sle_drops s = 0) \<Longrightarrow> singles_ok (put v k s)"
  by (auto simp: singles_ok_def)

lemma singles_ok_del: "singles_ok v \<Longrightarrow> singles_ok (del v k)"
  by (simp add: singles_ok_def)

definition tx_frame :: "bool \<Rightarrow> view \<Rightarrow> view \<Rightarrow> bool" where
  "tx_frame burns v v' \<longleftrightarrow>
     (\<forall>a. map_option acc_Sequence (read_account v' a) = map_option acc_Sequence (read_account v a))
     \<and> (\<forall>a n. read_ticket v' (KTicket a n) = read_ticket v (KTicket a n))
     \<and> v_drops v' \<le> v_drops v \<and> (\<not> burns \<longrightarrow> v_drops v' = v_drops v)
     \<and> (singles_ok v \<longrightarrow> singles_ok v')"

lemma tx_frame_refl [simp]: "tx_frame b v v"
  by (simp add: tx_frame_def)

lemma tx_frame_trans: "tx_frame b u v \<Longrightarrow> tx_frame b v w \<Longrightarrow> tx_frame b u w"
  by (auto simp: tx_frame_def)

lemma tx_frame_put_account:
  "tx_frame b v w \<Longrightarrow> map_option acc_Sequence (read_account w a) = Some (acc_Sequence x) \<Longrightarrow>
   tx_frame b v (put w (KAccount a) (SAccount x))"
  by (auto simp: tx_frame_def read_ticket_def intro!: singles_ok_put)

text \<open>Entries other than accounts and tickets may be written and erased.\<close>

fun plain_sle :: "sle option \<Rightarrow> bool" where
  "plain_sle (Some (SAccount _)) = False"
| "plain_sle (Some (STicket _)) = False"
| "plain_sle _ = True"

lemma plain_sle_reads:
  assumes "plain_sle (find_sle w k)"
  shows "k = KAccount a \<Longrightarrow> read_account w a = None" "read_ticket w k = None"
  using assms by (auto simp: read_defs split: option.splits sle.splits)

lemma tx_frame_put:
  assumes "tx_frame b v w" "plain_sle (find_sle w k)" "plain_sle (Some s)"
    and "single_key k \<Longrightarrow> opt_val sle_drops (find_sle w k) = 0 \<Longrightarrow> sle_drops s = 0"
  shows "tx_frame b v (put w k s)"
proof -
  have "singles_ok w \<Longrightarrow> singles_ok (put w k s)" using assms(4) by (blast intro: singles_ok_put)
  have "read_account (put w k s) a = read_account w a" for a
    using plain_sle_reads(1) [OF assms(2), of a] assms(3) by (cases s) (auto simp: read_account_def)
  moreover have "read_ticket (put w k s) (KTicket a n) = read_ticket w (KTicket a n)" for a n
    using plain_sle_reads(2) [OF assms(2)] assms(3) by (cases s) (auto simp: read_ticket_def)
  moreover note \<open>singles_ok w \<Longrightarrow> singles_ok (put w k s)\<close>
  ultimately show ?thesis using assms(1) by (simp add: tx_frame_def)
qed

lemma tx_frame_del:
  assumes "tx_frame b v w" "plain_sle (find_sle w k)"
  shows "tx_frame b v (del w k)"
proof -
  have "read_account (del w k) a = read_account w a" for a
    using plain_sle_reads(1) [OF assms(2), of a] by (auto simp: read_account_def)
  moreover have "read_ticket (del w k) (KTicket a n) = read_ticket w (KTicket a n)" for a n
    using plain_sle_reads(2) [OF assms(2)] by (auto simp: read_ticket_def)
  moreover have "singles_ok w \<Longrightarrow> singles_ok (del w k)" by (rule singles_ok_del)
  ultimately show ?thesis using assms(1) by (simp add: tx_frame_def)
qed

lemma tx_frame_dir: "dir_frame (KOwnerDir a) v v' \<Longrightarrow> tx_frame b v v'"
proof -
  assume d: "dir_frame (KOwnerDir a) v v'"
  have "\<not> page_of (KOwnerDir a) k" if "single_key k" for k
    using that by (cases k) (simp_all add: page_of_def keylet_page_def)
  with d have "singles_ok v' = singles_ok v" by (intro singles_ok_cong) (simp add: dir_frame_def)
  with dir_frame_simps [OF d] show "tx_frame b v v'" by (simp add: tx_frame_def read_ticket_def)
qed

lemma tx_frame_account:
  "tx_frame b v w \<Longrightarrow> read_account v a = Some x \<Longrightarrow> map_option acc_Sequence (read_account w a) = Some (acc_Sequence x)"
  by (simp add: tx_frame_def)

lemma plain_sle_bond: "read_bond v i = Some b \<Longrightarrow> plain_sle (find_sle v (KBond i))"
  by (simp add: read_SomeD)

lemmas tx_frame_intros = tx_frame_put tx_frame_del tx_frame_put_account

lemma register_frame:
  assumes "ValidatorRegister_doApply e t pk ck v = Inr (tesSUCCESS, v')"
  shows "tx_frame b v v'"
  using assms
proof (cases rule: ValidatorRegister_successE)
  case (1 page v1 acct)
  note d = ownerDirInsert_frame [OF 1(1)]
  from tx_frame_dir [OF d] have f: "tx_frame b v v1" .
  show ?thesis unfolding 1(4) using 1(2,3) tx_frame_account [OF f 1(3)] dir_frame_simps [OF d]
    by (intro tx_frame_intros f) auto
qed

lemma bond_frame:
  assumes "ValidatorBond_doApply e t ck amount v = Inr (tesSUCCESS, v')"
  shows "tx_frame b v v'"
  using assms
proof (cases rule: ValidatorBond_successE)
  case (1 d acct bond)
  show ?thesis unfolding 1(5) using 1(2) plain_sle_bond [OF 1(4)] by (intro tx_frame_intros) auto
qed

lemma unbond_frame:
  assumes "ValidatorUnbond_doApply e t ck v = Inr (tesSUCCESS, v')"
  shows "tx_frame b v v'"
  using assms
proof (cases rule: ValidatorUnbond_successE)
  case (1 bond)
  show ?thesis unfolding 1(2) using plain_sle_bond [OF 1(1)] by (intro tx_frame_intros) auto
qed

lemma release_frame:
  assumes "ReleaseBond_doApply target v = Inr (tesSUCCESS, v')" "bonds_ok e v"
  shows "tx_frame b v v'"
proof -
  from assms(1) obtain bd where bd: "read_bond v target = Some bd"
    by (auto simp: ReleaseBond_doApply_def split: option.splits)
  with assms(2) have nn: "0 \<le> bond_BondedAmount bd" by (auto simp: bond_ok_def dest: bonds_okD)
  from assms(1) bd nn show ?thesis
  proof (cases rule: ReleaseBond_successE)
    case (1 acct v1 v2)
    note d = ownerDirRemove_frame [OF 1(3)]
    have f1: "tx_frame b v v1"
      using 1(1,2) by (auto simp: paid_back_def intro!: tx_frame_put_account)
    have f: "tx_frame b v v2" using f1 tx_frame_dir [OF d] by (rule tx_frame_trans)
    have "find_sle v2 (KBond target) = Some (SBond bd)"
      using 1(2) read_SomeD(2) [OF bd] dir_frame_simps(4) [OF d] by auto
    then show ?thesis unfolding 1(4) using tx_frame_account [OF f 1(1)]
      by (intro tx_frame_intros f) (auto simp: released_def paid_back_def)
  qed
qed

lemma slash_frame:
  assumes "ValidatorSlash_doApply e t target offense e1 e2 v = Inr (tesSUCCESS, v')"
  shows "tx_frame True v v'"
  using assms
proof (cases rule: ValidatorSlash_successE)
  case (1 bond)
  have "tx_frame True v (put v (KBond target) (SBond (slashed_bond t (v_seq v) bond)))"
    using plain_sle_bond [OF 1(1)] by (intro tx_frame_intros) auto
  then show ?thesis unfolding 1(4) by (auto simp: tx_frame_def burnXRP_def read_defs singles_ok_def)
qed

lemma vote_frame:
  assumes "GovernanceVote_doApply e t ck k vote v = Inr (tesSUCCESS, v')"
  shows "tx_frame b v v'"
  using assms
proof (cases rule: GovernanceVote_successE)
  case (1 p bd)
  show ?thesis unfolding 1(3) using read_SomeD(6) [OF 1(1)] by (intro tx_frame_intros) auto
qed

lemma proposal_frame:
  assumes "GovernanceProposal_doApply e t pt val v = Inr (tesSUCCESS, v')"
  shows "tx_frame b v v'"
  using assms
proof (cases rule: GovernanceProposal_successE)
  case (1 page v1 acct)
  note d = ownerDirInsert_frame [OF 1(1)]
  from tx_frame_dir [OF d] have f: "tx_frame b v v1" .
  let ?w = "put (put v1 (KProposal (tx_Account t) (tx_Sequence t)) (SProposal (new_proposal t pt val page (v_seq v))))
     (KAccount (tx_Account t)) (SAccount (acct\<lparr>acc_OwnerCount := acc_OwnerCount acct + 1\<rparr>))"
  have "tx_frame b v ?w" using 1(2,3) tx_frame_account [OF f 1(3)] dir_frame_simps [OF d]
    by (intro tx_frame_intros f) auto
  moreover have "plain_sle (find_sle ?w KRewardEpoch)" if "read_epoch v = Some ep" for ep
    using read_SomeD(3) [OF that] dir_frame_simps [OF d] by simp
  ultimately show ?thesis unfolding 1(4) Let_def by (auto split: option.split intro!: tx_frame_put)
qed

lemma name_set_frame:
  assumes "NameSet_doApply e t name v = Inr (tesSUCCESS, v')"
  shows "tx_frame b v v'"
  using assms
proof (cases rule: NameSet_successE)
  case (1 acct page v1)
  note d = ownerDirInsert_frame [OF 1(3)]
  from tx_frame_dir [OF d] have f: "tx_frame b v v1" .
  show ?thesis unfolding 1(5) using 1(4) tx_frame_account [OF f 1(1)] dir_frame_simps [OF d]
    by (intro tx_frame_intros f) (auto simp: named_account_def)
qed

lemma name_unbond_frame:
  assumes "NameUnbond_doApply t raw v = Inr (tesSUCCESS, v')"
  shows "tx_frame b v v'"
  using assms
proof (cases rule: NameUnbond_successE)
  case (1 kl n)
  show ?thesis unfolding 1(3) using read_SomeD(4) [OF 1(2)] by (intro tx_frame_intros) auto
qed

lemma name_release_frame:
  assumes "NameRelease_doApply name v = Inr (tesSUCCESS, v')" "sound_view v"
  shows "tx_frame b v v'"
proof -
  from assms(1) obtain n where n: "read_name v (KAccountName name) = Some n"
    by (auto simp: NameRelease_doApply_def split: option.splits)
  with assms(2) have nn: "0 \<le> nm_BondedAmount n" by (auto simp: sound_view_def dest: read_SomeD solventD)
  from assms(1) n nn show ?thesis
  proof (cases rule: NameRelease_successE)
    case (1 acct v1)
    note d = ownerDirRemove_frame [OF 1(2)]
    from tx_frame_dir [OF d] have f: "tx_frame b v v1" .
    show ?thesis unfolding 1(3)
      using read_SomeD(4) [OF n] tx_frame_account [OF f 1(1)] dir_frame_simps [OF d]
      by (intro tx_frame_intros f) (auto simp: unnamed_account_def)
  qed
qed

lemma claim_payment_frame:
  assumes "claim_payment e t ep pay v = (tesSUCCESS, v')" "read_epoch v = Some ep0"
  shows "tx_frame b v v'"
  using assms(1)
proof (cases rule: claim_payment_successE)
  case (1 tr acct)
  show ?thesis unfolding 1(4) using 1(1,3) read_SomeD(3) [OF assms(2)]
    by (intro tx_frame_intros) (auto split: if_splits)
qed

lemma tx_frame_put_record:
  "tx_frame b v w \<Longrightarrow> claim_record k \<Longrightarrow> tx_frame b v (put w k s)"
  by (auto simp: tx_frame_def read_account_def read_ticket_def claim_record_def split: key.splits intro!: singles_ok_put)

lemma claim_effect_frame: "claim_effect e t v v' \<Longrightarrow> tx_frame b v v'"
  unfolding claim_effect_def by (blast intro: tx_frame_refl tx_frame_put_record claim_payment_frame)

lemma claims_frame:
  "ClaimReward_doApply e t ck v = Inr (tesSUCCESS, v') \<Longrightarrow> epoch_ok v \<Longrightarrow> tx_frame b v v'"
  "ClaimLPReward_doApply e t k v = Inr (tesSUCCESS, v') \<Longrightarrow> epoch_ok v \<Longrightarrow> tx_frame b v v'"
  "ClaimAmmLpReward_doApply e t a1 a2 v = Inr (tesSUCCESS, v') \<Longrightarrow> epoch_ok v \<Longrightarrow> tx_frame b v v'"
  using ClaimReward_effect [of e t ck v v'] ClaimLPReward_effect [of e t k v v'] ClaimAmmLpReward_effect [of e t a1 a2 v v']
  by (auto intro: claim_effect_frame)

theorem tx_doApply_frame:
  assumes "tx_doApply e t v = Inr (tesSUCCESS, v')" "sound_view v" "bonds_ok e v" "epoch_ok v"
  shows "tx_frame (is_slash t) v v'"
proof (cases "tx_body t")
  case (ValidatorSlash target offense e1 e2)
  with assms show ?thesis by (auto simp: tx_doApply_def is_slash_def intro: slash_frame)
next
  case (ClaimLPReward k)
  with assms show ?thesis by (auto simp: tx_doApply_def claims_frame split: option.splits)
next
  case (ClaimAmmLpReward a1 a2)
  with assms show ?thesis by (auto simp: tx_doApply_def claims_frame split: option.splits)
qed (use assms in \<open>auto simp: tx_doApply_def claims_frame
  intro: register_frame bond_frame unbond_frame release_frame proposal_frame vote_frame
    name_set_frame name_unbond_frame name_release_frame\<close>)

end
