(* ===== verification/TxSafety.thy ===== *)
theory TxSafety
  imports TxFrame
begin

section \<open>What applying a transaction keeps\<close>

text \<open>
  The path of a transaction, from the fee charge over the transactor to the fee split, keeps the
  drops of the ledger and of its header in step and keeps the bonds well formed; a transaction
  that is not applied changes nothing; one that only claims its fee changes the payer, its ticket
  and the treasury alone.
\<close>

subsection \<open>The charge\<close>

text \<open>Everything but the account, its owner directory and its tickets is left alone.\<close>

definition account_frame :: "account \<Rightarrow> view \<Rightarrow> view \<Rightarrow> bool" where
  "account_frame a v v' \<longleftrightarrow> v_seq v' = v_seq v \<and> v_drops v' = v_drops v
     \<and> (\<forall>k. k \<noteq> KAccount a \<and> \<not> page_of (KOwnerDir a) k \<and> (\<forall>n. k \<noteq> KTicket a n) \<longrightarrow> find_sle v' k = find_sle v k)"

lemma account_frame_refl [simp]: "account_frame a v v"
  by (simp add: account_frame_def)

lemma account_frame_trans: "account_frame a u v \<Longrightarrow> account_frame a v w \<Longrightarrow> account_frame a u w"
  by (simp add: account_frame_def)

lemma account_frame_put: "account_frame a v w \<Longrightarrow> account_frame a v (put w (KAccount a) s)"
  by (simp add: account_frame_def)

lemma account_frame_simps:
  assumes "account_frame a v v'"
  shows "v_seq v' = v_seq v" "v_drops v' = v_drops v" "read_bond v' i = read_bond v i" "read_epoch v' = read_epoch v"
    "b \<noteq> a \<Longrightarrow> read_account v' b = read_account v b"
    "find_sle v' (KAccountName n) = find_sle v (KAccountName n)"
  using assms by (simp_all add: account_frame_def read_defs)

lemma singles_account_frame: "account_frame a v v' \<Longrightarrow> singles_ok v' = singles_ok v"
proof -
  assume f: "account_frame a v v'"
  have "k \<noteq> KAccount a \<and> \<not> page_of (KOwnerDir a) k \<and> (\<forall>n. k \<noteq> KTicket a n)" if "single_key k" for k
    using that by (cases k) (simp_all add: page_of_def keylet_page_def)
  with f show "singles_ok v' = singles_ok v" by (intro singles_ok_cong) (simp add: account_frame_def)
qed

lemma dir_frame_account: "dir_frame (KOwnerDir a) v v' \<Longrightarrow> account_frame a v v'"
  by (simp add: dir_frame_def account_frame_def)

lemma ticketDelete_success:
  assumes "ticketDelete v a (KTicket a n) = Inr (tesSUCCESS, v')" "sound_view v"
  obtains x x' where "read_account v a = Some x" "read_account v' a = Some x'" "acc_Balance x' = acc_Balance x"
    "acc_Sequence x' = acc_Sequence x" "conserves v v'" "account_frame a v v'" "read_ticket v' (KTicket a n) = None"
proof -
  from assms(1) obtain tk v1 x c where t: "read_ticket v (KTicket a n) = Some tk"
    and d: "dirRemove v (KOwnerDir a) (tk_OwnerNode tk) (KTicket a n) True = Inr (True, v1)"
    and x: "read_account v1 a = Some x"
    and v': "v' = del (put v1 (KAccount a) (SAccount (x\<lparr>acc_TicketCount := c,
               acc_OwnerCount := confineOwnerCount (acc_OwnerCount x) (- 1)\<rparr>))) (KTicket a n)"
    by (auto simp: ticketDelete_def put_defs split: option.splits sum.splits prod.splits bool.splits)
  let ?s = "SAccount (x\<lparr>acc_TicketCount := c, acc_OwnerCount := confineOwnerCount (acc_OwnerCount x) (- 1)\<rparr>)"
  have e: "dir_edits (KOwnerDir a) v v1" using d by (rule dirRemove_edits)
  then have f: "dir_frame (KOwnerDir a) v v1" by (rule dir_edits_frame)
  have c1: "conserves v v1" using e assms(2) by (rule dir_edits_conserves)
  have fx: "find_sle v1 (KAccount a) = Some (SAccount x)" using x by (rule read_SomeD)
  have c2: "conserves v1 (put v1 (KAccount a) ?s)"
    using c1 fx by (intro conserves_same) (auto simp: conserves_def sound_view_def dest: solventD)
  have "find_sle v1 (KTicket a n) = Some (STicket tk)"
    using t dir_frame_simps(8) [OF f] by (auto simp: read_ticket_def split: option.splits sle.splits)
  then have c3: "conserves (put v1 (KAccount a) ?s) v'"
    unfolding v' using c2 by (intro conserves_del) (auto simp: conserves_def)
  show thesis
  proof (rule that)
    show "read_account v a = Some x" using x dir_frame_simps(9) [OF f] by simp
    show "read_account v' a = Some (x\<lparr>acc_TicketCount := c, acc_OwnerCount := confineOwnerCount (acc_OwnerCount x) (- 1)\<rparr>)"
      by (simp add: v' read_account_def)
    show "conserves v v'" using c1 c2 c3 by (blast intro: conserves_trans)
    show "account_frame a v v'"
      using dir_frame_account [OF f] by (auto simp: v' account_frame_def)
    show "read_ticket v' (KTicket a n) = None" by (simp add: v' read_ticket_def)
  qed simp_all
qed

text \<open>Taking the sequence number or the ticket leaves the balance; it uses up the number or the ticket.\<close>

definition proxy_used :: "tx \<Rightarrow> view \<Rightarrow> view \<Rightarrow> bool" where
  "proxy_used t v v' \<longleftrightarrow> (case getSeqProxy t of
       SeqNo n \<Rightarrow> map_option acc_Sequence (read_account v' (tx_Account t)) = Some (n + 1)
     | TicketNo n \<Rightarrow> read_ticket v' (KTicket (tx_Account t) n) = None
         \<and> map_option acc_Sequence (read_account v' (tx_Account t)) = map_option acc_Sequence (read_account v (tx_Account t)))"

lemma consumeSeqProxy_success:
  assumes "consumeSeqProxy t sle v = Inr (tesSUCCESS, v')" "sound_view v" "read_account v (tx_Account t) = Some sle"
  obtains x' where "read_account v' (tx_Account t) = Some x'" "acc_Balance x' = acc_Balance sle"
    "conserves v v'" "account_frame (tx_Account t) v v'" "proxy_used t v v'"
proof (cases "getSeqProxy t")
  case (SeqNo n)
  let ?x = "sle\<lparr>acc_Sequence := n + 1\<rparr>"
  from assms(1) SeqNo have v': "v' = put v (KAccount (tx_Account t)) (SAccount ?x)"
    by (simp add: consumeSeqProxy_def put_defs)
  have f: "find_sle v (KAccount (tx_Account t)) = Some (SAccount sle)" using assms(3) by (rule read_SomeD)
  show thesis
  proof (rule that)
    show "read_account v' (tx_Account t) = Some ?x" by (simp add: v')
    show "conserves v v'" unfolding v' using assms(2) f
      by (intro conserves_same) (auto simp: sound_view_def dest: solventD)
    show "account_frame (tx_Account t) v v'" unfolding v' by (simp add: account_frame_put)
    show "proxy_used t v v'" by (simp add: proxy_used_def SeqNo v')
  qed simp
next
  case (TicketNo n)
  then have d: "ticketDelete v (tx_Account t) (KTicket (tx_Account t) n) = Inr (tesSUCCESS, v')"
    using assms(1) by (simp add: consumeSeqProxy_def)
  from d assms(2) show thesis
  proof (cases rule: ticketDelete_success)
    case (1 x x')
    with assms(3) show thesis by (intro that [of x']) (auto simp: proxy_used_def TicketNo)
  qed
qed

text \<open>A payment out of one account, seen from the supply: the gap to the header opens by the amount.\<close>

lemma debit_gap:
  assumes "sound_view v" "read_account v a = Some x" "acc_Balance x' = acc_Balance x - d" "0 \<le> acc_Balance x'"
  shows "sound_view (put v (KAccount a) (SAccount x'))"
    "supply_gap (put v (KAccount a) (SAccount x')) = supply_gap v - d"
proof -
  have f: "find_sle v (KAccount a) = Some (SAccount x)" using assms(2) by (rule read_SomeD)
  show "sound_view (put v (KAccount a) (SAccount x'))"
    using assms by (simp add: sound_view_def solvent_put)
  show "supply_gap (put v (KAccount a) (SAccount x')) = supply_gap v - d"
    using assms f by (simp add: supply_gap_def held_put sound_view_def)
qed

lemma proxy_used_put:
  "proxy_used t v w \<Longrightarrow> map_option acc_Sequence (read_account w (tx_Account t)) = Some (acc_Sequence x) \<Longrightarrow>
   proxy_used t v (put w (KAccount (tx_Account t)) (SAccount x))"
  by (auto simp: proxy_used_def read_ticket_def split: SeqProxy.splits)

lemma charge_success:
  assumes "charge t sle v = Inr (tesSUCCESS, v')" "sound_view v" "read_account v (tx_Account t) = Some sle"
    and "tx_Fee t \<le> acc_Balance sle"
  shows "sound_view v' \<and> supply_gap v' = supply_gap v - tx_Fee t \<and> account_frame (tx_Account t) v v' \<and> proxy_used t v v'"
proof -
  from assms(1) obtain v1 where c: "consumeSeqProxy t sle v = Inr (tesSUCCESS, v1)"
    by (auto simp: charge_def split: sum.splits prod.splits if_splits)
  from c assms(2,3) obtain x where x: "read_account v1 (tx_Account t) = Some x" "acc_Balance x = acc_Balance sle"
    and v1: "conserves v v1" "account_frame (tx_Account t) v v1" "proxy_used t v v1"
    by (rule consumeSeqProxy_success)
  define y where "y = (if acc_AccountTxnID x \<noteq> None
    then x\<lparr>acc_Balance := acc_Balance x - tx_Fee t, acc_AccountTxnID := Some (tx_ID t)\<rparr>
    else x\<lparr>acc_Balance := acc_Balance x - tx_Fee t\<rparr>)"
  let ?w = "put v1 (KAccount (tx_Account t)) (SAccount (x\<lparr>acc_Balance := acc_Balance x - tx_Fee t\<rparr>))"
  have v': "v' = put ?w (KAccount (tx_Account t)) (SAccount y)"
    using assms(1) c x(1) by (auto simp: charge_def payFee_def put_defs y_def)
  have s1: "sound_view v1" using v1(1) by (simp add: conserves_def)
  have yb: "acc_Balance y = acc_Balance x - tx_Fee t" and ys: "acc_Sequence y = acc_Sequence x"
    by (simp_all add: y_def)
  have w: "sound_view ?w" "supply_gap ?w = supply_gap v1 - tx_Fee t"
    using assms(4) x by (intro debit_gap [OF s1 x(1)]; simp)+
  have "sound_view v'" "supply_gap v' = supply_gap ?w - 0" unfolding v'
    using assms(4) x yb by (intro debit_gap [OF w(1), of _ "x\<lparr>acc_Balance := acc_Balance x - tx_Fee t\<rparr>"]; simp)+
  moreover have "proxy_used t v v'" unfolding v'
    using v1(3) x(1) ys by (intro proxy_used_put) auto
  ultimately show ?thesis using v1 w
    by (auto simp: v' conserves_def intro!: account_frame_put)
qed

subsection \<open>The fee claim\<close>

lemma reset_success:
  assumes "transactor_reset t fee v = Inr (tesSUCCESS, fee', v')" "sound_view v" "0 \<le> fee"
  shows "sound_view v' \<and> supply_gap v' = supply_gap v - fee' \<and> account_frame (tx_Account t) v v' \<and> proxy_used t v v'
    \<and> 0 \<le> fee' \<and> fee' \<le> fee"
proof -
  from assms(1) obtain x where x: "read_account v (tx_Account t) = Some x"
    by (auto simp: transactor_reset_def split: option.splits)
  let ?f = "if fee > acc_Balance x then acc_Balance x else fee"
  let ?x = "x\<lparr>acc_Balance := acc_Balance x - ?f\<rparr>"
  let ?w = "put v (KAccount (tx_Account t)) (SAccount ?x)"
  from assms(1) x have c: "consumeSeqProxy t ?x ?w = Inr (tesSUCCESS, v')" and f: "fee' = ?f"
    by (auto simp: transactor_reset_def Let_def put_defs split: sum.splits prod.splits if_splits)
  have b: "0 \<le> acc_Balance x" using assms(2) x by (auto simp: sound_view_def dest: read_SomeD solventD)
  have w: "sound_view ?w" "supply_gap ?w = supply_gap v - ?f"
    using b by (intro debit_gap [OF assms(2) x]; simp)+
  have rw: "read_account ?w (tx_Account t) = Some ?x" by simp
  from c w(1) rw obtain y where "conserves ?w v'" "account_frame (tx_Account t) ?w v'" "proxy_used t ?w v'"
    by (rule consumeSeqProxy_success)
  moreover have "account_frame (tx_Account t) v ?w" by (simp add: account_frame_put)
  ultimately show ?thesis using w f b assms(3) x
    by (auto simp: conserves_def proxy_used_def split: SeqProxy.splits intro: account_frame_trans)
qed

subsection \<open>The transactors\<close>

text \<open>The invariant of the ledger that the transactors rely on and keep.\<close>

definition chain_ok :: "env \<Rightarrow> view \<Rightarrow> bool" where
  "chain_ok e v \<longleftrightarrow> bonds_ok e v \<and> epoch_ok v"

lemma chain_ok_put:
  assumes "chain_ok e v" "\<And>b. s \<noteq> SBond b" "\<And>ep. s \<noteq> SEpoch ep"
  shows "chain_ok e (put v k s)"
proof -
  have "read_bond (put v k s) i = (if k = KBond i then None else read_bond v i)" for i
    using assms(2) by (cases s) auto
  moreover have "read_epoch (put v k s) = (if k = KRewardEpoch then None else read_epoch v)"
    using assms(3) by (cases s) auto
  ultimately show ?thesis using assms(1) by (auto simp: chain_ok_def bonds_ok_def epoch_ok_def)
qed

lemma chain_ok_del: "chain_ok e v \<Longrightarrow> chain_ok e (del v k)"
  by (auto simp: chain_ok_def epoch_ok_def intro: bonds_ok_del)

lemma chain_ok_put_bond: "chain_ok e v \<Longrightarrow> bond_ok e i b \<Longrightarrow> chain_ok e (put v (KBond i) (SBond b))"
  by (simp add: chain_ok_def epoch_ok_def bonds_ok_put_bond)

lemma chain_ok_frame: "chain_ok e v \<Longrightarrow> dir_frame (KOwnerDir a) v v' \<Longrightarrow> chain_ok e v'"
  by (auto simp: chain_ok_def epoch_ok_def dir_frame_simps intro: bonds_ok_frame)

lemma chain_ok_account_frame: "chain_ok e v \<Longrightarrow> account_frame a v v' \<Longrightarrow> chain_ok e v'"
  by (simp add: chain_ok_def bonds_ok_def epoch_ok_def account_frame_simps)

lemma chain_ok_burn: "chain_ok e (burnXRP v d) = chain_ok e v"
  by (simp add: chain_ok_def bonds_ok_def epoch_ok_def burnXRP_def read_defs)

lemmas chain_intros = chain_ok_put chain_ok_del chain_ok_put_bond

lemma register_chain:
  assumes "ValidatorRegister_doApply e t pk ck v = Inr (tesSUCCESS, v')" "chain_ok e v"
  shows "chain_ok e v'"
  using assms(1)
proof (cases rule: ValidatorRegister_successE)
  case (1 page v1 acct)
  have "epoch_ok v'" using assms(2) dir_frame_simps [OF ownerDirInsert_frame [OF 1(1)]]
    by (simp add: 1 chain_ok_def epoch_ok_def)
  with ValidatorRegister_bonds_ok [OF assms(1)] assms(2) show ?thesis by (simp add: chain_ok_def)
qed

lemma bond_chain:
  assumes "ValidatorBond_doApply e t ck (Native d) v = Inr (tesSUCCESS, v')" "chain_ok e v" "kQXRP_MIN_BOND_DROPS \<le> d"
  shows "chain_ok e v'"
  using assms(1)
proof (cases rule: ValidatorBond_successE)
  case (1 d' acct bond)
  have "epoch_ok v'" using assms(2) by (simp add: 1 chain_ok_def epoch_ok_def)
  with ValidatorBond_bonds_ok [OF assms(1)] assms(2,3) show ?thesis by (simp add: chain_ok_def)
qed

lemma unbond_chain:
  assumes "ValidatorUnbond_doApply e t ck v = Inr (tesSUCCESS, v')" "chain_ok e v"
  shows "chain_ok e v'"
  using assms(1)
proof (cases rule: ValidatorUnbond_successE)
  case (1 bond)
  have "epoch_ok v'" using assms(2) by (simp add: 1 chain_ok_def epoch_ok_def)
  with ValidatorUnbond_bonds_ok [OF assms(1)] assms(2) show ?thesis by (simp add: chain_ok_def)
qed

lemma slash_chain:
  assumes "ValidatorSlash_doApply e t target offense e1 e2 v = Inr (tesSUCCESS, v')" "chain_ok e v"
  shows "chain_ok e v'"
  using assms(1)
proof (cases rule: ValidatorSlash_successE)
  case (1 bond)
  have "epoch_ok v'" using assms(2) by (simp add: 1 chain_ok_def epoch_ok_def burnXRP_def read_epoch_def)
  with ValidatorSlash_bonds_ok [OF assms(1)] assms(2) show ?thesis by (simp add: chain_ok_def)
qed

lemma vote_chain:
  assumes "GovernanceVote_doApply e t ck k vote v = Inr (tesSUCCESS, v')" "chain_ok e v"
  shows "chain_ok e v'"
  using assms(1)
proof (cases rule: GovernanceVote_successE)
  case (1 p b)
  show ?thesis unfolding 1(3) using assms(2) by (intro chain_intros) auto
qed

lemma proposal_chain:
  assumes "GovernanceProposal_doApply e t pt val v = Inr (tesSUCCESS, v')" "chain_ok e v"
  shows "chain_ok e v'"
  using assms(1)
proof (cases rule: GovernanceProposal_successE)
  case (1 page v1 acct)
  have c: "chain_ok e v1" using assms(2) ownerDirInsert_frame [OF 1(1)] by (rule chain_ok_frame)
  note f = dir_frame_simps(11) [OF ownerDirInsert_frame [OF 1(1)]]
  show ?thesis
  proof (cases "read_epoch v")
    case None
    then show ?thesis unfolding 1(4) using c by (auto simp: Let_def intro!: chain_intros)
  next
    case (Some ep)
    with assms(2) c f show ?thesis unfolding 1(4)
      by (auto simp: Let_def chain_ok_def epoch_ok_def intro!: bonds_ok_put_other)
  qed
qed

lemma names_chain:
  "NameSet_doApply e t name v = Inr (tesSUCCESS, v') \<Longrightarrow> chain_ok e v \<Longrightarrow> chain_ok e v'"
  "NameUnbond_doApply t raw v = Inr (tesSUCCESS, v') \<Longrightarrow> chain_ok e v \<Longrightarrow> chain_ok e v'"
proof -
  assume a: "NameSet_doApply e t name v = Inr (tesSUCCESS, v')" and c: "chain_ok e v"
  from a show "chain_ok e v'"
  proof (cases rule: NameSet_successE)
    case (1 acct page v1)
    have "chain_ok e v1" using c ownerDirInsert_frame [OF 1(3)] by (rule chain_ok_frame)
    then show ?thesis unfolding 1(5) by (intro chain_intros) auto
  qed
next
  assume a: "NameUnbond_doApply t raw v = Inr (tesSUCCESS, v')" and c: "chain_ok e v"
  from a show "chain_ok e v'"
  proof (cases rule: NameUnbond_successE)
    case (1 kl n)
    show ?thesis unfolding 1(3) using c by (intro chain_intros) auto
  qed
qed

lemma release_chain:
  assumes "ReleaseBond_doApply target v = Inr (tesSUCCESS, v')" "chain_ok e v"
  shows "chain_ok e v'"
proof -
  from assms(1) obtain b where b: "read_bond v target = Some b"
    by (auto simp: ReleaseBond_doApply_def split: option.splits)
  with assms(2) have nn: "0 \<le> bond_BondedAmount b"
    by (auto simp: chain_ok_def bond_ok_def dest: bonds_okD)
  from assms(1) b nn show ?thesis
  proof (cases rule: ReleaseBond_successE)
    case (1 acct v1 v2)
    have "chain_ok e v1" using 1(2) assms(2) by (auto intro: chain_intros)
    then have "chain_ok e v2" using ownerDirRemove_frame [OF 1(3)] by (rule chain_ok_frame)
    then show ?thesis unfolding 1(4) by (intro chain_intros) auto
  qed
qed

lemma name_release_chain:
  assumes "NameRelease_doApply name v = Inr (tesSUCCESS, v')" "chain_ok e v" "sound_view v"
  shows "chain_ok e v'"
proof -
  from assms(1) obtain n where n: "read_name v (KAccountName name) = Some n"
    by (auto simp: NameRelease_doApply_def split: option.splits)
  with assms(3) have nn: "0 \<le> nm_BondedAmount n"
    by (auto simp: sound_view_def dest: read_SomeD solventD)
  from assms(1) n nn show ?thesis
  proof (cases rule: NameRelease_successE)
    case (1 acct v1)
    have "chain_ok e v1" using assms(2) ownerDirRemove_frame [OF 1(2)] by (rule chain_ok_frame)
    then show ?thesis unfolding 1(3) by (intro chain_intros) auto
  qed
qed

lemma claim_payment_bonds:
  "claim_payment e t ep pay v = (tesSUCCESS, v1) \<Longrightarrow> bonds_ok e v \<Longrightarrow> bonds_ok e v1"
  by (simp add: bonds_ok_def claim_payment_effect(4))

lemma claim_reward_bonds:
  assumes "ClaimReward_doApply e t ck v = Inr (tesSUCCESS, v')" "bonds_ok e v"
  shows "bonds_ok e v'"
proof (cases "v' = v")
  case False
  let ?id = "e_calcValidatorBondID e ck"
  from assms(1) False obtain b ep pay v1 where b: "read_bond v ?id = Some b"
    and p: "claim_payment e t ep pay v = (tesSUCCESS, v1)"
    and v': "v' = put v1 (KBond ?id) (SBond (b\<lparr>bond_LastClaimedEpoch := Some (ep_EpochNumber ep),
       bond_PreviousTxnID := tx_ID t, bond_PreviousTxnLgrSeq := v_seq v1\<rparr>))"
    by (auto simp: ClaimReward_doApply_def Let_def put_defs split: option.splits if_splits prod.splits)
  from assms(2) b have "bond_ok e ?id b" by (rule bonds_okD)
  then show ?thesis unfolding v' using claim_payment_bonds [OF p assms(2)]
    by (intro bonds_ok_put_bond) (auto simp: bond_ok_def)
qed (simp add: assms)

lemma claim_lp_bonds:
  assumes "ClaimLPReward_doApply e t k v = Inr (tesSUCCESS, v')" "bonds_ok e v"
  shows "bonds_ok e v'"
proof (cases "v' = v")
  case False
  from assms(1) False obtain ep pay v1 n where p: "claim_payment e t ep pay v = (tesSUCCESS, v1)"
    and m: "mark_claimed t k n v1 = Inr (tesSUCCESS, v')"
    by (auto simp: ClaimLPReward_doApply_def Let_def split: option.splits if_splits prod.splits)
  from mark_claimed_effect [OF m] claim_payment_bonds [OF p assms(2)] show ?thesis
    by (auto intro: bonds_ok_put_other)
qed (simp add: assms)

lemma claim_amm_bonds:
  assumes "ClaimAmmLpReward_doApply e t a1 a2 v = Inr (tesSUCCESS, v')" "bonds_ok e v"
  shows "bonds_ok e v'"
proof (cases "v' = v")
  case False
  from assms(1) False obtain ep pay v1 n k where p: "claim_payment e t ep pay v = (tesSUCCESS, v1)"
    and m: "mark_claimed t k n v1 = Inr (tesSUCCESS, v')"
    by (auto simp: ClaimAmmLpReward_doApply_def Let_def split: option.splits if_splits prod.splits)
  from mark_claimed_effect [OF m] claim_payment_bonds [OF p assms(2)] show ?thesis
    by (auto intro: bonds_ok_put_other)
qed (simp add: assms)

text \<open>An amount field holds a signed 64-bit number of drops.\<close>

definition wf_tx :: "tx \<Rightarrow> bool" where
  "wf_tx t = (case tx_body t of ValidatorBond ck (Native d) \<Rightarrow> \<bar>d\<bar> < 2 ^ 63 | _ \<Rightarrow> True)"

lemma claims_keep:
  "ClaimReward_doApply e t ck v = Inr (tesSUCCESS, v') \<Longrightarrow> sound_view v \<Longrightarrow> chain_ok e v \<Longrightarrow> conserves v v' \<and> chain_ok e v'"
  "ClaimLPReward_doApply e t k v = Inr (tesSUCCESS, v') \<Longrightarrow> sound_view v \<Longrightarrow> chain_ok e v \<Longrightarrow> conserves v v' \<and> chain_ok e v'"
  "ClaimAmmLpReward_doApply e t a1 a2 v = Inr (tesSUCCESS, v') \<Longrightarrow> sound_view v \<Longrightarrow> chain_ok e v \<Longrightarrow> conserves v v' \<and> chain_ok e v'"
  using ClaimReward_effect [of e t ck v v'] ClaimLPReward_effect [of e t k v v'] ClaimAmmLpReward_effect [of e t a1 a2 v v']
    claim_effect_conserves [of e t v v'] claim_effect_pool [of e t v v']
    claim_reward_bonds [of e t ck v v'] claim_lp_bonds [of e t k v v'] claim_amm_bonds [of e t a1 a2 v v']
  by (auto simp: chain_ok_def)

lemma bond_keeps:
  assumes "ValidatorBond_doApply e t ck amount v = Inr (tesSUCCESS, v')" "sound_view v" "chain_ok e v"
    and "ValidatorBond_preflight e ck amount = tesSUCCESS" "ValidatorBond_preclaim e t ck v = tesSUCCESS"
    and "\<And>d. amount = Native d \<Longrightarrow> \<bar>d\<bar> < 2 ^ 63"
  shows "conserves v v' \<and> chain_ok e v'"
proof -
  from ValidatorBond_preflight_amount [OF assms(4,6)] obtain d where d: "amount = Native d" "kQXRP_MIN_BOND_DROPS \<le> d" by blast
  moreover have "0 \<le> kQXRP_MIN_BOND_DROPS" by (simp add: qxrp_const)
  ultimately show ?thesis using assms ValidatorBond_conserves [of e t ck d v v'] bond_chain [of e t ck d v v']
    by (auto simp: chain_ok_def)
qed

theorem tx_doApply_keeps:
  assumes "tx_doApply e t v = Inr (tesSUCCESS, v')" "sound_view v" "chain_ok e v"
    and "tx_preflight e t = tesSUCCESS" "wf_tx t"
    and "\<And>ck amount. tx_body t = ValidatorBond ck amount \<Longrightarrow> tx_preclaim e t v = tesSUCCESS"
  shows "conserves v v' \<and> chain_ok e v'"
proof (cases "tx_body t")
  case (ValidatorBond ck amount)
  with assms show ?thesis
    by (intro bond_keeps) (auto simp: tx_doApply_def tx_preflight_def tx_preclaim_def wf_tx_def)
next
  case (ReleaseBond target)
  with assms show ?thesis
    using ReleaseBond_conserves [of target v v' e] release_chain [of target v v' e]
    by (simp add: tx_doApply_def chain_ok_def)
next
  case (ClaimLPReward k)
  with assms show ?thesis by (auto simp: tx_doApply_def claims_keep split: option.splits)
next
  case (ClaimAmmLpReward a1 a2)
  with assms show ?thesis by (auto simp: tx_doApply_def claims_keep split: option.splits)
qed (use assms in \<open>auto simp: tx_doApply_def claims_keep
  intro: ValidatorRegister_conserves register_chain ValidatorUnbond_conserves unbond_chain
    ValidatorSlash_conserves slash_chain GovernanceProposal_conserves proposal_chain
    GovernanceVote_conserves vote_chain NameSet_conserves NameUnbond_conserves names_chain
    NameRelease_conserves name_release_chain\<close>)

subsection \<open>The application\<close>

lemma consumeSeqProxy_codes: "consumeSeqProxy t x v = Inr (r, v') \<Longrightarrow> r = tesSUCCESS \<or> r = tefBAD_LEDGER"
  by (auto simp: consumeSeqProxy_def ticketDelete_def split: SeqProxy.splits option.splits sum.splits prod.splits bool.splits)

lemma reset_codes:
  "transactor_reset t fee v = Inr (r, fee', v') \<Longrightarrow> r = tesSUCCESS \<or> r = tefBAD_LEDGER \<or> r = tefINTERNAL"
  by (auto simp: transactor_reset_def Let_def split: option.splits sum.splits prod.splits if_splits
      dest: consumeSeqProxy_codes)

lemma tef_not_tec [simp]: "\<not> isTecClaim tefBAD_LEDGER" "\<not> isTecClaim tefINTERNAL" "\<not> isTecClaim tesSUCCESS"
  by (simp_all add: isTecClaim_def)

text \<open>A state that only waits for the fee to be split.\<close>

definition settled :: "env \<Rightarrow> tx \<Rightarrow> view \<Rightarrow> drops \<Rightarrow> view \<Rightarrow> bool" where
  "settled e t base fee v \<longleftrightarrow> sound_view v \<and> supply_gap v = supply_gap base - fee \<and> chain_ok e v
     \<and> 0 \<le> fee \<and> fee \<le> tx_Fee t \<and> v_seq v = v_seq base \<and> proxy_used t base v
     \<and> v_drops v \<le> v_drops base \<and> (\<not> is_slash t \<longrightarrow> v_drops v = v_drops base)
     \<and> (singles_ok base \<longrightarrow> singles_ok v)"

text \<open>A bare fee claim: the payer, its owner directory and its tickets are all that it touches.\<close>

definition claimed :: "env \<Rightarrow> tx \<Rightarrow> view \<Rightarrow> drops \<Rightarrow> view \<Rightarrow> bool" where
  "claimed e t base fee v \<longleftrightarrow> settled e t base fee v \<and> account_frame (tx_Account t) base v"

lemma reset_claimed:
  assumes "transactor_reset t fee base = Inr (tesSUCCESS, fee', v')" "sound_view base" "chain_ok e base"
    and "0 \<le> fee" "fee \<le> tx_Fee t"
  shows "claimed e t base fee' v'"
  using reset_success [OF assms(1,2,4)] assms(3,5)
  by (auto simp: claimed_def settled_def account_frame_simps singles_account_frame intro: chain_ok_account_frame)

text \<open>What the stages of an application promise of the state that they hand on.\<close>

definition stage_ok :: "env \<Rightarrow> tx \<Rightarrow> view \<Rightarrow> pending \<Rightarrow> bool" where
  "stage_ok e t base p = (case p of (r, applied, fee, v) \<Rightarrow>
     applied \<longrightarrow> settled e t base fee v \<and> (r \<noteq> tesSUCCESS \<longrightarrow> claimed e t base fee v) \<and> (r = tesSUCCESS \<or> isTecClaim r))"

lemma claim_stage_ok:
  assumes "claim_stage ap t base (r, v) = Inr p" "sound_view base" "chain_ok e base" "0 \<le> tx_Fee t"
    and "r = tesSUCCESS \<Longrightarrow> settled e t base (tx_Fee t) v"
  shows "stage_ok e t base p"
proof -
  let ?r = "if length (visit_keys base v) > kOVERSIZE_META_DATA_CAP then tecOVERSIZE else r"
  consider (drop) fee w where "p = (?r, False, fee, w)"
    | (reset) x fee w where "transactor_reset t (tx_Fee t) base = Inr (x, fee, w)"
        "p = (if x \<noteq> tesSUCCESS then x else ?r, isTecClaim (if x \<noteq> tesSUCCESS then x else ?r), fee, w)"
    | (keep) "p = (?r, r = tesSUCCESS, tx_Fee t, v)" "?r \<noteq> tecOVERSIZE"
    using assms(1) by (auto simp: claim_stage_def Let_def split: if_splits sum.splits prod.splits)
  then show ?thesis
  proof cases
    case reset
    from reset_codes [OF reset(1)] show ?thesis
      using reset reset_claimed [OF _ assms(2,3,4)] 
      by (auto simp: stage_ok_def claimed_def dest: isTecClaim_not_success)
  next
    case keep
    with assms(5) show ?thesis by (auto simp: stage_ok_def split: if_splits)
  qed (simp add: stage_ok_def)
qed

lemma checkInvariants_codes:
  "checkInvariants t r fee base v = r \<or> checkInvariants t r fee base v = tecINVARIANT_FAILED
   \<or> checkInvariants t r fee base v = tefINVARIANT_FAILED"
  by (simp add: checkInvariants_def failInvariantCheck_def)

lemma invariant_stage_ok:
  assumes "invariant_stage t base p = Inr q" "sound_view base" "chain_ok e base" "stage_ok e t base p"
  shows "stage_ok e t base q"
proof -
  obtain r applied fee v where p: "p = (r, applied, fee, v)" by (cases p)
  show ?thesis
  proof (cases applied)
    case False
    with assms(1) p show ?thesis by (auto simp: invariant_stage_def stage_ok_def)
  next
    case True
    with assms(4) p have s: "settled e t base fee v" and c: "r \<noteq> tesSUCCESS \<Longrightarrow> claimed e t base fee v"
      by (auto simp: stage_ok_def)
    show ?thesis
    proof (cases "checkInvariants t r fee base v = tecINVARIANT_FAILED")
      case True
      with assms(1) p \<open>applied\<close> obtain x fee' w where x: "transactor_reset t fee base = Inr (x, fee', w)"
        and q: "\<exists>r''. q = (r'', isTecClaim r'' \<or> r'' = tesSUCCESS, fee', w) \<and> (x \<noteq> tesSUCCESS \<longrightarrow> r'' = x)"
        by (fastforce simp: invariant_stage_def Let_def split: sum.splits prod.splits dest: reset_codes)
      from reset_codes [OF x] q show ?thesis
        using x s reset_claimed [OF _ assms(2,3)] by (auto simp: stage_ok_def settled_def claimed_def)
    next
      case False
      with assms(1) p \<open>applied\<close> have q: "q = (checkInvariants t r fee base v,
          isTecClaim (checkInvariants t r fee base v) \<or> checkInvariants t r fee base v = tesSUCCESS, fee, v)"
        by (simp add: invariant_stage_def Let_def)
      have "\<not> isTecClaim tefINVARIANT_FAILED" by (simp add: isTecClaim_def)
      with q False checkInvariants_codes [of t r fee base v] s c show ?thesis
        by (auto simp: stage_ok_def)
    qed
  qed
qed

lemma preclaim_frame:
  assumes "account_frame a v v'" "tx_preclaim e t v = tesSUCCESS" "tx_body t = ValidatorBond ck amount"
  shows "tx_preclaim e t v' = tesSUCCESS"
  using assms by (simp add: tx_preclaim_def ValidatorBond_preclaim_def account_frame_simps)

lemma preclaim_success:
  assumes "invokePreclaim e ap t v = tesSUCCESS" "sound_view v"
  obtains sle where "read_account v (tx_Account t) = Some sle" "tx_Fee t \<le> acc_Balance sle" "0 \<le> tx_Fee t"
    "checkSeqProxy t v = tesSUCCESS" "checkSign e ap t v = tesSUCCESS" "tx_preclaim e t v = tesSUCCESS"
proof -
  from assms(1) have c: "checkSeqProxy t v = tesSUCCESS" "checkSign e ap t v = tesSUCCESS"
      "checkFee ap t v = tesSUCCESS" "tx_preclaim e t v = tesSUCCESS"
    by (auto simp: invokePreclaim_def Let_def split: if_splits)
  from c(1) obtain sle where r: "read_account v (tx_Account t) = Some sle"
    by (auto simp: checkSeqProxy_def split: option.splits)
  with assms(2) have "0 \<le> acc_Balance sle" by (auto simp: sound_view_def dest: read_SomeD solventD)
  with c(3) r have "tx_Fee t \<le> acc_Balance sle" "0 \<le> tx_Fee t"
    by (auto simp: checkFee_def Let_def split: if_splits)
  with r c show thesis by (intro that)
qed

lemma preflight_success:
  assumes "invokePreflight e ap t = tesSUCCESS"
  shows "tx_preflight e t = tesSUCCESS" "0 \<le> tx_Fee t" "tx_Fee t \<le> kINITIAL_XRP"
  using assms by (auto simp: invokePreflight_def preflight1_def Let_def split: if_splits)

lemma proxy_used_frame: "proxy_used t u v \<Longrightarrow> tx_frame b v v' \<Longrightarrow> proxy_used t u v'"
  by (simp add: proxy_used_def tx_frame_def split: SeqProxy.splits)

lemma doApply_settled:
  assumes "tx_doApply e t v1 = Inr (tesSUCCESS, v')" "tx_preflight e t = tesSUCCESS" "tx_preclaim e t v = tesSUCCESS"
    and "wf_tx t" "sound_view v1" "chain_ok e v" "account_frame (tx_Account t) v v1"
  shows "conserves v1 v' \<and> chain_ok e v' \<and> tx_frame (is_slash t) v1 v'"
proof -
  have c: "chain_ok e v1" using assms(6,7) by (rule chain_ok_account_frame)
  have "conserves v1 v' \<and> chain_ok e v'"
    using c preclaim_frame [OF assms(7,3)] assms(1,2,4,5) by (intro tx_doApply_keeps) auto
  moreover have "tx_frame (is_slash t) v1 v'"
    using c assms(1,5) by (intro tx_doApply_frame) (auto simp: chain_ok_def)
  ultimately show ?thesis by simp
qed

lemma transactor_apply_settled:
  assumes "transactor_apply e t v = Inr (tesSUCCESS, v')" "invokePreclaim e ap t v = tesSUCCESS"
    and "tx_preflight e t = tesSUCCESS" "wf_tx t" "sound_view v" "chain_ok e v"
  shows "settled e t v (tx_Fee t) v'"
proof -
  from assms(2,5) obtain sle where r: "read_account v (tx_Account t) = Some sle" and f: "tx_Fee t \<le> acc_Balance sle"
    and f0: "0 \<le> tx_Fee t" and pc: "tx_preclaim e t v = tesSUCCESS" by (rule preclaim_success)
  from assms(1) r obtain v1 where c: "charge t sle v = Inr (tesSUCCESS, v1)" and d: "tx_doApply e t v1 = Inr (tesSUCCESS, v')"
    by (auto simp: transactor_apply_def split: sum.splits prod.splits if_splits)
  note cs = charge_success [OF c assms(5) r f]
  then have da: "conserves v1 v'" "chain_ok e v'" "tx_frame (is_slash t) v1 v'"
    using doApply_settled [OF d assms(3) pc assms(4) _ assms(6)] by auto
  with cs have "proxy_used t v v'" by (blast intro: proxy_used_frame)
  with da cs f0 show ?thesis
    by (auto simp: settled_def conserves_def account_frame_simps tx_frame_def singles_account_frame)
qed

lemma destroyXRP_settles:
  assumes "settled e t base fee v" "tx_Fee t < 2 ^ 63"
  shows "conserves base (destroyXRP e v fee) \<and> chain_ok e (destroyXRP e v fee)"
proof -
  have c: "chain_ok e (destroyXRP e v fee)" using assms(1) destroyXRP_frame [of _ e v fee]
    by (simp add: settled_def chain_ok_def bonds_ok_def epoch_ok_def read_defs)
  show ?thesis
  proof (cases "fee = 0")
    case True
    with assms c show ?thesis by (simp add: settled_def conserves_def destroyXRP_nonpos)
  next
    case False
    with assms destroyXRP_supply [of v fee e] c show ?thesis by (auto simp: settled_def conserves_def)
  qed
qed

text \<open>A transaction that is not applied leaves the view as it was, whatever the view.\<close>

lemma apply_tx_unapplied:
  assumes "apply_tx e ap t v = (r, False, v')"
  shows "v' = v"
  using assms
  by (auto simp: apply_tx_def transactor_operator_def commit_stage_def Let_def split: if_splits sum.splits prod.splits)

text \<open>Every way an application can end.\<close>

lemma transactor_operator_cases:
  assumes "transactor_operator e ap t pc base = Inr (r, applied, v')" "sound_view base" "chain_ok e base"
    and "invokePreflight e ap t = tesSUCCESS" "invokePreclaim e ap t base = pc" "wf_tx t"
  obtains "\<not> applied" "v' = base"
    | fee v where "applied" "settled e t base fee v" "r = tesSUCCESS \<or> isTecClaim r"
        "r \<noteq> tesSUCCESS \<Longrightarrow> claimed e t base fee v"
        "v' = (if \<not> ap_open ap \<and> fee \<noteq> 0 then destroyXRP e v fee else v)"
proof -
  note pf = preflight_success [OF assms(4)]
  from assms(1) obtain r0 w p q where
    a: "(if pc = tesSUCCESS then transactor_apply e t base else Inr (pc, base)) = Inr (r0, w)"
    and p: "claim_stage ap t base (r0, w) = Inr p" and q: "invariant_stage t base p = Inr q"
    and k: "commit_stage e ap base q = Inr (r, applied, v')"
    by (auto simp: transactor_operator_def split: sum.splits)
  have "settled e t base (tx_Fee t) w" if "r0 = tesSUCCESS"
    using a that assms(2,3,5,6) pf(1) transactor_apply_settled [of e t base w ap] by (auto split: if_splits)
  then have "stage_ok e t base q"
    using claim_stage_ok [OF p assms(2,3) pf(2)] invariant_stage_ok [OF q assms(2,3)] by blast
  with k that show thesis
    by (auto simp: stage_ok_def commit_stage_def Let_def split: prod.splits if_splits)
qed

lemma apply_tx_cases:
  assumes "apply_tx e ap t base = (r, applied, v')" "sound_view base" "chain_ok e base" "wf_tx t"
  obtains "\<not> applied" "v' = base"
    | fee v where "applied" "settled e t base fee v" "r = tesSUCCESS \<or> isTecClaim r"
        "r \<noteq> tesSUCCESS \<Longrightarrow> claimed e t base fee v" "tx_Fee t \<le> kINITIAL_XRP"
        "v' = (if \<not> ap_open ap \<and> fee \<noteq> 0 then destroyXRP e v fee else v)"
proof (cases "transactor_operator e ap t (invokePreclaim e ap t base) base")
  case (Inl ex)
  with assms(1) that show thesis by (auto simp: apply_tx_def Let_def split: if_splits)
next
  case (Inr x)
  show thesis
  proof (cases "invokePreflight e ap t = tesSUCCESS \<and>
      (invokePreclaim e ap t base = tesSUCCESS \<or> isTecClaimHardFail ap (invokePreclaim e ap t base))")
    case False
    with assms(1) that show thesis by (auto simp: apply_tx_def Let_def split: if_splits)
  next
    case True
    with assms(1) Inr have x: "x = (r, applied, v')" by (auto simp: apply_tx_def Let_def)
    from True have pf: "invokePreflight e ap t = tesSUCCESS" by simp
    from Inr [unfolded x] assms(2,3) pf refl assms(4) show thesis
      using that preflight_success(3) [OF pf] by (cases rule: transactor_operator_cases) auto
  qed
qed

theorem apply_tx_keeps:
  assumes "apply_tx e ap t v = (r, applied, v')" "sound_view v" "chain_ok e v" "wf_tx t" "\<not> ap_open ap"
  shows "conserves v v' \<and> chain_ok e v' \<and> (\<not> applied \<longrightarrow> v' = v) \<and> (applied \<longrightarrow> r = tesSUCCESS \<or> isTecClaim r)"
  using assms(1-4)
proof (cases rule: apply_tx_cases)
  case (2 fee w)
  have "tx_Fee t < 2 ^ 63" using 2(5) by (simp add: qxrp_const)
  from destroyXRP_settles [OF 2(2) this] 2 assms(5) show ?thesis
    by (auto simp: destroyXRP_nonpos split: if_splits)
qed (use assms in \<open>auto simp: conserves_refl\<close>)

text \<open>A transaction that fails with a claimed fee changes the payer, its tickets and the treasury alone.\<close>

lemma apply_tx_claim_frame:
  assumes "apply_tx e ap t v = (r, True, v')" "r \<noteq> tesSUCCESS" "sound_view v" "chain_ok e v" "wf_tx t"
    and "k \<noteq> KAccount (tx_Account t)" "\<not> page_of (KOwnerDir (tx_Account t)) k" "\<And>n. k \<noteq> KTicket (tx_Account t) n"
    and "k \<noteq> KAccount (e_TreasuryAccountID e)"
  shows "find_sle v' k = find_sle v k"
  using assms(1,3-5)
proof (cases rule: apply_tx_cases)
  case (2 fee w)
  then have "find_sle w k = find_sle v k" using assms(2,6-8) by (simp add: claimed_def account_frame_def)
  then show ?thesis using 2(6) assms(9) by (simp add: destroyXRP_frame)
qed simp

subsection \<open>No replay\<close>

lemma destroyXRP_tx_frame: "0 \<le> fee \<Longrightarrow> fee < 2 ^ 63 \<Longrightarrow> tx_frame True v (destroyXRP e v fee)"
proof -
  assume "0 \<le> fee" "fee < 2 ^ 63"
  then have b: "0 \<le> muldiv64 fee (fee_burnBps v) kBPS_DENOM"
    by (simp add: fee_burn_exact pos_imp_zdiv_nonneg_iff)
  have "read_account (destroyXRP e v fee) a = read_account v a" if "a \<noteq> e_TreasuryAccountID e" for a
    using that by (simp add: read_account_def destroyXRP_frame)
  moreover have "map_option acc_Sequence (read_account (destroyXRP e v fee) (e_TreasuryAccountID e))
      = map_option acc_Sequence (read_account v (e_TreasuryAccountID e))"
    by (auto simp: destroyXRP_def Let_def put_defs read_account_def split: option.split sle.split)
  moreover have "read_ticket (destroyXRP e v fee) (KTicket a n) = read_ticket v (KTicket a n)" for a n
    by (simp add: read_ticket_def destroyXRP_frame)
  moreover have "v_drops (destroyXRP e v fee) \<le> v_drops v"
    using b by (auto simp: destroyXRP_def Let_def put_defs split: option.split)
  moreover have "singles_ok (destroyXRP e v fee) = singles_ok v"
    by (intro singles_ok_cong destroyXRP_frame) auto
  ultimately show ?thesis unfolding tx_frame_def by metis
qed

lemma proxy_used_refused:
  assumes "proxy_used t u v"
  shows "checkSeqProxy t v \<noteq> tesSUCCESS \<and> \<not> isTecClaim (checkSeqProxy t v)"
proof (cases "getSeqProxy t")
  case (SeqNo n)
  moreover have "n + 1 \<noteq> n" by simp
  ultimately show ?thesis using assms
    by (auto simp: checkSeqProxy_def proxy_used_def isTecClaim_def split: option.splits)
next
  case (TicketNo n)
  with assms show ?thesis
    by (auto simp: checkSeqProxy_def proxy_used_def isTecClaim_def split: option.splits)
qed

lemma apply_tx_uses_proxy:
  assumes "apply_tx e ap t v = (r, True, v')" "sound_view v" "chain_ok e v" "wf_tx t"
  shows "proxy_used t v v'"
  using assms
proof (cases rule: apply_tx_cases)
  case (2 fee w)
  have "fee < 2 ^ 63" "0 \<le> fee" using 2(2,5) by (simp_all add: settled_def qxrp_const)
  with 2(2,6) proxy_used_frame [OF _ destroyXRP_tx_frame [of fee w e]] show ?thesis
    by (auto simp: settled_def)
qed simp

theorem apply_tx_no_replay:
  assumes "apply_tx e ap t v = (r, True, v')" "sound_view v" "chain_ok e v" "wf_tx t"
  shows "\<exists>r'. apply_tx e ap' t v' = (r', False, v')"
proof -
  from proxy_used_refused [OF apply_tx_uses_proxy [OF assms]]
  have "invokePreclaim e ap' t v' \<noteq> tesSUCCESS \<and> \<not> isTecClaim (invokePreclaim e ap' t v')"
    by (simp add: invokePreclaim_def)
  then show ?thesis by (simp add: apply_tx_def Let_def isTecClaimHardFail_def)
qed

subsection \<open>The conservation checks\<close>

lemma settled_conservation:
  assumes "settled e t base fee v" "sound_view base"
  shows "XRPNotCreated_finalize t fee (fold XRPNotCreated_visitEntry (visit base v) 0)
    \<and> QXRPDropConservation_finalize t fee (fold QXRPDropConservation_visitEntry (visit base v) 0)"
proof -
  have w: "wf_view base" "wf_view v" "0 \<le> fee" using assms by (auto simp: settled_def sound_view_def)
  from assms(1) conservation_iff [OF w, of t]
  show ?thesis by (auto simp: settled_def supply_gap_def qxrp_visit_same qxrp_finalize_same)
qed

end
