(* ===== verification/OrderedMap.thy ===== *)
theory OrderedMap
  imports Prelude
begin

section \<open>Ordered maps\<close>

text \<open>
  \<open>std::map\<close> as a list of pairs that is strictly ascending in its keys, which is the order of its
  iteration. \<open>emplace\<close> and \<open>insert\<close> leave a key that is there alone; an assignment through an iterator is
  \<open>AList.update\<close> of a key that is there, and \<open>erase\<close> is \<open>AList.delete\<close>.
\<close>

definition ascending :: "('k::linorder \<times> 'v) list \<Rightarrow> bool" where
  "ascending m \<longleftrightarrow> sorted_wrt (<) (map fst m)"

text \<open>\<open>std::map::insert\<close> leaves a key that is there alone.\<close>

fun map_insert :: "'k::linorder \<Rightarrow> 'v \<Rightarrow> ('k \<times> 'v) list \<Rightarrow> ('k \<times> 'v) list" where
  "map_insert k x [] = [(k, x)]"
| "map_insert k x ((k', x') # m) =
     (if k < k' then (k, x) # (k', x') # m
      else if k' < k then (k', x') # map_insert k x m
      else (k', x') # m)"

definition lower_bound :: "'k::linorder \<Rightarrow> ('k \<times> 'v) list \<Rightarrow> ('k \<times> 'v) list" where
  "lower_bound k m = dropWhile (\<lambda>p. fst p < k) m"

definition upper_bound :: "'k::linorder \<Rightarrow> ('k \<times> 'v) list \<Rightarrow> ('k \<times> 'v) list" where
  "upper_bound k m = dropWhile (\<lambda>p. fst p \<le> k) m"

subsection \<open>Insertion\<close>

lemma map_insert_keys: "fst ` set (map_insert k x m) = insert k (fst ` set m)"
  by (induction k x m rule: map_insert.induct) auto

lemma ascending_insert: "ascending m \<Longrightarrow> ascending (map_insert k x m)"
proof (induction k x m rule: map_insert.induct)
  case (2 k x k' x' m)
  have m: "ascending m" "\<forall>j \<in> fst ` set m. k' < j" using 2(2) by (auto simp: ascending_def)
  consider "k < k'" | "k' < k" | "k = k'" by (meson linorder_neqE)
  then show ?case
  proof cases
    case 1
    with m show ?thesis by (auto simp: ascending_def)
  next
    case 2
    with "2.IH" m have "ascending (map_insert k x m)" by auto
    moreover have "\<forall>j \<in> fst ` set (map_insert k x m). k' < j" using m 2 map_insert_keys [of k x m] by auto
    ultimately show ?thesis using 2 by (auto simp: ascending_def)
  next
    case 3
    with m show ?thesis by (auto simp: ascending_def)
  qed
qed (simp add: ascending_def)

lemma map_insert_set:
  "ascending m \<Longrightarrow> set (map_insert k x m) = (if k \<in> fst ` set m then set m else insert (k, x) (set m))"
proof (induction k x m rule: map_insert.induct)
  case (2 k x k' x' m)
  have m: "ascending m" "\<forall>j \<in> fst ` set m. k' < j" using 2(2) by (auto simp: ascending_def)
  consider "k < k'" | "k' < k" | "k = k'" by (meson linorder_neqE)
  then show ?case
  proof cases
    case 1
    with m have "k \<notin> fst ` set m" by (meson order.strict_trans less_irrefl)
    with 1 show ?thesis by auto
  next
    case 2
    with "2.IH" m show ?thesis by auto
  qed auto
qed simp

subsection \<open>Order and content\<close>

lemma ascending_Nil [simp]: "ascending []"
  by (simp add: ascending_def)

lemma ascending_Cons: "ascending (p # m) \<longleftrightarrow> ascending m \<and> (\<forall>j \<in> fst ` set m. fst p < j)"
  by (auto simp: ascending_def)

lemma ascending_distinct: "ascending m \<Longrightarrow> keys_distinct m"
  by (induction m) (auto simp: ascending_Cons keys_distinct_def)

lemma ascending_map_of: "ascending m \<Longrightarrow> (k, x) \<in> set m \<longleftrightarrow> map_of m k = Some x"
  using ascending_distinct [of m] by (simp add: keys_distinct_def)

lemma map_of_map_insert:
  assumes "ascending m"
  shows "map_of (map_insert k x m) = (case map_of m k of None \<Rightarrow> (map_of m)(k \<mapsto> x) | Some y \<Rightarrow> map_of m)"
proof -
  have d: "keys_distinct (map_insert k x m)" using ascending_insert [OF assms] by (rule ascending_distinct)
  show ?thesis
  proof (cases "map_of m k")
    case None
    then have "k \<notin> fst ` set m" by (simp add: map_of_eq_None_iff)
    then have "set (map_insert k x m) = set ((k, x) # m)" using map_insert_set [OF assms] by simp
    moreover have "distinct (map fst ((k, x) # m))"
      using ascending_distinct [OF assms] \<open>k \<notin> fst ` set m\<close> by (simp add: keys_distinct_def)
    ultimately have "map_of (map_insert k x m) = map_of ((k, x) # m)"
      using d map_of_inject_set [of "map_insert k x m" "(k, x) # m"] by (simp add: keys_distinct_def)
    with None show ?thesis by simp
  next
    case (Some y)
    then have "k \<in> fst ` set m" by (metis domI dom_map_of_conv_image_fst)
    then have "set (map_insert k x m) = set m" using map_insert_set [OF assms] by simp
    then have "map_of (map_insert k x m) = map_of m"
      using d ascending_distinct [OF assms] map_of_inject_set [of "map_insert k x m" m] by (simp add: keys_distinct_def)
    with Some show ?thesis by simp
  qed
qed

lemma ascending_update: "ascending m \<Longrightarrow> k \<in> fst ` set m \<Longrightarrow> ascending (AList.update k x m)"
  by (simp add: ascending_def update_keys)

lemma ascending_delete: "ascending m \<Longrightarrow> ascending (AList.delete k m)"
  by (induction m) (auto simp: ascending_Cons AList.delete_eq)

lemma ascending_unique:
  "ascending m \<Longrightarrow> ascending m' \<Longrightarrow> map_of m = map_of m' \<Longrightarrow> m = m'"
proof (induction m arbitrary: m')
  case Nil
  then show ?case by (cases m') (auto simp: fun_eq_iff split: if_splits)
next
  case (Cons p m)
  obtain k x where p: "p = (k, x)" by (cases p)
  have "q \<in> set (p # m) \<longleftrightarrow> q \<in> set m'" for q
    using Cons.prems by (cases q) (simp only: ascending_map_of)
  then have s: "set (p # m) = set m'" by blast
  then obtain p' n where m': "m' = p' # n" by (cases m') auto
  have "p' = p"
  proof (rule ccontr)
    assume "p' \<noteq> p"
    with s m' have "p' \<in> set m" "p \<in> set n" by auto
    with Cons.prems(1,2) m' have "fst p < fst p'" "fst p' < fst p" by (auto simp: ascending_Cons)
    then show False by simp
  qed
  moreover have "map_of m = map_of n"
  proof
    fix j
    have "map_of m k = None" "map_of n k = None"
      using Cons.prems(1,2) m' p \<open>p' = p\<close> by (auto simp: ascending_Cons map_of_eq_None_iff)
    moreover have "map_of (p # m) j = map_of (p' # n) j" using fun_cong [OF Cons.prems(3), of j] m' by simp
    ultimately show "map_of m j = map_of n j" using p \<open>p' = p\<close> by (cases "j = k") auto
  qed
  ultimately show ?case using Cons m' by (auto simp: ascending_Cons)
qed

text \<open>The first key after a given one.\<close>

lemma upper_bound_set: "ascending m \<Longrightarrow> set (upper_bound k m) = {p \<in> set m. k < fst p}"
proof (induction m)
  case (Cons p m)
  show ?case
  proof (cases "fst p \<le> k")
    case True
    with Cons show ?thesis by (auto simp: upper_bound_def ascending_Cons)
  next
    case False
    moreover have "k < fst q" if "q \<in> set m" for q
      using Cons.prems that False by (auto simp: ascending_Cons not_le intro: order.strict_trans)
    ultimately show ?thesis by (auto simp: upper_bound_def)
  qed
qed (simp add: upper_bound_def)

lemma ascending_upper_bound: "ascending m \<Longrightarrow> ascending (upper_bound k m)"
  by (induction m) (auto simp: upper_bound_def ascending_Cons)

subsection \<open>Runs of operations\<close>

text \<open>A list of operations one after the other, with what each answers; and a simulation of one run by another.\<close>

fun run :: "('o \<Rightarrow> 's \<Rightarrow> ('b \<times> 's) result) \<Rightarrow> 'o list \<Rightarrow> 's \<Rightarrow> ('b list \<times> 's) result" where
  "run f [] s = Inr ([], s)"
| "run f (x # xs) s =
     (case f x s of
        Inl ex \<Rightarrow> Inl ex
      | Inr (b, s1) \<Rightarrow> (case run f xs s1 of Inl ex \<Rightarrow> Inl ex | Inr (bs, s') \<Rightarrow> Inr (b # bs, s')))"

lemma run_simulates:
  assumes step: "\<And>x a b c a'. R a b \<Longrightarrow> f x a = Inr (c, a') \<Longrightarrow> \<exists>b'. g x b = Inr (c, b') \<and> R a' b'"
    and "R a b" "run f xs a = Inr (cs, a')"
  shows "\<exists>b'. run g xs b = Inr (cs, b') \<and> R a' b'"
  using assms(2,3)
proof (induction xs arbitrary: a b cs)
  case (Cons x xs)
  obtain c a1 ds where f: "f x a = Inr (c, a1)" "run f xs a1 = Inr (ds, a')" "cs = c # ds"
    using Cons.prems(2) by (auto split: sum.splits)
  obtain b1 where g: "g x b = Inr (c, b1)" "R a1 b1" using step [OF Cons.prems(1) f(1)] by blast
  from Cons.IH [OF g(2) f(2)] g(1) f(3) show ?case by auto
qed auto

end
