(* ===== verification/CanonicalTXSet.thy ===== *)
theory CanonicalTXSet
  imports Transactor OrderedMap
begin

section \<open>The canonical transaction set\<close>

text \<open>
  \<^verbatim>\<open>src/libxrpl/ledger/CanonicalTXSet.cpp\<close>: the order in which a ledger's transactions are applied. The
  set is an ordered map from a key (the salted account, the sequence or ticket, the identifier) to
  the transaction; the map is a list that is strictly ascending in its keys.
\<close>

unbundle bit_operations_syntax

subsection \<open>Keys\<close>

fun seqProxy_value :: "SeqProxy \<Rightarrow> u32" where
  "seqProxy_value (SeqNo n) = n"
| "seqProxy_value (TicketNo n) = n"

text \<open>All sequence numbers sort before all tickets.\<close>

definition seqProxy_less :: "SeqProxy \<Rightarrow> SeqProxy \<Rightarrow> bool" where
  "seqProxy_less lhs rhs =
     (if isTicket lhs \<noteq> isTicket rhs then isTicket rhs else seqProxy_value lhs < seqProxy_value rhs)"

instantiation SeqProxy :: linorder
begin

definition less_SeqProxy :: "SeqProxy \<Rightarrow> SeqProxy \<Rightarrow> bool" where
  "less_SeqProxy = seqProxy_less"

definition less_eq_SeqProxy :: "SeqProxy \<Rightarrow> SeqProxy \<Rightarrow> bool" where
  "less_eq_SeqProxy lhs rhs \<longleftrightarrow> \<not> rhs < lhs"

lemma SeqProxy_less_simps:
  "SeqNo m < SeqNo n \<longleftrightarrow> m < n" "TicketNo m < TicketNo n \<longleftrightarrow> m < n" "SeqNo m < TicketNo n" "\<not> TicketNo m < SeqNo n"
  by (simp_all add: less_SeqProxy_def seqProxy_less_def)

instance
proof
  fix x y z :: SeqProxy
  show "(x < y) = (x \<le> y \<and> \<not> y \<le> x)"
    by (cases x; cases y) (auto simp: less_eq_SeqProxy_def SeqProxy_less_simps)
  show "x \<le> x" by (cases x) (simp_all add: less_eq_SeqProxy_def SeqProxy_less_simps)
  show "x \<le> y \<Longrightarrow> y \<le> z \<Longrightarrow> x \<le> z"
    by (cases x; cases y; cases z) (auto simp: less_eq_SeqProxy_def SeqProxy_less_simps)
  show "x \<le> y \<Longrightarrow> y \<le> x \<Longrightarrow> x = y"
    by (cases x; cases y) (auto simp: less_eq_SeqProxy_def SeqProxy_less_simps)
  show "x \<le> y \<or> y \<le> x"
    by (cases x; cases y) (auto simp: less_eq_SeqProxy_def SeqProxy_less_simps)
qed

end

datatype tx_key = Key (key_account: u256) (key_seqProxy: SeqProxy) (key_txId: u256)

definition tx_key_tuple :: "tx_key \<Rightarrow> u256 \<times> SeqProxy \<times> u256" where
  "tx_key_tuple k = (key_account k, key_seqProxy k, key_txId k)"

lemma tx_key_tuple_eq: "tx_key_tuple k = tx_key_tuple k' \<longleftrightarrow> k = k'"
  by (cases k; cases k') (simp add: tx_key_tuple_def)

definition key_less :: "tx_key \<Rightarrow> tx_key \<Rightarrow> bool" where
  "key_less lhs rhs =
     (if key_account lhs < key_account rhs then True
      else if key_account lhs > key_account rhs then False
      else if key_seqProxy lhs < key_seqProxy rhs then True
      else if key_seqProxy lhs > key_seqProxy rhs then False
      else key_txId lhs < key_txId rhs)"

instantiation tx_key :: linorder
begin

definition less_tx_key :: "tx_key \<Rightarrow> tx_key \<Rightarrow> bool" where
  "less_tx_key = key_less"

definition less_eq_tx_key :: "tx_key \<Rightarrow> tx_key \<Rightarrow> bool" where
  "less_eq_tx_key lhs rhs \<longleftrightarrow> \<not> rhs < lhs"

lemma tx_key_less_tuple: "k < k' \<longleftrightarrow> tx_key_tuple k < tx_key_tuple k'"
  by (auto simp: less_tx_key_def key_less_def tx_key_tuple_def less_prod_def)

lemma tx_key_le_tuple: "k \<le> k' \<longleftrightarrow> tx_key_tuple k \<le> tx_key_tuple k'"
  by (simp add: less_eq_tx_key_def tx_key_less_tuple not_less)

instance
  by standard (auto simp: tx_key_less_tuple tx_key_le_tuple tx_key_tuple_eq dest: antisym)

end

subsection \<open>The set\<close>

type_synonym canonical = "(tx_key \<times> tx) list"

definition accountKey :: "u256 \<Rightarrow> account \<Rightarrow> u256" where
  "accountKey salt acct = push_bit 96 (ucast acct) XOR salt"

definition keyOf :: "u256 \<Rightarrow> tx \<Rightarrow> tx_key" where
  "keyOf salt t = Key (accountKey salt (tx_Account t)) (getSeqProxy t) (tx_ID t)"

definition insert_tx :: "u256 \<Rightarrow> tx \<Rightarrow> canonical \<Rightarrow> canonical" where
  "insert_tx salt t m = map_insert (keyOf salt t) t m"

definition popAcctTransaction :: "u256 \<Rightarrow> tx \<Rightarrow> canonical \<Rightarrow> tx option \<times> canonical" where
  "popAcctTransaction salt t m =
     (let effectiveAccount = accountKey salt (tx_Account t);
          seqProxy = getSeqProxy t;
          after = Key effectiveAccount seqProxy 0
      in case lower_bound after m of
           [] \<Rightarrow> (None, m)
         | (k, n) # rest \<Rightarrow>
             if key_account k = effectiveAccount
                \<and> (isTicket (getSeqProxy n) \<or> seqProxy_value (getSeqProxy n) = seqProxy_value seqProxy + 1)
             then (Some n, takeWhile (\<lambda>p. fst p < after) m @ rest)
             else (None, m))"

subsection \<open>Order\<close>

text \<open>The transactions of a set that was filled from nothing, in the order in which they are applied.\<close>

definition canonical_ok :: "u256 \<Rightarrow> canonical \<Rightarrow> bool" where
  "canonical_ok salt m \<longleftrightarrow> ascending m \<and> (\<forall>(k, t) \<in> set m. k = keyOf salt t)"

lemma canonical_ok_Nil: "canonical_ok salt []"
  by (simp add: canonical_ok_def ascending_def)

lemma canonical_ok_insert: "canonical_ok salt m \<Longrightarrow> canonical_ok salt (insert_tx salt t m)"
  by (auto simp: canonical_ok_def insert_tx_def ascending_insert map_insert_set)

lemma accountKey_inj: "accountKey salt a = accountKey salt b \<longleftrightarrow> a = b"
proof
  assume "accountKey salt a = accountKey salt b"
  then have e: "push_bit 96 (ucast a :: u256) = push_bit 96 (ucast b)" by (simp add: accountKey_def xor_cancel)
  show "a = b"
  proof (rule bit_word_eqI)
    fix n assume n: "n < LENGTH(160)"
    have "bit (push_bit 96 (ucast a :: u256)) (n + 96) = bit (push_bit 96 (ucast b :: u256)) (n + 96)"
      using e by simp
    with n show "bit a n = bit b n" by (simp add: bit_simps)
  qed
qed simp

text \<open>
  Transactions of one account come in the order of their sequence numbers, and the ones with a
  sequence number before the ones with a ticket.
\<close>

lemma canonical_account_order:
  assumes "canonical_ok salt m" "i < j" "j < length m" "tx_Account (snd (m ! i)) = tx_Account (snd (m ! j))"
  shows "getSeqProxy (snd (m ! i)) \<le> getSeqProxy (snd (m ! j))"
proof -
  have "fst (m ! i) < fst (m ! j)"
    using assms by (simp add: canonical_ok_def ascending_def sorted_wrt_iff_nth_less)
  moreover have "m ! i \<in> set m" "m ! j \<in> set m" using assms by auto
  then have "fst (m ! i) = keyOf salt (snd (m ! i))" "fst (m ! j) = keyOf salt (snd (m ! j))"
    using assms(1) by (auto simp: canonical_ok_def split_def)
  ultimately show ?thesis using assms(4) by (auto simp: less_tx_key_def key_less_def keyOf_def split: if_splits)
qed

lemma popAcctTransaction_Some:
  assumes "popAcctTransaction salt t m = (Some n, m')" "canonical_ok salt m"
  shows "tx_Account n = tx_Account t \<and> getSeqProxy t \<le> getSeqProxy n
    \<and> (isTicket (getSeqProxy n) \<or> seqProxy_value (getSeqProxy n) = seqProxy_value (getSeqProxy t) + 1)
    \<and> (\<exists>k. (k, n) \<in> set m \<and> set m' = set m - {(k, n)}) \<and> canonical_ok salt m'"
proof -
  define after where "after = Key (accountKey salt (tx_Account t)) (getSeqProxy t) 0"
  let ?tw = "takeWhile (\<lambda>p. fst p < after) m"
  from assms(1) obtain k rest where lb: "lower_bound after m = (k, n) # rest"
    and k: "key_account k = accountKey salt (tx_Account t)"
    and c: "isTicket (getSeqProxy n) \<or> seqProxy_value (getSeqProxy n) = seqProxy_value (getSeqProxy t) + 1"
    and m': "m' = ?tw @ rest"
    by (auto simp: popAcctTransaction_def Let_def after_def split: list.splits prod.splits if_splits)
  have m: "m = ?tw @ (k, n) # rest"
    using takeWhile_dropWhile_id [of "\<lambda>p. fst p < after" m] lb [unfolded lower_bound_def] by metis
  have "\<not> k < after" using lb hd_dropWhile [of "\<lambda>p. fst p < after" m] by (auto simp: lower_bound_def)
  moreover have kn: "k = keyOf salt n"
    using assms(2) m by (metis (mono_tags, lifting) canonical_ok_def case_prodD in_set_conv_decomp)
  ultimately have o: "tx_Account n = tx_Account t \<and> getSeqProxy t \<le> getSeqProxy n"
    using k by (auto simp: keyOf_def accountKey_inj after_def less_tx_key_def key_less_def split: if_splits)
  have a: "sorted_wrt (<) (map fst ?tw @ k # map fst rest)"
    using assms(2) m by (metis ascending_def canonical_ok_def fst_conv list.simps(9) map_append)
  then have nk: "(k, n) \<notin> set ?tw \<union> set rest"
    by (auto simp: sorted_wrt_append)
  then have s: "set m' = set m - {(k, n)}" using m m' by (metis Diff_insert_absorb Un_insert_right list.simps(15) set_append)
  have "ascending m'" using a m' by (simp add: ascending_def sorted_wrt_append)
  with s assms(2) have "canonical_ok salt m'" by (auto simp: canonical_ok_def)
  moreover have "(k, n) \<in> set m" by (subst m) simp
  ultimately show ?thesis using o c s by blast
qed

end
