(* ===== verification/RewardEpoch.thy ===== *)
theory RewardEpoch
  imports Rewards
begin

section \<open>The reward epoch\<close>

text \<open>
  \<^verbatim>\<open>src/libxrpl/tx/RewardEpoch.cpp\<close>: at every epoch boundary a fresh \<^verbatim>\<open>ltREWARD_EPOCH\<close> entry is built
  with the epoch's emission, its split between validators and liquidity providers, and the burn
  rate that follows from how full the treasury is.
\<close>

subsection \<open>Counting providers\<close>

definition aggregateVaultShareSupply :: "view \<Rightarrow> u64" where
  "aggregateVaultShareSupply v =
     fold (\<lambda>(k, s) total. case s of
        SVault shareMptID \<Rightarrow>
          (case read_issuance v shareMptID of Some outstanding \<Rightarrow> total + outstanding | None \<Rightarrow> total)
      | _ \<Rightarrow> total) (v_sles v) 0"

text \<open>The \<^verbatim>\<open>unordered_set\<close>s are lists without duplicates; only their sizes and memberships are used.\<close>

definition shareMptIDs :: "view \<Rightarrow> mptid list" where
  "shareMptIDs v = remdups (concat (map (\<lambda>(k, s). case s of SVault m \<Rightarrow> [m] | _ \<Rightarrow> []) (v_sles v)))"

definition lp_providers :: "view \<Rightarrow> account list" where
  "lp_providers v = remdups (concat (map (\<lambda>(k, s). case s of
       SMPToken mt \<Rightarrow>
         if mt_MPTokenIssuanceID mt \<notin> set (shareMptIDs v) then []
         else if getU (mt_MPTAmount mt) = 0 then []
         else [mt_Account mt]
     | _ \<Rightarrow> []) (v_sles v)))"

definition countActiveLpProviders :: "view \<Rightarrow> u32" where
  "countActiveLpProviders v =
     (if shareMptIDs v = [] then 0 else word_of_nat (length (lp_providers v)))"

record NativeAmmInfo =
  na_ammAccount :: account
  na_lpCurrency :: currency
  na_xrpDrops :: drops

text \<open>A 64-bit mantissa read as a signed value.\<close>

definition listNativeAmms :: "env \<Rightarrow> view \<Rightarrow> NativeAmmInfo list" where
  "listNativeAmms e v = concat (map (\<lambda>(k, s). case s of
       SAmm amm \<Rightarrow>
         if \<not> asset_native (amm_Asset amm) \<and> \<not> asset_native (amm_Asset2 amm) then []
         else let held0 = (case read_account v (amm_Account amm) of None \<Rightarrow> 0 | Some a \<Rightarrow> acc_Balance a);
                  xrpDrops = (if held0 \<le> 0 then max 1 (s64 (uint (mantissa (amm_LPTokenBalance amm)))) else held0)
              in [\<lparr>na_ammAccount = amm_Account amm,
                   na_lpCurrency = e_ammLPTCurrency e (amm_Asset amm) (amm_Asset2 amm),
                   na_xrpDrops = xrpDrops\<rparr>]
     | _ \<Rightarrow> []) (v_sles v))"

fun getIssuer :: "stamount \<Rightarrow> account" where
  "getIssuer (IOU c i neg m ex) = i"
| "getIssuer (Native d) = 0"

text \<open>The inner loop of \<open>countAmmLpProvidersAndTvl\<close>: the first AMM that matches the line's currency and issuer.\<close>

fun line_provider :: "ripple_state \<Rightarrow> currency \<Rightarrow> account \<Rightarrow> NativeAmmInfo list \<Rightarrow> account list" where
  "line_provider sle cur iss [] = []"
| "line_provider sle cur iss (a # amms) =
     (if cur \<noteq> na_lpCurrency a then line_provider sle cur iss amms
      else if iss \<noteq> na_ammAccount a then line_provider sle cur iss amms
      else let lo = getIssuer (rs_LowLimit sle); hi = getIssuer (rs_HighLimit sle);
               holder = (if lo = na_ammAccount a then hi else lo)
           in if holder = na_ammAccount a \<or> holder = 0 then line_provider sle cur iss amms
              else [holder])"

definition amm_providers :: "view \<Rightarrow> NativeAmmInfo list \<Rightarrow> account list" where
  "amm_providers v amms = remdups (concat (map (\<lambda>(k, s). case s of
       SRippleState sle \<Rightarrow>
         (case rs_Balance sle of
            Native _ \<Rightarrow> []
          | IOU cur iss neg m ex \<Rightarrow> if m = 0 then [] else line_provider sle cur iss amms)
     | _ \<Rightarrow> []) (v_sles v)))"

definition countAmmLpProvidersAndTvl :: "env \<Rightarrow> view \<Rightarrow> u32 \<times> u64" where
  "countAmmLpProvidersAndTvl e v =
     (let amms = listNativeAmms e v in
      if amms = [] then (0, 0)
      else (word_of_nat (length (amm_providers v amms)),
            fold (\<lambda>a tvl. tvl + word_of_int (max 0 (na_xrpDrops a))) amms 0))"

subsection \<open>The epoch entry\<close>

definition epochPoolDrops :: "u32 \<Rightarrow> drops \<Rightarrow> drops" where
  "epochPoolDrops epochNum treasuryDrops =
     (let emissionBps = (if epochNum < kQXRP_FIRST_EMISSION_EPOCH then 0 else cidEmissionBps epochNum)
      in if emissionBps = 0 then 0 else muldiv64 treasuryDrops emissionBps kBPS_DENOM)"

definition epochBurnBps :: "drops \<Rightarrow> u32" where
  "epochBurnBps treasuryDrops =
     (let perBps = c_div kQXRP_TREASURY_ALLOCATION 10000;
          fillBps = (ucast ((word_of_int treasuryDrops :: u64) div word_of_int perBps) :: u32)
      in clamp (kFEE_BURN_DEFAULT_BPS
                + ucast ((ucast fillBps :: u64) * ucast kFEE_TREASURY_SENSITIVITY_BPS div ucast kBPS_DENOM))
           kFEE_BURN_MIN_BPS kFEE_BURN_MAX_BPS)"

text \<open>A field that would be zero is left absent.\<close>

definition nonzero :: "'a::zero \<Rightarrow> 'a option" where
  "nonzero x = (if x \<noteq> 0 then Some x else None)"

definition newEpoch :: "env \<Rightarrow> view \<Rightarrow> u32 \<Rightarrow> drops \<Rightarrow> reward_epoch" where
  "newEpoch e v seq treasuryDrops =
     (let epochNum = seq div kQXRP_LEDGERS_PER_EPOCH;
          (ammProviderCount, aggregateAmmTvl) = countAmmLpProvidersAndTvl e v;
          poolDrops = epochPoolDrops epochNum treasuryDrops;
          prevFeeVolumeEMA = (case read_epoch v of None \<Rightarrow> 0 | Some slePrev \<Rightarrow> getU (ep_FeeVolumeEMA slePrev))
      in \<lparr>ep_EpochNumber = epochNum, ep_EpochStartLedger = seq,
          ep_EpochPoolBalance = poolDrops, ep_EmissionRate = poolDrops,
          ep_CurrentBurnBps = epochBurnBps treasuryDrops,
          ep_FeeVolumeEMA = nonzero prevFeeVolumeEMA,
          ep_AggregateCompositeScore = None,
          ep_LPAllocationBps = nonzero (poplLpParticipationBps (countActiveLpProviders v)),
          ep_AggregateLPShares = nonzero (aggregateVaultShareSupply v),
          ep_AmmLPAllocationBps = nonzero (poplAmmLpParticipationBps ammProviderCount),
          ep_AggregateAmmTvlDrops = nonzero aggregateAmmTvl,
          ep_Proposals = None,
          ep_PreviousTxnID = 0, ep_PreviousTxnLgrSeq = seq\<rparr>)"

definition applyRewardEpoch :: "env \<Rightarrow> view \<Rightarrow> u32 \<Rightarrow> view" where
  "applyRewardEpoch e v seq =
     (if \<not> e_featureProofOfParticipation e then v
      else if seq = 0 \<or> seq mod kQXRP_LEDGERS_PER_EPOCH \<noteq> 0 then v
      else let treasuryDrops = (case read_account v (e_TreasuryAccountID e) of
                 None \<Rightarrow> 0 | Some sleTreasury \<Rightarrow> acc_Balance sleTreasury)
           in if treasuryDrops \<le> 0 then v
              else put_epoch v (newEpoch e v seq treasuryDrops))"

subsection \<open>What an epoch boundary establishes\<close>

lemma aggregate_eq_live: "aggregateVaultShareSupply v = liveAggregateVaultShareSupply v"
  by (simp add: aggregateVaultShareSupply_def liveAggregateVaultShareSupply_def)

lemma nonzero_simps [simp]: "getU (nonzero w) = w" "default_ok (nonzero w)"
  by (simp_all add: nonzero_def)

lemma epochPoolDrops_exact:
  assumes "0 \<le> t" "t < 2 ^ 63"
  shows "epochPoolDrops n t = (if n < kQXRP_FIRST_EMISSION_EPOCH then 0 else t * uint (cidEmissionBps n) div 10000)"
    and "0 \<le> epochPoolDrops n t" and "epochPoolDrops n t \<le> t"
proof -
  note m = muldiv64_bps [OF assms cidEmissionBps_le_denom, of n]
  have z: "muldiv64 t 0 kBPS_DENOM = 0" using muldiv64_bps(1) [OF assms, of 0] by simp
  show "epochPoolDrops n t = (if n < kQXRP_FIRST_EMISSION_EPOCH then 0 else t * uint (cidEmissionBps n) div 10000)"
    using m(1) by (auto simp: epochPoolDrops_def Let_def)
  show "0 \<le> epochPoolDrops n t" "epochPoolDrops n t \<le> t"
    using m assms(1) by (auto simp: epochPoolDrops_def Let_def)
qed

lemma epochBurnBps_range: "kFEE_BURN_MIN_BPS \<le> epochBurnBps t \<and> epochBurnBps t \<le> kFEE_BURN_MAX_BPS"
  unfolding epochBurnBps_def Let_def by (rule clamp_bounds) (simp add: qxrp_const word_le_nat_alt)

lemma newEpoch_fields:
  "ep_EpochNumber (newEpoch e v seq t) = seq div kQXRP_LEDGERS_PER_EPOCH"
  "ep_EpochPoolBalance (newEpoch e v seq t) = epochPoolDrops (seq div kQXRP_LEDGERS_PER_EPOCH) t"
  "ep_EmissionRate (newEpoch e v seq t) = epochPoolDrops (seq div kQXRP_LEDGERS_PER_EPOCH) t"
  "ep_CurrentBurnBps (newEpoch e v seq t) = epochBurnBps t"
  "ep_Proposals (newEpoch e v seq t) = None"
  "getU (ep_LPAllocationBps (newEpoch e v seq t)) = poplLpParticipationBps (countActiveLpProviders v)"
  "getU (ep_AmmLPAllocationBps (newEpoch e v seq t))
     = poplAmmLpParticipationBps (fst (countAmmLpProvidersAndTvl e v))"
  "applyTemplate_ok (SEpoch (newEpoch e v seq t))"
  by (simp_all add: newEpoch_def Let_def split: prod.splits)

lemma applyRewardEpoch_boundary:
  assumes "e_featureProofOfParticipation e" "seq \<noteq> 0" "seq mod kQXRP_LEDGERS_PER_EPOCH = 0" "0 < treasury_drops e v"
  shows "read_epoch (applyRewardEpoch e v seq) = Some (newEpoch e v seq (treasury_drops e v))"
  using assms by (auto simp: applyRewardEpoch_def treasury_drops_def put_defs Let_def split: option.splits)

lemma applyRewardEpoch_epoch_ok:
  assumes "epoch_ok v" "treasury_drops e v < 2 ^ 63"
  shows "epoch_ok (applyRewardEpoch e v seq)"
proof (cases "applyRewardEpoch e v seq = v")
  case False
  then have t: "0 < treasury_drops e v"
    and r: "read_epoch (applyRewardEpoch e v seq) = Some (newEpoch e v seq (treasury_drops e v))"
    by (auto simp: applyRewardEpoch_def treasury_drops_def put_defs Let_def split: option.splits if_splits)
  from epochPoolDrops_exact(2,3) [of "treasury_drops e v" "seq div kQXRP_LEDGERS_PER_EPOCH"] t assms(2)
  have "0 \<le> epochPoolDrops (seq div kQXRP_LEDGERS_PER_EPOCH) (treasury_drops e v)"
    "epochPoolDrops (seq div kQXRP_LEDGERS_PER_EPOCH) (treasury_drops e v) < 2 ^ 63" by linarith+
  then show ?thesis by (simp add: epoch_ok_def r newEpoch_fields)
qed (simp add: assms)

lemma applyRewardEpoch_conserves:
  assumes "sound_view v" "opt_val sle_drops (find_sle v KRewardEpoch) = 0"
  shows "conserves v (applyRewardEpoch e v seq)"
  using assms by (auto simp: applyRewardEpoch_def put_defs Let_def conserves_refl intro: conserves_same)

text \<open>
  Trust lines record their balance with \<open>noAccount\<close> as issuer, never with one of the two parties.
  In such a ledger no line matches any AMM, so no AMM liquidity provider is ever counted.
\<close>

definition noAccount :: account where "noAccount = 1"

definition lines_neutral :: "view \<Rightarrow> bool" where
  "lines_neutral v \<longleftrightarrow> (\<forall>p \<in> set (v_sles v). case snd p of
     SRippleState r \<Rightarrow> getIssuer (rs_Balance r) = noAccount | _ \<Rightarrow> True)"

lemma line_provider_neutral:
  "(\<forall>a \<in> set amms. na_ammAccount a \<noteq> iss) \<Longrightarrow> line_provider sle cur iss amms = []"
  by (induction amms) auto

lemma amm_accounts: "a \<in> set (listNativeAmms e v) \<Longrightarrow>
    \<exists>k amm. (k, SAmm amm) \<in> set (v_sles v) \<and> na_ammAccount a = amm_Account amm"
  by (fastforce simp: listNativeAmms_def Let_def split: sle.splits if_splits)

lemma amm_providers_none:
  assumes "lines_neutral v" "\<forall>a \<in> set amms. na_ammAccount a \<noteq> noAccount"
  shows "amm_providers v amms = []"
proof -
  have "(case s of SRippleState sle \<Rightarrow>
         (case rs_Balance sle of Native _ \<Rightarrow> []
          | IOU cur iss neg m ex \<Rightarrow> if m = 0 then [] else line_provider sle cur iss amms)
       | _ \<Rightarrow> []) = []" if m: "(k, s) \<in> set (v_sles v)" for k s
  proof -
    from assms(1) m have n: "case s of SRippleState r \<Rightarrow> getIssuer (rs_Balance r) = noAccount | _ \<Rightarrow> True"
      by (fastforce simp: lines_neutral_def)
    show ?thesis
    proof (cases s)
      case (SRippleState r)
      with n assms(2) show ?thesis
        by (cases "rs_Balance r") (simp_all add: line_provider_neutral)
    qed simp_all
  qed
  then have "\<forall>p \<in> set (v_sles v). (case snd p of SRippleState sle \<Rightarrow>
         (case rs_Balance sle of Native _ \<Rightarrow> []
          | IOU cur iss neg m ex \<Rightarrow> if m = 0 then [] else line_provider sle cur iss amms)
       | _ \<Rightarrow> []) = []" by auto
  then show ?thesis by (simp add: amm_providers_def case_prod_unfold)
qed

lemma countAmmLpProviders_neutral:
  assumes "lines_neutral v" "\<forall>k amm. (k, SAmm amm) \<in> set (v_sles v) \<longrightarrow> amm_Account amm \<noteq> noAccount"
  shows "fst (countAmmLpProvidersAndTvl e v) = 0"
proof -
  from assms(2) have "\<forall>a \<in> set (listNativeAmms e v). na_ammAccount a \<noteq> noAccount"
    by (fastforce dest: amm_accounts)
  then show ?thesis by (simp add: countAmmLpProvidersAndTvl_def amm_providers_none assms(1) Let_def)
qed

end
