(* ===== verification/Scoring.thy ===== *)
theory Scoring
  imports RewardEpoch Bonding
begin

section \<open>Validator scores\<close>

text \<open>
  \<^verbatim>\<open>src/xrpld/app/ledger/detail/ValidatorScoring.cpp\<close>: every 256 ledgers each bonded validator is scored
  over the window of the last 256 ancestors (uptime, vote accuracy, latency, consistency), the
  score is damped by its slash multiplier and blended with its previous one, and the sum over all
  bonded validators is recorded in the epoch entry. The validations a node holds, the parent's
  skip list and the hash that makes a node identifier of a key are inputs.
\<close>

subsection \<open>The four signals\<close>

definition latencyBpsFromDelayMs :: "u64 \<Rightarrow> u32" where
  "latencyBpsFromDelayMs delayMs =
     (let units = delayMs div 10; penalty = units * ucast kLATENCY_PENALTY_BPS_PER_10MS
      in if ucast kBPS_DENOM \<le> penalty then 0 else ucast (ucast kBPS_DENOM - penalty))"

definition emaComposite :: "u32 \<Rightarrow> u32 \<Rightarrow> u32" where
  "emaComposite raw previous =
     (if previous = 0 then raw
      else ucast (((ucast raw :: u64) * ucast kSCORE_EMA_NEW_BPS
                   + ucast previous * ucast (kBPS_DENOM - kSCORE_EMA_NEW_BPS)) div ucast kBPS_DENOM))"

text \<open>The loop over the presence bits keeps the current gap and the longest one.\<close>

fun gap_loop :: "u8 list \<Rightarrow> u32 \<Rightarrow> u32 \<Rightarrow> u32" where
  "gap_loop [] gap maxGap = maxGap"
| "gap_loop (b # bs) gap maxGap =
     (if b = 0 then gap_loop bs (gap + 1) (max maxGap (gap + 1)) else gap_loop bs 0 maxGap)"

definition consistencyFromPresence :: "u8 list \<Rightarrow> u32" where
  "consistencyFromPresence present =
     (if present = [] then 0
      else let maxGap = gap_loop present 0 0;
               pen = (ucast maxGap * ucast kBPS_DENOM :: u64) div word_of_nat (length present)
           in if ucast kBPS_DENOM \<le> pen then 0 else ucast (ucast kBPS_DENOM - pen))"

record WindowStats =
  ws_presenceCount :: u32
  ws_correctCount :: u32
  ws_latencySumBps :: u64
  ws_latencySamples :: u32
  ws_present :: "u8 list"

definition empty_stats :: WindowStats where
  "empty_stats = \<lparr>ws_presenceCount = 0, ws_correctCount = 0, ws_latencySumBps = 0,
     ws_latencySamples = 0, ws_present = []\<rparr>"

subsection \<open>Scoring one bond\<close>

record ScoringTarget =
  tg_key :: key
  tg_bond :: validator_bond
  tg_nodeID :: account

definition uptimeBps :: "WindowStats \<Rightarrow> u32" where
  "uptimeBps st =
     (let window = (if ws_present st = [] then kFLAG_LEDGER_INTERVAL else word_of_nat (length (ws_present st)))
      in min (ucast ((ucast (ws_presenceCount st) * ucast kBPS_DENOM :: u64) div ucast window)) kBPS_DENOM)"

definition voteAccBps :: "WindowStats \<Rightarrow> u32" where
  "voteAccBps st =
     (if 0 < ws_presenceCount st
      then min (ucast ((ucast (ws_correctCount st) * ucast kBPS_DENOM :: u64) div ucast (ws_presenceCount st)))
             kBPS_DENOM
      else 0)"

definition latencyBps :: "WindowStats \<Rightarrow> u32" where
  "latencyBps st =
     (if 0 < ws_latencySamples st
      then min (ucast (ws_latencySumBps st div ucast (ws_latencySamples st))) kBPS_DENOM
      else 0)"

definition rawScore :: "WindowStats \<Rightarrow> u32" where
  "rawScore st =
     ucast (((ucast (uptimeBps st) :: u64) * ucast kSCORE_WEIGHT_UPTIME
             + ucast (voteAccBps st) * ucast kSCORE_WEIGHT_VOTE_ACC
             + ucast (latencyBps st) * ucast kSCORE_WEIGHT_LATENCY
             + ucast (consistencyFromPresence (ws_present st)) * ucast kSCORE_WEIGHT_CONSISTENCY) div 100)"

text \<open>The product with the slash multiplier is taken in 128 bits.\<close>

definition rawSlashed :: "WindowStats \<Rightarrow> u32 \<Rightarrow> u32" where
  "rawSlashed st slashMult = word_of_int (uint (rawScore st) * uint slashMult div uint kBPS_DENOM)"

text \<open>\<open>setScore\<close>: a zero score is an absent field, which is \<open>nonzero\<close> of the score.\<close>

definition scored_bond :: "WindowStats \<Rightarrow> u32 \<Rightarrow> validator_bond \<Rightarrow> validator_bond" where
  "scored_bond st seq b =
     b\<lparr>bond_UptimeBps := nonzero (uptimeBps st),
       bond_VoteAccuracyBps := nonzero (voteAccBps st),
       bond_LatencyScoreBps := nonzero (latencyBps st),
       bond_ConsistencyBps := nonzero (consistencyFromPresence (ws_present st)),
       bond_CompositeScore := nonzero (emaComposite (rawSlashed st (bond_SlashMultiplier b))
         (getU (bond_CompositeScore b))),
       bond_PreviousTxnLgrSeq := seq\<rparr>"

definition scoreBond :: "(account \<times> WindowStats) list \<Rightarrow> u32 \<Rightarrow> ScoringTarget \<Rightarrow> view \<Rightarrow> ScoringTarget \<times> view" where
  "scoreBond stats seq target v =
     (let st = (case map_of stats (tg_nodeID target) of Some s \<Rightarrow> s | None \<Rightarrow> empty_stats);
          b = scored_bond st seq (tg_bond target)
      in (target\<lparr>tg_bond := b\<rparr>, put v (tg_key target) (SBond b)))"

definition sumAggregateComposites :: "ScoringTarget list \<Rightarrow> u32" where
  "sumAggregateComposites targets =
     fold (\<lambda>t aggregateScore. case bond_CompositeScore (tg_bond t) of
         None \<Rightarrow> aggregateScore
       | Some c \<Rightarrow> if c = 0 then aggregateScore
                   else if c \<le> (- 1) - aggregateScore then aggregateScore + c else - 1) targets 0"

subsection \<open>Scoring a window\<close>

record full_validation =
  fv_NodeID :: account
  fv_SignTime :: u32        \<comment> \<open>seconds of the network clock\<close>

record scoring_inputs =
  si_calcNodeID :: "blob \<Rightarrow> account"
  si_getFullForSequence :: "u32 \<Rightarrow> full_validation list"
  si_getFullForLedger :: "u256 \<Rightarrow> u32 \<Rightarrow> full_validation list"
  si_skipHashes :: "u256 list option"

definition scoring_targets :: "scoring_inputs \<Rightarrow> view \<Rightarrow> ScoringTarget list" where
  "scoring_targets si v = concat (map (\<lambda>(k, s). case s of
       SBond b \<Rightarrow>
         if bond_BondStatus b \<noteq> kBOND_STATUS_BONDED then []
         else if \<not> isValidNodeKey (bond_ConsensusKey b) then []
         else [\<lparr>tg_key = k, tg_bond = b, tg_nodeID = si_calcNodeID si (bond_ConsensusKey b)\<rparr>]
     | _ \<Rightarrow> []) (v_sles v))"

definition init_stats :: "ScoringTarget list \<Rightarrow> (account \<times> WindowStats) list" where
  "init_stats targets = fold (\<lambda>t stats.
       let s = (case map_of stats (tg_nodeID t) of Some s \<Rightarrow> s | None \<Rightarrow> empty_stats)
       in AList.update (tg_nodeID t)
            (if ws_present s = [] then s\<lparr>ws_present := replicate (unat kFLAG_LEDGER_INTERVAL) 0\<rparr> else s) stats)
     targets []"

fun earliest_sign :: "full_validation list \<Rightarrow> u32 option \<Rightarrow> u32 option" where
  "earliest_sign [] earliest = earliest"
| "earliest_sign (v # vs) earliest =
     (let t = fv_SignTime v in
      case earliest of None \<Rightarrow> earliest_sign vs (Some t)
      | Some e \<Rightarrow> earliest_sign vs (if t < e then Some t else Some e))"

definition note_presence :: "nat \<Rightarrow> WindowStats \<Rightarrow> WindowStats" where
  "note_presence i s =
     (if ws_present s ! i = 0
      then s\<lparr>ws_present := (ws_present s)[i := 1], ws_presenceCount := ws_presenceCount s + 1\<rparr>
      else s)"

definition delayMs :: "u32 \<Rightarrow> u32 \<Rightarrow> u64" where
  "delayMs t earliest = (if earliest < t then word_of_int (uint (t - earliest) * 1000) else 0)"

definition note_correct :: "u32 option \<Rightarrow> u32 \<Rightarrow> WindowStats \<Rightarrow> WindowStats" where
  "note_correct earliest t s0 =
     (let s = s0\<lparr>ws_correctCount := ws_correctCount s0 + 1\<rparr> in
      case earliest of None \<Rightarrow> s
      | Some e \<Rightarrow> s\<lparr>ws_latencySumBps := ws_latencySumBps s + ucast (latencyBpsFromDelayMs (delayMs t e)),
                    ws_latencySamples := ws_latencySamples s + 1\<rparr>)"

text \<open>A look-up in the statistics followed by an update of what was found.\<close>

definition on_stats :: "(WindowStats \<Rightarrow> WindowStats) \<Rightarrow> account \<Rightarrow> (account \<times> WindowStats) list \<Rightarrow> (account \<times> WindowStats) list" where
  "on_stats f nid stats =
     (case map_of stats nid of None \<Rightarrow> stats | Some s \<Rightarrow> AList.update nid (f s) stats)"

definition score_ancestor :: "scoring_inputs \<Rightarrow> u32 \<Rightarrow> u256 list \<Rightarrow> nat \<Rightarrow> (account \<times> WindowStats) list \<Rightarrow> (account \<times> WindowStats) list" where
  "score_ancestor si seq ledgerAncestors i stats =
     (let ancestorHash = ledgerAncestors ! (length ledgerAncestors - 1 - i);
          ancestorSeq = seq - 2 - word_of_nat i;
          anyVals = si_getFullForSequence si ancestorSeq;
          correctVals = si_getFullForLedger si ancestorHash ancestorSeq;
          earliest = earliest_sign correctVals None;
          stats1 = fold (\<lambda>v. on_stats (note_presence i) (fv_NodeID v)) anyVals stats
      in fold (\<lambda>v. on_stats (note_correct earliest (fv_SignTime v)) (fv_NodeID v)) correctVals stats1)"

definition window_stats :: "scoring_inputs \<Rightarrow> u32 \<Rightarrow> u256 list \<Rightarrow> ScoringTarget list \<Rightarrow> (account \<times> WindowStats) list" where
  "window_stats si seq ledgerAncestors targets =
     fold (score_ancestor si seq ledgerAncestors) [0..<unat kFLAG_LEDGER_INTERVAL] (init_stats targets)"

fun score_all :: "(account \<times> WindowStats) list \<Rightarrow> u32 \<Rightarrow> ScoringTarget list \<Rightarrow> view \<Rightarrow> ScoringTarget list \<times> view" where
  "score_all stats seq [] v = ([], v)"
| "score_all stats seq (t # ts) v =
     (case scoreBond stats seq t v of (t', v1) \<Rightarrow>
      case score_all stats seq ts v1 of (ts', v2) \<Rightarrow> (t' # ts', v2))"

definition record_aggregate :: "u32 \<Rightarrow> view \<Rightarrow> view" where
  "record_aggregate aggregateScore v =
     (case read_epoch v of
        Some sleEpoch \<Rightarrow> put_epoch v (sleEpoch\<lparr>ep_AggregateCompositeScore := nonzero aggregateScore\<rparr>)
      | None \<Rightarrow> v)"

definition applyValidatorScoring :: "env \<Rightarrow> scoring_inputs \<Rightarrow> u32 \<Rightarrow> view \<Rightarrow> view" where
  "applyValidatorScoring e si seq v =
     (if \<not> e_featureProofOfParticipation e then v
      else if seq = 0 \<or> seq mod kFLAG_LEDGER_INTERVAL \<noteq> 0 then v
      else case si_skipHashes si of None \<Rightarrow> v
      | Some ledgerAncestors \<Rightarrow>
          if length ledgerAncestors < unat kFLAG_LEDGER_INTERVAL then v
          else let targets = scoring_targets si v;
                   stats = window_stats si seq ledgerAncestors targets;
                   (targets', v1) = score_all stats seq targets v
               in record_aggregate (sumAggregateComposites targets') v1)"

subsection \<open>Bounds of the signals\<close>

lemma latencyBpsFromDelayMs_value: "unat (latencyBpsFromDelayMs d) = 10000 - unat d div 10"
proof -
  have u: "unat (d div 10) = unat d div 10" by (simp add: unat_div)
  show ?thesis
  proof (cases "unat d div 10 < 10000")
    case True
    then have "unat (ucast kBPS_DENOM - d div 10 :: u64) = 10000 - unat d div 10"
      by (simp add: qxrp_const unat_sub word_le_nat_alt u)
    with True show ?thesis
      by (simp add: latencyBpsFromDelayMs_def Let_def qxrp_const word_le_nat_alt u unsigned_ucast_eq take_bit_nat_eq_self)
  qed (simp add: latencyBpsFromDelayMs_def Let_def qxrp_const word_le_nat_alt u)
qed

lemma emaComposite_value:
  "previous \<noteq> 0 \<Longrightarrow> unat (emaComposite raw previous) = (unat raw * 3500 + unat previous * 6500) div 10000"
proof -
  assume p: "previous \<noteq> 0"
  let ?x = "(ucast raw :: u64) * 3500 + ucast previous * 6500"
  have b: "unat raw * 3500 + unat previous * 6500 < 10000 * 2 ^ 32"
    using unat32_lt [of raw] unat32_lt [of previous] by linarith
  then have "unat ?x = unat raw * 3500 + unat previous * 6500"
    by (simp add: unat_word_ariths unsigned_ucast_eq take_bit_nat_eq_self mod_less)
  then have "unat (?x div 10000) = (unat raw * 3500 + unat previous * 6500) div 10000"
    by (simp add: unat_div)
  moreover have "(unat raw * 3500 + unat previous * 6500) div 10000 < 2 ^ 32" using b by linarith
  ultimately show ?thesis using p
    by (simp add: emaComposite_def qxrp_const unsigned_ucast_eq take_bit_nat_eq_self)
qed

lemma emaComposite_between:
  assumes "previous \<noteq> 0"
  shows "min raw previous \<le> emaComposite raw previous" "emaComposite raw previous \<le> max raw previous"
  using emaComposite_value [OF assms, of raw]
  by (auto simp: word_le_nat_alt unat_min unat_max min_def max_def)

lemma emaComposite_le: "unat raw \<le> b \<Longrightarrow> unat previous \<le> b \<Longrightarrow> unat (emaComposite raw previous) \<le> b"
  by (cases "previous = 0") (simp_all add: emaComposite_value, simp add: emaComposite_def)

text \<open>The longest run of absences, as a specification, and the loop that computes it.\<close>

definition absent_run :: "u8 list \<Rightarrow> nat \<Rightarrow> nat \<Rightarrow> bool" where
  "absent_run p i n \<longleftrightarrow> i + n \<le> length p \<and> (\<forall>j. i \<le> j \<and> j < i + n \<longrightarrow> p ! j = 0)"

fun max_gap :: "u8 list \<Rightarrow> nat \<Rightarrow> nat \<Rightarrow> nat" where
  "max_gap [] gap m = m"
| "max_gap (b # bs) gap m = (if b = 0 then max_gap bs (Suc gap) (max m (Suc gap)) else max_gap bs 0 m)"

lemma gap_loop_max_gap:
  "unat gap + length bs < 2 ^ 32 \<Longrightarrow> unat (gap_loop bs gap m) = max_gap bs (unat gap) (unat m)"
proof (induction bs arbitrary: gap m)
  case (Cons b bs)
  then have "unat (gap + 1) = Suc (unat gap)" by (simp add: unat_word_ariths)
  with Cons show ?case by (simp add: unat_max)
qed simp

lemma max_gap_mono: "m \<le> max_gap bs gap m"
proof (induction bs arbitrary: gap m)
  case (Cons b bs)
  from Cons.IH [of "max m (Suc gap)" "Suc gap"] Cons.IH [of m 0] show ?case by simp
qed simp

text \<open>
  With \<open>gap\<close> absences just before \<open>bs\<close>, the loop finds the longest run of the whole list.
\<close>

lemma max_gap_upper:
  "absent_run (replicate gap 0 @ bs) i n \<Longrightarrow> gap \<le> m \<Longrightarrow> n \<le> max_gap bs gap m"
proof (induction bs arbitrary: gap m i)
  case Nil
  then show ?case by (simp add: absent_run_def)
next
  case (Cons b bs)
  show ?case
  proof (cases "b = 0")
    case True
    then have "replicate gap 0 @ b # bs = replicate (Suc gap) 0 @ bs"
      by (simp add: replicate_app_Cons_same)
    with Cons.prems(1) have "absent_run (replicate (Suc gap) 0 @ bs) i n" by (simp only:)
    from Cons.IH [OF this, of "max m (Suc gap)"] True show ?thesis by simp
  next
    case False
    from Cons.prems(1) have r: "i + n \<le> gap + Suc (length bs)"
      "\<And>j. i \<le> j \<Longrightarrow> j < i + n \<Longrightarrow> (replicate gap 0 @ b # bs) ! j = 0"
      by (auto simp: absent_run_def)
    show ?thesis
    proof (cases "i \<le> gap \<and> gap < i + n")
      case True
      with r(2) [of gap] False show ?thesis by (simp add: nth_append)
    next
      case out: False
      show ?thesis
      proof (cases "i + n \<le> gap")
        case True
        with Cons.prems(2) max_gap_mono [of m bs 0] False show ?thesis by simp
      next
        case hi: False
        with out have g: "gap < i" by simp
        have "absent_run bs (i - Suc gap) n"
          unfolding absent_run_def
        proof (intro conjI allI impI)
          show "i - Suc gap + n \<le> length bs" using r(1) g by simp
          fix j assume "i - Suc gap \<le> j \<and> j < i - Suc gap + n"
          with r(2) [of "j + Suc gap"] g show "bs ! j = 0" by (auto simp: nth_append)
        qed
        with Cons.IH [of 0 "i - Suc gap" m] False show ?thesis by simp
      qed
    qed
  qed
qed

lemma absent_run_append: "absent_run p i n \<Longrightarrow> absent_run (p @ q) i n"
  by (auto simp: absent_run_def nth_append)

lemma max_gap_witness:
  "absent_run pre i m \<Longrightarrow> absent_run pre (length pre - gap) gap \<Longrightarrow> gap \<le> length pre \<Longrightarrow>
   \<exists>i. absent_run (pre @ bs) i (max_gap bs gap m)"
proof (induction bs arbitrary: pre gap m i)
  case Nil
  then show ?case by auto
next
  case (Cons b bs)
  show ?case
  proof (cases "b = 0")
    case True
    have tail: "absent_run (pre @ [b]) (length (pre @ [b]) - Suc gap) (Suc gap)"
      using Cons.prems(2,3) True by (auto simp: absent_run_def nth_append less_Suc_eq)
    have "\<exists>i. absent_run (pre @ [b]) i (max m (Suc gap))"
      using tail absent_run_append [OF Cons.prems(1), of "[b]"] by (auto simp: max_def)
    then obtain i' where "absent_run (pre @ [b]) i' (max m (Suc gap))" ..
    from Cons.IH [OF this tail] Cons.prems(3) True show ?thesis by simp
  next
    case False
    have "absent_run (pre @ [b]) (length (pre @ [b]) - 0) 0" by (auto simp: absent_run_def)
    from Cons.IH [OF absent_run_append [OF Cons.prems(1), of "[b]"] this] False
    show ?thesis by simp
  qed
qed

lemma gap_loop_longest:
  assumes "length p < 2 ^ 32"
  shows "\<exists>i. absent_run p i (unat (gap_loop p 0 0))"
    and "absent_run p i n \<Longrightarrow> n \<le> unat (gap_loop p 0 0)"
proof -
  have g: "unat (gap_loop p 0 0) = max_gap p 0 0" using gap_loop_max_gap [of 0 p 0] assms by simp
  show "\<exists>i. absent_run p i (unat (gap_loop p 0 0))"
    using max_gap_witness [of "[]" 0 0 0 p] by (simp add: g absent_run_def)
  show "n \<le> unat (gap_loop p 0 0)" if "absent_run p i n"
    using max_gap_upper [of 0 p i n 0] that by (simp add: g)
qed

lemma consistencyFromPresence_value:
  assumes "p \<noteq> []" "length p < 2 ^ 32"
  shows "unat (consistencyFromPresence p) = 10000 - unat (gap_loop p 0 0) * 10000 div length p"
proof -
  let ?g = "unat (gap_loop p 0 0)"
  have gl: "?g \<le> length p" using gap_loop_longest(1) [OF assms(2)] by (auto simp: absent_run_def)
  have "unat (ucast (gap_loop p 0 0) * ucast kBPS_DENOM :: u64) = ?g * 10000"
    using unat32_lt [of "gap_loop p 0 0"]
    by (simp add: qxrp_const unat_word_ariths unsigned_ucast_eq take_bit_nat_eq_self mod_less)
  moreover have "unat (word_of_nat (length p) :: u64) = length p"
    using assms(2) by (simp add: unat_of_nat mod_less)
  ultimately have pen: "unat ((ucast (gap_loop p 0 0) * ucast kBPS_DENOM :: u64) div word_of_nat (length p))
      = ?g * 10000 div length p" by (simp add: unat_div)
  let ?pen = "(ucast (gap_loop p 0 0) * ucast kBPS_DENOM :: u64) div word_of_nat (length p)"
  show ?thesis
  proof (cases "?g * 10000 div length p < 10000")
    case True
    then have lt: "?pen < ucast kBPS_DENOM" using pen by (simp add: word_less_nat_alt qxrp_const)
    then have "unat (ucast kBPS_DENOM - ?pen) = 10000 - ?g * 10000 div length p"
      using pen by (simp add: unat_sub qxrp_const)
    with lt assms(1) show ?thesis
      by (simp add: consistencyFromPresence_def Let_def unsigned_ucast_eq take_bit_nat_eq_self not_le)
  next
    case False
    then have "ucast kBPS_DENOM \<le> ?pen" using pen by (simp add: word_le_nat_alt qxrp_const)
    with False assms(1) show ?thesis by (simp add: consistencyFromPresence_def Let_def)
  qed
qed

lemma consistency_le: "unat (consistencyFromPresence p) \<le> 10000"
proof -
  have "unat (ucast (ucast kBPS_DENOM - x :: u64) :: u32) \<le> 10000" if "x < ucast kBPS_DENOM" for x :: u64
  proof -
    from that have "unat (ucast kBPS_DENOM - x) \<le> 10000" by (simp add: unat_sub qxrp_const)
    then show ?thesis by (simp add: unsigned_ucast_eq take_bit_nat_eq_self)
  qed
  then show ?thesis by (auto simp: consistencyFromPresence_def Let_def not_le)
qed

lemma signal_bounds:
  "unat (uptimeBps st) \<le> 10000" "unat (voteAccBps st) \<le> 10000" "unat (latencyBps st) \<le> 10000"
  by (auto simp: uptimeBps_def voteAccBps_def latencyBps_def Let_def unat_min qxrp_const)

lemma rawScore_value:
  "unat (rawScore st) = (unat (uptimeBps st) * 40 + unat (voteAccBps st) * 30 + unat (latencyBps st) * 15
     + unat (consistencyFromPresence (ws_present st)) * 10) div 100"
proof -
  let ?n = "unat (uptimeBps st) * 40 + unat (voteAccBps st) * 30 + unat (latencyBps st) * 15
     + unat (consistencyFromPresence (ws_present st)) * 10"
  let ?w = "(ucast (uptimeBps st) :: u64) * 40 + ucast (voteAccBps st) * 30 + ucast (latencyBps st) * 15
     + ucast (consistencyFromPresence (ws_present st)) * 10"
  have b: "?n \<le> 950000" using signal_bounds [of st] consistency_le [of "ws_present st"] by linarith
  have "unat ?w = ?n" using b
    by (simp add: unat_word_ariths unsigned_ucast_eq take_bit_nat_eq_self mod_less)
  then have "unat (?w div 100) = ?n div 100" by (simp add: unat_div)
  with b show ?thesis
    by (simp add: rawScore_def qxrp_const unsigned_ucast_eq take_bit_nat_eq_self div_less_iff_less_mult)
qed

text \<open>The four weights add up to 95, so no validator reaches 10000.\<close>

lemma rawScore_le: "unat (rawScore st) \<le> 9500"
  using signal_bounds [of st] consistency_le [of "ws_present st"] by (simp add: rawScore_value)

lemma rawSlashed_value:
  assumes "m \<le> kBPS_DENOM"
  shows "uint (rawSlashed st m) = uint (rawScore st) * uint m div 10000" "unat (rawSlashed st m) \<le> 9500"
proof -
  have m: "0 \<le> uint m" "uint m \<le> 10000" using assms by (auto simp: word_le_def qxrp_const)
  have r: "0 \<le> uint (rawScore st)" "uint (rawScore st) \<le> 9500"
    using rawScore_le [of st] unfolding uint_int_unat [of "rawScore st"] by linarith+
  from m r have "uint (rawScore st) * uint m \<le> 9500 * 10000" by (intro mult_mono) auto
  then have b: "uint (rawScore st) * uint m div 10000 \<le> 9500" by simp
  have "0 \<le> uint (rawScore st) * uint m div 10000" by (simp add: m r pos_imp_zdiv_nonneg_iff)
  with b show e: "uint (rawSlashed st m) = uint (rawScore st) * uint m div 10000"
    by (simp add: rawSlashed_def qxrp_const uint_word_of_int)
  show "unat (rawSlashed st m) \<le> 9500" using b e unfolding uint_int_unat [of "rawSlashed st m"] by linarith
qed

definition score_bounded :: "validator_bond \<Rightarrow> bool" where
  "score_bounded b \<longleftrightarrow> unat (getU (bond_CompositeScore b)) \<le> 9500"

lemma getU_nonzero [simp]: "getU (nonzero x) = x"
  by (simp add: nonzero_def)

lemma scored_bond_bounded:
  assumes "bond_SlashMultiplier b \<le> kBPS_DENOM" "score_bounded b"
  shows "score_bounded (scored_bond st seq b)"
  using emaComposite_le [OF rawSlashed_value(2) [OF assms(1)], of "getU (bond_CompositeScore b)"] assms(2)
  by (simp add: scored_bond_def score_bounded_def)

subsection \<open>The window, one node at a time\<close>

text \<open>
  The loops go over all validations and look each signer up in the table. What they compute for a
  node depends on that node's validations alone.
\<close>

lemma map_of_on_stats:
  "map_of (on_stats f n stats) nid = (if n = nid then map_option f (map_of stats nid) else map_of stats nid)"
  by (auto simp: on_stats_def split: option.splits)

lemma map_of_fold_on_stats:
  "map_of (fold (\<lambda>v. on_stats (f v) (g v)) vs stats) nid
   = map_option (fold f (filter (\<lambda>v. g v = nid) vs)) (map_of stats nid)"
  by (induction vs arbitrary: stats) (simp_all add: map_of_on_stats option.map_id0 option.map_comp comp_def option.map_ident)

definition signed_by :: "account \<Rightarrow> full_validation list \<Rightarrow> full_validation list" where
  "signed_by nid vs = filter (\<lambda>v. fv_NodeID v = nid) vs"

definition node_ancestor :: "scoring_inputs \<Rightarrow> u32 \<Rightarrow> u256 list \<Rightarrow> account \<Rightarrow> nat \<Rightarrow> WindowStats \<Rightarrow> WindowStats" where
  "node_ancestor si seq anc nid i s =
     (let ancestorSeq = seq - 2 - word_of_nat i;
          correctVals = si_getFullForLedger si (anc ! (length anc - 1 - i)) ancestorSeq
      in fold (\<lambda>v. note_correct (earliest_sign correctVals None) (fv_SignTime v)) (signed_by nid correctVals)
           (fold (\<lambda>v. note_presence i) (signed_by nid (si_getFullForSequence si ancestorSeq)) s))"

lemma map_of_score_ancestor:
  "map_of (score_ancestor si seq anc i stats) nid = map_option (node_ancestor si seq anc nid i) (map_of stats nid)"
  by (cases "map_of stats nid")
    (simp_all add: score_ancestor_def node_ancestor_def signed_by_def Let_def map_of_fold_on_stats)

lemma map_of_fold_score_ancestor:
  "map_of (fold (score_ancestor si seq anc) is stats) nid
   = map_option (fold (node_ancestor si seq anc nid) is) (map_of stats nid)"
  by (induction "is" arbitrary: stats) (simp_all add: map_of_score_ancestor option.map_id0 option.map_comp comp_def option.map_ident)

definition fresh_stats :: WindowStats where
  "fresh_stats = empty_stats\<lparr>ws_present := replicate 256 0\<rparr>"

lemma map_of_init_stats:
  "map_of (init_stats ts) nid = (if nid \<in> tg_nodeID ` set ts then Some fresh_stats else None)"
proof -
  let ?f = "\<lambda>t stats. let s = (case map_of stats (tg_nodeID t) of Some s \<Rightarrow> s | None \<Rightarrow> empty_stats)
       in AList.update (tg_nodeID t)
            (if ws_present s = [] then s\<lparr>ws_present := replicate (unat kFLAG_LEDGER_INTERVAL) 0\<rparr> else s) stats"
  have fresh: "ws_present fresh_stats \<noteq> []" by (simp add: fresh_stats_def)
  have "map_of (fold ?f ts stats) nid
      = (if nid \<in> tg_nodeID ` set ts then Some fresh_stats else map_of stats nid)"
    if "\<forall>n s. map_of stats n = Some s \<longrightarrow> s = fresh_stats" for stats
    using that
  proof (induction ts arbitrary: stats)
    case (Cons t ts)
    have s: "map_of (?f t stats) n = (if n = tg_nodeID t then Some fresh_stats else map_of stats n)" for n
    proof (cases "map_of stats (tg_nodeID t)")
      case None
      then show ?thesis by (simp add: fresh_stats_def empty_stats_def qxrp_const)
    next
      case (Some s)
      with Cons.prems have "s = fresh_stats" by blast
      with Some fresh show ?thesis by simp
    qed
    with Cons.prems have "\<forall>n s. map_of (?f t stats) n = Some s \<longrightarrow> s = fresh_stats" by auto
    from Cons.IH [OF this] show ?case by (auto simp: s)
  qed simp
  from this [of "[]"] show ?thesis by (simp add: init_stats_def)
qed

lemma map_of_window_stats:
  "map_of (window_stats si seq anc ts) nid =
     (if nid \<in> tg_nodeID ` set ts then Some (fold (node_ancestor si seq anc nid) [0..<256] fresh_stats) else None)"
  by (simp add: window_stats_def map_of_fold_score_ancestor map_of_init_stats qxrp_const)

text \<open>Presence: the bit of an ancestor is set exactly when the node validated that sequence.\<close>

definition voted_at :: "scoring_inputs \<Rightarrow> u32 \<Rightarrow> account \<Rightarrow> nat \<Rightarrow> bool" where
  "voted_at si seq nid i \<longleftrightarrow> (\<exists>v \<in> set (si_getFullForSequence si (seq - 2 - word_of_nat i)). fv_NodeID v = nid)"

lemma note_presence_again:
  "i < length (ws_present s) \<Longrightarrow> note_presence i (note_presence i s) = note_presence i s"
  by (auto simp: note_presence_def)

lemma length_note_presence [simp]: "length (ws_present (note_presence i s)) = length (ws_present s)"
  by (simp add: note_presence_def)

lemma fold_note_presence:
  "i < length (ws_present s) \<Longrightarrow> fold (\<lambda>v. note_presence i) vs s = (if vs = [] then s else note_presence i s)"
  by (induction vs arbitrary: s) (simp_all add: note_presence_again)

lemma note_correct_present [simp]:
  "ws_present (note_correct e t s) = ws_present s" "ws_presenceCount (note_correct e t s) = ws_presenceCount s"
  by (simp_all add: note_correct_def Let_def split: option.splits)

lemma fold_note_correct_present [simp]:
  "ws_present (fold (\<lambda>v. note_correct e (t v)) vs s) = ws_present s"
  "ws_presenceCount (fold (\<lambda>v. note_correct e (t v)) vs s) = ws_presenceCount s"
  by (induction vs arbitrary: s) simp_all

lemma signed_by_empty: "signed_by nid (si_getFullForSequence si (seq - 2 - word_of_nat i)) = [] \<longleftrightarrow> \<not> voted_at si seq nid i"
  by (auto simp: signed_by_def voted_at_def filter_empty_conv)

lemma node_ancestor_present:
  assumes "i < length (ws_present s)"
  shows "ws_present (node_ancestor si seq anc nid i s)
           = (if voted_at si seq nid i then ws_present (note_presence i s) else ws_present s)"
    and "ws_presenceCount (node_ancestor si seq anc nid i s)
           = (if voted_at si seq nid i then ws_presenceCount (note_presence i s) else ws_presenceCount s)"
  by (simp_all add: node_ancestor_def Let_def fold_note_presence [OF assms] signed_by_empty)

definition presence_bits :: "scoring_inputs \<Rightarrow> u32 \<Rightarrow> account \<Rightarrow> nat \<Rightarrow> u8 list" where
  "presence_bits si seq nid k = map (\<lambda>i. if i < k \<and> voted_at si seq nid i then 1 else 0) [0..<256]"

lemma window_presence:
  "k \<le> 256 \<Longrightarrow> ws_present (fold (node_ancestor si seq anc nid) [0..<k] fresh_stats) = presence_bits si seq nid k
     \<and> ws_presenceCount (fold (node_ancestor si seq anc nid) [0..<k] fresh_stats)
       = word_of_nat (card {i. i < k \<and> voted_at si seq nid i})"
proof (induction k)
  case 0
  have "replicate 256 (0::u8) = map (\<lambda>i. 0) [0..<256]" by (simp add: map_replicate_const)
  then show ?case by (simp add: presence_bits_def fresh_stats_def empty_stats_def)
next
  case (Suc k)
  let ?s = "fold (node_ancestor si seq anc nid) [0..<k] fresh_stats"
  have p: "ws_present ?s = presence_bits si seq nid k"
    and c: "ws_presenceCount ?s = word_of_nat (card {i. i < k \<and> voted_at si seq nid i})"
    using Suc by simp_all
  have len: "k < length (ws_present ?s)" using Suc.prems by (simp add: p presence_bits_def)
  have z: "ws_present ?s ! k = 0" using Suc.prems by (simp add: p presence_bits_def)
  have bits: "presence_bits si seq nid (Suc k) = (if voted_at si seq nid k then (presence_bits si seq nid k)[k := 1] else presence_bits si seq nid k)"
    using Suc.prems by (auto simp: presence_bits_def less_Suc_eq nth_list_update intro!: nth_equalityI)
  have set: "{i. i < Suc k \<and> voted_at si seq nid i}
      = (if voted_at si seq nid k then insert k {i. i < k \<and> voted_at si seq nid i} else {i. i < k \<and> voted_at si seq nid i})"
    by (auto simp: less_Suc_eq)
  show ?case
    using z by (simp add: node_ancestor_present [OF len] note_presence_def p c bits set)
qed

lemma uptimeBps_window:
  assumes "ws_present s = presence_bits si seq nid 256"
    and "ws_presenceCount s = word_of_nat (card {i. i < 256 \<and> voted_at si seq nid i})"
  shows "unat (uptimeBps s) = card {i. i < 256 \<and> voted_at si seq nid i} * 10000 div 256"
proof -
  let ?n = "card {i. i < 256 \<and> voted_at si seq nid i}"
  have n: "?n \<le> 256" using card_mono [of "{..<256}" "{i. i < 256 \<and> voted_at si seq nid i}"] by auto
  have l: "length (ws_present s) = 256" "ws_present s \<noteq> []" using assms(1) by (auto simp: presence_bits_def)
  have c: "unat (ws_presenceCount s) = ?n" using n by (simp add: assms(2) unat_of_nat mod_less)
  have "unat (ucast (ws_presenceCount s) * ucast kBPS_DENOM :: u64) = ?n * 10000"
    using n c by (simp add: qxrp_const unat_word_ariths unsigned_ucast_eq take_bit_nat_eq_self mod_less)
  then have "unat ((ucast (ws_presenceCount s) * ucast kBPS_DENOM :: u64) div ucast (word_of_nat 256 :: u32)) = ?n * 10000 div 256"
    by (simp add: unat_div)
  moreover have "?n * 10000 div 256 \<le> 10000" using n by linarith
  ultimately show ?thesis using l
    by (simp add: uptimeBps_def unat_min unsigned_ucast_eq take_bit_nat_eq_self qxrp_const)
qed

subsection \<open>Effect on the ledger\<close>

lemma scored_bond_simps [simp]:
  "bond_Account (scored_bond st seq b) = bond_Account b"
  "bond_PublicKey (scored_bond st seq b) = bond_PublicKey b"
  "bond_ConsensusKey (scored_bond st seq b) = bond_ConsensusKey b"
  "bond_BondedAmount (scored_bond st seq b) = bond_BondedAmount b"
  "bond_BondStatus (scored_bond st seq b) = bond_BondStatus b"
  "bond_SlashMultiplier (scored_bond st seq b) = bond_SlashMultiplier b"
  "bond_UnbondingStartLedger (scored_bond st seq b) = bond_UnbondingStartLedger b"
  "bond_LastClaimedEpoch (scored_bond st seq b) = bond_LastClaimedEpoch b"
  by (simp_all add: scored_bond_def)

definition stats_of :: "(account \<times> WindowStats) list \<Rightarrow> ScoringTarget \<Rightarrow> WindowStats" where
  "stats_of stats t = (case map_of stats (tg_nodeID t) of Some s \<Rightarrow> s | None \<Rightarrow> empty_stats)"

lemma score_all_targets:
  "fst (score_all stats seq ts v) = map (\<lambda>t. t\<lparr>tg_bond := scored_bond (stats_of stats t) seq (tg_bond t)\<rparr>) ts"
  by (induction ts arbitrary: v) (simp_all add: scoreBond_def stats_of_def Let_def split_def)

text \<open>Any property of a ledger that re-scoring one bond keeps is kept by the whole pass.\<close>

lemma score_all_keeps:
  assumes "P v" "\<forall>t \<in> set ts. find_sle v (tg_key t) = Some (SBond (tg_bond t))" "distinct (map tg_key ts)"
    and step: "\<And>v k b st. P v \<Longrightarrow> find_sle v k = Some (SBond b) \<Longrightarrow> P (put v k (SBond (scored_bond st seq b)))"
  shows "P (snd (score_all stats seq ts v))"
  using assms(1-3)
proof (induction ts arbitrary: v)
  case (Cons t ts)
  let ?v = "put v (tg_key t) (SBond (scored_bond (stats_of stats t) seq (tg_bond t)))"
  have "P ?v" using Cons.prems by (intro step) auto
  moreover have "\<forall>t \<in> set ts. find_sle ?v (tg_key t) = Some (SBond (tg_bond t))"
    using Cons.prems by (auto simp: image_iff)
  ultimately have "P (snd (score_all stats seq ts ?v))" using Cons.prems by (intro Cons.IH) auto
  then show ?case by (simp add: scoreBond_def stats_of_def Let_def split_def)
qed simp

definition is_target :: "sle \<Rightarrow> bool" where
  "is_target s = (case s of SBond b \<Rightarrow> bond_BondStatus b = kBOND_STATUS_BONDED \<and> isValidNodeKey (bond_ConsensusKey b)
                  | _ \<Rightarrow> False)"

lemma is_target_SBond [simp]: "is_target (SBond b) \<longleftrightarrow> bond_BondStatus b = kBOND_STATUS_BONDED \<and> isValidNodeKey (bond_ConsensusKey b)"
  by (simp add: is_target_def)

lemma scoring_targets_keys:
  "map (\<lambda>t. (tg_key t, SBond (tg_bond t))) (scoring_targets si v) = filter (is_target \<circ> snd) (v_sles v)"
proof -
  have "map (\<lambda>t. (tg_key t, SBond (tg_bond t))) (concat (map (\<lambda>(k, s). case s of
       SBond b \<Rightarrow>
         if bond_BondStatus b \<noteq> kBOND_STATUS_BONDED then []
         else if \<not> isValidNodeKey (bond_ConsensusKey b) then []
         else [\<lparr>tg_key = k, tg_bond = b, tg_nodeID = si_calcNodeID si (bond_ConsensusKey b)\<rparr>]
     | _ \<Rightarrow> []) al)) = filter (is_target \<circ> snd) al" for al
    by (induction al) (auto simp: is_target_def split: sle.split)
  then show ?thesis by (simp add: scoring_targets_def)
qed

lemma scoring_targets_stored:
  assumes "wf_view v"
  shows "\<forall>t \<in> set (scoring_targets si v). find_sle v (tg_key t) = Some (SBond (tg_bond t))"
    and "distinct (map tg_key (scoring_targets si v))"
proof -
  note k = scoring_targets_keys [of si v]
  show "\<forall>t \<in> set (scoring_targets si v). find_sle v (tg_key t) = Some (SBond (tg_bond t))"
  proof
    fix t assume "t \<in> set (scoring_targets si v)"
    then have "(tg_key t, SBond (tg_bond t)) \<in> set (filter (is_target \<circ> snd) (v_sles v))"
      unfolding k [symmetric] by auto
    with assms show "find_sle v (tg_key t) = Some (SBond (tg_bond t))"
      by (simp add: find_sle_def wf_view_def keys_distinct_def)
  qed
  have "map tg_key (scoring_targets si v) = map fst (filter (is_target \<circ> snd) (v_sles v))"
    unfolding k [symmetric] by simp
  with assms show "distinct (map tg_key (scoring_targets si v))"
    by (simp add: wf_view_def keys_distinct_def distinct_map_filter)
qed

lemma scoring_runs:
  assumes "e_featureProofOfParticipation e" "seq \<noteq> 0" "seq mod kFLAG_LEDGER_INTERVAL = 0"
    "si_skipHashes si = Some anc" "256 \<le> length anc"
  shows "applyValidatorScoring e si seq v =
    record_aggregate (sumAggregateComposites (fst (score_all (window_stats si seq anc (scoring_targets si v)) seq (scoring_targets si v) v)))
      (snd (score_all (window_stats si seq anc (scoring_targets si v)) seq (scoring_targets si v) v))"
  using assms by (simp add: applyValidatorScoring_def Let_def split_def qxrp_const)

lemma scoring_cases:
  obtains "applyValidatorScoring e si seq v = v"
  | anc where "applyValidatorScoring e si seq v =
    record_aggregate (sumAggregateComposites (fst (score_all (window_stats si seq anc (scoring_targets si v)) seq (scoring_targets si v) v)))
      (snd (score_all (window_stats si seq anc (scoring_targets si v)) seq (scoring_targets si v) v))"
  by (fastforce simp: applyValidatorScoring_def Let_def split_def split: option.splits if_splits)

text \<open>A property kept by re-scoring one bond and by recording an aggregate is kept by the pass.\<close>

lemma scoring_keeps:
  assumes "wf_view v" "P v"
    and step: "\<And>v k b st. P v \<Longrightarrow> find_sle v k = Some (SBond b) \<Longrightarrow> P (put v k (SBond (scored_bond st seq b)))"
    and agg: "\<And>v ep a. P v \<Longrightarrow> read_epoch v = Some ep \<Longrightarrow>
      P (put v KRewardEpoch (SEpoch (ep\<lparr>ep_AggregateCompositeScore := a\<rparr>)))"
  shows "P (applyValidatorScoring e si seq v)"
proof (cases rule: scoring_cases [of e si seq v])
  case 1
  then show ?thesis using assms(2) by simp
next
  case (2 anc)
  have "P (snd (score_all (window_stats si seq anc (scoring_targets si v)) seq (scoring_targets si v) v))"
    by (rule score_all_keeps [where P = P, OF assms(2) scoring_targets_stored [OF assms(1)] step])
  then show ?thesis unfolding 2 by (auto simp: record_aggregate_def put_defs split: option.split intro: agg)
qed

lemma applyValidatorScoring_conserves:
  assumes "sound_view v"
  shows "conserves v (applyValidatorScoring e si seq v)"
proof (rule scoring_keeps)
  show "wf_view v" using assms by (simp add: sound_view_def)
  show "conserves v v" using assms by (rule conserves_refl)
next
  fix u k b st assume c: "conserves v u" and f: "find_sle u k = Some (SBond b)"
  then have "conserves u (put u k (SBond (scored_bond st seq b)))"
    by (intro conserves_same) (auto simp: conserves_def sound_view_def dest: solventD)
  with c show "conserves v (put u k (SBond (scored_bond st seq b)))" by (rule conserves_trans)
next
  fix u ep a assume c: "conserves v u" and r: "read_epoch u = Some ep"
  then have "conserves u (put u KRewardEpoch (SEpoch (ep\<lparr>ep_AggregateCompositeScore := a\<rparr>)))"
    by (intro conserves_same) (auto simp: conserves_def read_epoch_def split: option.splits sle.splits)
  with c show "conserves v (put u KRewardEpoch (SEpoch (ep\<lparr>ep_AggregateCompositeScore := a\<rparr>)))"
    by (rule conserves_trans)
qed

lemma applyValidatorScoring_bonds_ok:
  assumes "wf_view v" "bonds_ok e v"
  shows "bonds_ok e (applyValidatorScoring e si seq v)"
proof (rule scoring_keeps [where P = "bonds_ok e", OF assms])
  fix u k b st assume "bonds_ok e u" "find_sle u k = Some (SBond b)"
  then show "bonds_ok e (put u k (SBond (scored_bond st seq b)))"
  proof (cases "\<exists>i. k = KBond i")
    case True
    then obtain i where k: "k = KBond i" ..
    with \<open>find_sle u k = Some (SBond b)\<close> have "read_bond u i = Some b" by (simp add: read_bond_def)
    with \<open>bonds_ok e u\<close> have "bond_ok e i b" by (rule bonds_okD)
    then have "bond_ok e i (scored_bond st seq b)" by (simp add: bond_ok_def)
    with \<open>bonds_ok e u\<close> show ?thesis unfolding k by (rule bonds_ok_put_bond)
  qed (auto intro: bonds_ok_put_other)
qed (auto intro: bonds_ok_put_other)

definition scores_bounded :: "view \<Rightarrow> bool" where
  "scores_bounded v \<longleftrightarrow> (\<forall>k b. find_sle v k = Some (SBond b) \<longrightarrow> bond_SlashMultiplier b \<le> kBPS_DENOM \<and> score_bounded b)"

lemma applyValidatorScoring_scores_bounded:
  assumes "wf_view v" "scores_bounded v"
  shows "scores_bounded (applyValidatorScoring e si seq v)"
proof (rule scoring_keeps [where P = scores_bounded, OF assms])
  fix u k b st assume "scores_bounded u" "find_sle u k = Some (SBond b)"
  then show "scores_bounded (put u k (SBond (scored_bond st seq b)))"
    by (auto simp: scores_bounded_def scored_bond_bounded)
qed (auto simp: scores_bounded_def)

lemma applyValidatorScoring_epoch_ok:
  assumes "wf_view v" "epoch_ok v"
  shows "epoch_ok (applyValidatorScoring e si seq v)"
proof (rule scoring_keeps [where P = epoch_ok, OF assms])
  fix u k b st assume "epoch_ok u" "find_sle u k = Some (SBond b)"
  then show "epoch_ok (put u k (SBond (scored_bond st seq b)))"
    by (auto simp: epoch_ok_def read_epoch_def split: option.splits)
qed (auto simp: epoch_ok_def)

subsection \<open>The aggregate score\<close>

definition sle_score :: "sle \<Rightarrow> int" where
  "sle_score s = (case s of SBond b \<Rightarrow> if is_target s then uint (getU (bond_CompositeScore b)) else 0 | _ \<Rightarrow> 0)"

definition bonded_scores :: "view \<Rightarrow> int" where
  "bonded_scores v = val_sum sle_score (v_sles v)"

lemma sle_score_nonneg: "0 \<le> sle_score s"
  by (simp add: sle_score_def split: sle.split)

lemma sle_score_target [simp]: "is_target (SBond b) \<Longrightarrow> sle_score (SBond b) = uint (getU (bond_CompositeScore b))"
  by (simp add: sle_score_def)

lemma val_sum_filter: "(\<And>s. \<not> p s \<Longrightarrow> f s = 0) \<Longrightarrow> val_sum f (filter (p \<circ> snd) al) = val_sum f al"
  by (induction al) auto

lemma bonded_scores_targets:
  "bonded_scores v = (\<Sum>t\<leftarrow>scoring_targets si v. sle_score (SBond (tg_bond t)))"
proof -
  have z: "sle_score s = 0" if "\<not> is_target s" for s using that by (cases s) (auto simp: sle_score_def)
  have "bonded_scores v = val_sum sle_score (filter (is_target \<circ> snd) (v_sles v))"
    by (simp add: bonded_scores_def val_sum_filter z)
  also have "\<dots> = (\<Sum>t\<leftarrow>scoring_targets si v. sle_score (SBond (tg_bond t)))"
    unfolding scoring_targets_keys [of si v, symmetric] by (simp add: val_sum_def comp_def)
  finally show ?thesis .
qed

lemma score_all_scores:
  assumes "wf_view v" "\<forall>t \<in> set ts. find_sle v (tg_key t) = Some (SBond (tg_bond t))" "distinct (map tg_key ts)"
  shows "bonded_scores (snd (score_all stats seq ts v)) = bonded_scores v
     + (\<Sum>t\<leftarrow>fst (score_all stats seq ts v). sle_score (SBond (tg_bond t))) - (\<Sum>t\<leftarrow>ts. sle_score (SBond (tg_bond t)))"
  using assms
proof (induction ts arbitrary: v)
  case (Cons t ts)
  let ?b = "scored_bond (stats_of stats t) seq (tg_bond t)"
  let ?v = "put v (tg_key t) (SBond ?b)"
  have f: "find_sle v (tg_key t) = Some (SBond (tg_bond t))" using Cons.prems by simp
  have "bonded_scores ?v = bonded_scores v - sle_score (SBond (tg_bond t)) + sle_score (SBond ?b)"
    using Cons.prems(1) f by (simp add: bonded_scores_def put_def val_sum_update wf_view_def find_sle_def)
  moreover have "wf_view ?v" using Cons.prems(1) by (simp add: wf_view_put)
  moreover have "\<forall>t \<in> set ts. find_sle ?v (tg_key t) = Some (SBond (tg_bond t))"
    using Cons.prems by (auto simp: image_iff)
  ultimately show ?case using Cons.IH [of ?v] Cons.prems(3)
    by (simp add: scoreBond_def stats_of_def Let_def split_def)
qed simp

lemma unat_saturating_step:
  "unat (if c \<le> (- 1) - a then a + c else - 1 :: u32) = min (2 ^ 32 - 1) (unat a + unat c)"
proof -
  have unat_max: "unat (- 1 :: u32) = 2 ^ 32 - 1" by (simp add: unsigned_minus_1_eq_mask mask_eq_exp_minus_1)
  have m: "unat ((- 1 :: u32) - a) = 2 ^ 32 - 1 - unat a"
    using unat_sub [of a "- 1 :: u32"] by (simp add: unat_max)
  show ?thesis
  proof (cases "unat a + unat c < 2 ^ 32")
    case True
    then have "c \<le> (- 1) - a" using m by (simp add: word_le_nat_alt)
    with True show ?thesis by (simp add: unat_word_ariths mod_less)
  next
    case False
    then have "\<not> c \<le> (- 1) - a" using m unat32_lt [of a] by (simp add: word_le_nat_alt)
    with False show ?thesis by (simp add: unat_max)
  qed
qed

lemma sumAggregateComposites_value:
  "unat (sumAggregateComposites ts) = min (2 ^ 32 - 1) (\<Sum>t\<leftarrow>ts. unat (getU (bond_CompositeScore (tg_bond t))))"
proof -
  let ?f = "\<lambda>(t :: ScoringTarget) (aggregateScore :: u32). case bond_CompositeScore (tg_bond t) of
         None \<Rightarrow> aggregateScore
       | Some c \<Rightarrow> if c = 0 then aggregateScore
                   else if c \<le> (- 1) - aggregateScore then aggregateScore + c else - 1"
  have step: "unat (?f t a) = min (2 ^ 32 - 1) (unat a + unat (getU (bond_CompositeScore (tg_bond t))))"
    for t :: ScoringTarget and a :: u32
  proof (cases "bond_CompositeScore (tg_bond t)")
    case None
    then show ?thesis using unat32_lt [of a] by simp
  next
    case (Some c)
    show ?thesis
    proof (cases "c = 0")
      case True
      with Some show ?thesis using unat32_lt [of a] by simp
    next
      case False
      with Some unat_saturating_step [of c a] show ?thesis by simp
    qed
  qed
  have "unat (fold ?f ts a) = min (2 ^ 32 - 1) (unat a + (\<Sum>t\<leftarrow>ts. unat (getU (bond_CompositeScore (tg_bond t)))))" for a
  proof (induction ts arbitrary: a)
    case (Cons t ts)
    then show ?case using step [where t = t and a = a] by (simp add: min_def)
  next
    case Nil
    then show ?case using unat32_lt [of a] by simp
  qed
  from this [of 0] show ?thesis by (simp add: sumAggregateComposites_def)
qed

text \<open>
  At a window boundary the epoch entry receives the sum of the scores that the bonded validators
  then have, as long as that sum fits 32 bits.
\<close>

lemma score_all_targets_scores:
  "(\<Sum>t\<leftarrow>fst (score_all stats seq (scoring_targets si v) v). sle_score (SBond (tg_bond t)))
   = int (\<Sum>t\<leftarrow>fst (score_all stats seq (scoring_targets si v) v). unat (getU (bond_CompositeScore (tg_bond t))))"
proof -
  have "is_target (SBond (tg_bond t))" if "t \<in> set (fst (score_all stats seq (scoring_targets si v) v))" for t
    using that by (auto simp: score_all_targets scoring_targets_def split: sle.splits if_splits)
  then have "sle_score (SBond (tg_bond t)) = int (unat (getU (bond_CompositeScore (tg_bond t))))"
    if "t \<in> set (fst (score_all stats seq (scoring_targets si v) v))" for t
    using that by (simp only: sle_score_target uint_int_unat)
  then have "map (\<lambda>t. sle_score (SBond (tg_bond t))) (fst (score_all stats seq (scoring_targets si v) v))
      = map (int \<circ> (\<lambda>t. unat (getU (bond_CompositeScore (tg_bond t))))) (fst (score_all stats seq (scoring_targets si v) v))"
    by simp
  then show ?thesis by (simp only: flip: sum_list_of_nat map_map)
qed

lemma bonded_scores_record [simp]:
  assumes "wf_view v"
  shows "bonded_scores (record_aggregate a v) = bonded_scores v"
proof (cases "read_epoch v")
  case (Some ep)
  then have f: "find_sle v KRewardEpoch = Some (SEpoch ep)" by (simp add: read_epoch_def split: option.splits sle.splits)
  with assms Some show ?thesis
    by (simp add: record_aggregate_def bonded_scores_def put_defs put_def val_sum_update wf_view_def find_sle_def sle_score_def)
qed (simp add: record_aggregate_def)

lemma scoring_aggregate:
  assumes "wf_view v" "e_featureProofOfParticipation e" "seq \<noteq> 0" "seq mod kFLAG_LEDGER_INTERVAL = 0"
    "si_skipHashes si = Some anc" "256 \<le> length anc" "read_epoch v = Some ep"
  defines "v' \<equiv> applyValidatorScoring e si seq v"
  obtains ep' where "read_epoch v' = Some ep'"
    "uint (getU (ep_AggregateCompositeScore ep')) = min (2 ^ 32 - 1) (bonded_scores v')"
    "ep' = ep\<lparr>ep_AggregateCompositeScore := ep_AggregateCompositeScore ep'\<rparr>"
proof -
  let ?ts = "scoring_targets si v" and ?st = "window_stats si seq anc (scoring_targets si v)"
  let ?u = "snd (score_all ?st seq ?ts v)" and ?a = "sumAggregateComposites (fst (score_all ?st seq ?ts v))"
  have v': "v' = record_aggregate ?a ?u" unfolding v'_def using assms(2-6) by (rule scoring_runs)
  have u: "wf_view ?u \<and> read_epoch ?u = Some ep"
  proof (rule score_all_keeps [OF _ scoring_targets_stored [OF assms(1)]])
    show "wf_view v \<and> read_epoch v = Some ep" using assms(1,7) by simp
  qed (auto simp: read_epoch_def)
  then have wu: "wf_view ?u" and ru: "read_epoch ?u = Some ep" by auto
  have "bonded_scores v' = bonded_scores ?u" using wu by (simp add: v')
  also have "\<dots> = (\<Sum>t\<leftarrow>fst (score_all ?st seq ?ts v). sle_score (SBond (tg_bond t)))"
    using score_all_scores [OF assms(1) scoring_targets_stored [OF assms(1)], of ?st seq]
    by (simp add: bonded_scores_targets [of v si])
  finally have b: "bonded_scores v' = int (\<Sum>t\<leftarrow>fst (score_all ?st seq ?ts v). unat (getU (bond_CompositeScore (tg_bond t))))"
    by (simp add: score_all_targets_scores)
  have "uint ?a = int (unat ?a)" by (rule uint_int_unat)
  also have "\<dots> = min (2 ^ 32 - 1) (bonded_scores v')"
    unfolding b sumAggregateComposites_value of_nat_min by simp
  finally have "uint (getU (nonzero ?a)) = min (2 ^ 32 - 1) (bonded_scores v')" by simp
  moreover have "read_epoch v' = Some (ep\<lparr>ep_AggregateCompositeScore := nonzero ?a\<rparr>)"
    by (simp add: v' record_aggregate_def ru put_defs)
  ultimately show thesis by (intro that [of "ep\<lparr>ep_AggregateCompositeScore := nonzero ?a\<rparr>"]) simp_all
qed

text \<open>The scores of any set of bonded validators weigh at most the sum of all.\<close>

lemma bonded_subset:
  assumes "wf_view v" "finite S"
    and "\<And>i. i \<in> S \<Longrightarrow> \<exists>b. read_bond v i = Some b \<and> is_target (SBond b)"
  shows "(\<Sum>i\<in>S. uint (getU (bond_CompositeScore (the (read_bond v i))))) \<le> bonded_scores v"
proof -
  have e: "uint (getU (bond_CompositeScore (the (read_bond v i)))) = opt_val sle_score (map_of (v_sles v) (KBond i))"
    if i: "i \<in> S" for i
  proof -
    from assms(3) [OF i] obtain b where r: "read_bond v i = Some b" and t: "is_target (SBond b)" by blast
    from r have "map_of (v_sles v) (KBond i) = Some (SBond b)"
      by (auto simp: read_bond_def find_sle_def split: option.splits sle.splits)
    with r t show ?thesis by (simp del: is_target_SBond)
  qed
  have "(\<Sum>i\<in>S. uint (getU (bond_CompositeScore (the (read_bond v i)))))
      = (\<Sum>k\<in>KBond ` S. opt_val sle_score (map_of (v_sles v) k))"
    by (subst sum.reindex) (auto simp: inj_on_def e)
  also have "\<dots> \<le> bonded_scores v"
    unfolding bonded_scores_def using assms(1,2)
    by (intro val_sum_keys_le) (auto simp: wf_view_def sle_score_nonneg)
  finally show ?thesis .
qed

end
