(* ===== verification/SkipList.thy ===== *)
theory SkipList
  imports LedgerState
begin

section \<open>The skip list of ledger hashes\<close>

text \<open>
  \<open>Ledger::updateSkipList\<close> of \<^verbatim>\<open>src/libxrpl/ledger/Ledger.cpp\<close> and \<open>hashOfSeq\<close> of
  \<^verbatim>\<open>src/libxrpl/ledger/View.cpp\<close>. A ledger stores the hashes of its last 256 ancestors, and, in one
  entry per 65536 ledgers, the hash of every 256th ancestor. The hash of a ledger is a parameter;
  the theory shows which ancestors can be found and that the right hash is returned for them.
\<close>

unbundle bit_operations_syntax

definition keylet_skip :: "u32 \<Rightarrow> key" where
  "keylet_skip ledger = KSkipAt (drop_bit 16 ledger)"

definition skip_hashes :: "view \<Rightarrow> key \<Rightarrow> u256 list" where
  "skip_hashes v k = (case read_skip v k of None \<Rightarrow> [] | Some sle \<Rightarrow> lh_Hashes sle)"

definition updateSkipList :: "u256 \<Rightarrow> view \<Rightarrow> view" where
  "updateSkipList parentHash v =
     (if v_seq v = 0 then v
      else let prevIndex = v_seq v - 1;
               v1 = (if prevIndex AND 0xff = 0
                     then put v (keylet_skip prevIndex)
                            (SSkipList \<lparr>lh_Hashes = skip_hashes v (keylet_skip prevIndex) @ [parentHash],
                                        lh_LastLedgerSequence = Some prevIndex\<rparr>)
                     else v);
               hashes = skip_hashes v1 KSkip;
               hashes' = (if length hashes = 256 then tl hashes else hashes)
           in put v1 KSkip (SSkipList \<lparr>lh_Hashes = hashes' @ [parentHash],
                                        lh_LastLedgerSequence = Some prevIndex\<rparr>))"

text \<open>
  The difference of two sequence numbers is read as a signed number and compared with an unsigned
  size, so a negative one is larger than every size.
\<close>

definition hashOfSeq :: "u256 \<Rightarrow> u256 \<Rightarrow> view \<Rightarrow> u32 \<Rightarrow> u256 option" where
  "hashOfSeq hash parentHash v seq =
     (if seq > v_seq v then None
      else if seq = v_seq v then Some hash
      else if seq = v_seq v - 1 then Some parentHash
      else let diff = sint (v_seq v - seq);
               vec = skip_hashes v KSkip
           in if diff \<le> 256 \<and> read_skip v KSkip \<noteq> None \<and> int (length vec) \<ge> diff mod 2 ^ 64
              then Some (vec ! (length vec - nat diff))
              else if seq AND 0xff \<noteq> 0 then None
              else case read_skip v (keylet_skip seq) of
                     None \<Rightarrow> None
                   | Some hashIndex \<Rightarrow>
                       let lastSeq = getU (lh_LastLedgerSequence hashIndex);
                           diff2 = drop_bit 8 (lastSeq - seq);
                           vec2 = lh_Hashes hashIndex
                       in if length vec2 > unat diff2 then Some (vec2 ! (length vec2 - unat diff2 - 1)) else None)"

subsection \<open>What the entries stand for\<close>

text \<open>
  The chain starts at ledger \<open>s0\<close>, which has no skip list; \<open>h n\<close> is the hash of ledger \<open>n\<close>. Block \<open>b\<close> of
  the long list holds the multiples of 256 among the ancestors from \<open>65536 * b\<close> on.
\<close>

definition long_list :: "nat \<Rightarrow> nat \<Rightarrow> nat \<Rightarrow> nat list" where
  "long_list s0 n b = map ((*) 256) [max ((s0 + 255) div 256) (256 * b) ..< min ((n + 255) div 256) (256 * Suc b)]"

definition skip_inv :: "nat \<Rightarrow> (nat \<Rightarrow> u256) \<Rightarrow> view \<Rightarrow> bool" where
  "skip_inv s0 h v \<longleftrightarrow> (let n = unat (v_seq v) in
     0 < s0 \<and> s0 \<le> n
     \<and> (if n = s0 then read_skip v KSkip = None
        else read_skip v KSkip = Some \<lparr>lh_Hashes = map h [max s0 (n - 256)..<n], lh_LastLedgerSequence = Some (v_seq v - 1)\<rparr>)
     \<and> (\<forall>b. read_skip v (KSkipAt b) =
          (let ms = long_list s0 n (unat b) in
           if ms = [] then None
           else Some \<lparr>lh_Hashes = map h ms, lh_LastLedgerSequence = Some (of_nat (last ms))\<rparr>)))"

lemma read_skip_put:
  "read_skip (put v k s) k' = (if k' = k then (case s of SSkipList r \<Rightarrow> Some r | _ \<Rightarrow> None) else read_skip v k')"
  by (simp add: read_skip_def)

lemma read_skip_seq [simp]: "read_skip (v\<lparr>v_seq := s\<rparr>) k = read_skip v k"
  by (simp add: read_skip_def find_sle_def)

lemma mask_mod: "unat (x :: u32) mod 256 = 0 \<longleftrightarrow> x AND 0xff = 0"
proof -
  have "x AND 0xff = take_bit 8 x" by (simp add: take_bit_eq_mask mask_eq_exp_minus_1)
  then have "unat (x AND 0xff) = unat x mod 256" by (simp add: take_bit_eq_mod unat_mod)
  then show ?thesis by (metis unat_eq_zero)
qed

text \<open>The long list grows at its end, when an ancestor with a multiple of 256 is added.\<close>

lemma ceil_step: "(Suc n + 255) div 256 = (if n mod 256 = 0 then Suc ((n + 255) div 256) else (n + 255) div (256 :: nat))"
proof -
  define q r where "q = n div 256" and "r = n mod 256"
  then have n: "n = 256 * q + r" "r < 256" by simp_all
  have s: "(256 * q + s) div 256 = q + s div 256" for s :: nat by simp
  have "(Suc n + 255) div 256 = Suc q" using n s [of "Suc r + 255"] by (simp add: add.assoc)
  moreover have "(n + 255) div 256 = (if r = 0 then q else Suc q)"
  proof (cases "r = 0")
    case False
    then have "(r + 255) div 256 = 1" using n(2) by (intro div_nat_eqI) auto
    with False n s [of "r + 255"] show ?thesis by (simp add: add.assoc)
  qed (use n s [of 255] in simp)
  ultimately show ?thesis by (simp add: r_def)
qed

lemma long_list_step:
  assumes "s0 \<le> n"
  shows "long_list s0 (Suc n) b = long_list s0 n b @ (if n mod 256 = 0 \<and> n div 65536 = b then [n] else [])"
proof (cases "n mod 256 = 0")
  case False
  then show ?thesis unfolding long_list_def ceil_step by simp
next
  case True
  then obtain q where n: "n = 256 * q" by auto
  have c: "(n + 255) div 256 = q" using n by simp
  have c': "(Suc n + 255) div 256 = Suc q" using n by simp
  have a: "(s0 + 255) div 256 \<le> q" using assms n by (metis add_le_mono1 c div_le_mono)
  have d: "n div 65536 = q div 256" using n by (simp add: div_mult2_eq [of n 256 256, simplified])
  consider "q div 256 = b" | "q div 256 < b" | "b < q div 256" by linarith
  then show ?thesis
  proof cases
    case 1
    then have "256 * b \<le> q" "q < 256 * Suc b" by auto
    then have "[max ((s0 + 255) div 256) (256 * b) ..< Suc q] = [max ((s0 + 255) div 256) (256 * b) ..< q] @ [q]"
      using a by simp
    with 1 True d \<open>q < 256 * Suc b\<close> show ?thesis unfolding long_list_def c c' using n by simp
  next
    case 2
    then have "q < 256 * b" by auto
    with 2 d show ?thesis unfolding long_list_def c c' by (simp add: min_def max_def)
  next
    case 3
    then have "256 * Suc b \<le> q" by auto
    with 3 d show ?thesis unfolding long_list_def c c' by (simp add: min_def)
  qed
qed

text \<open>Building the next ledger of the chain.\<close>

lemma normal_list_step:
  assumes "s0 < n"
  shows "(let l = map h [max s0 (n - 256)..<n] in (if length l = 256 then tl l else l) @ [h n])
    = map h [max s0 (Suc n - 256)..<Suc n]"
proof (cases "s0 + 256 \<le> n")
  case True
  define m where "m = n - 256"
  with True have n: "n = m + 256" "s0 \<le> m" by simp_all
  have "max s0 (n - 256) = m" "max s0 (Suc n - 256) = Suc m" using n by (simp_all add: max_def)
  moreover have "[m..<n] = m # [Suc m..<n]" using n by (simp add: upt_rec)
  moreover have "[Suc m..<Suc n] = [Suc m..<n] @ [n]" using n(1) by (intro upt_Suc_append) simp
  ultimately show ?thesis using n(1) by (simp only: Let_def) simp
next
  case False
  then have "n - 256 \<le> s0" "Suc n - 256 \<le> s0" "n - s0 \<noteq> 256" by linarith+
  then have "max s0 (n - 256) = s0" "max s0 (Suc n - 256) = s0" "n - s0 \<noteq> 256"
    by (simp_all add: max_absorb1)
  then show ?thesis using assms by (simp add: Let_def)
qed

lemma next_seq: "Suc (unat (w :: u32)) < 2 ^ 32 \<Longrightarrow> unat (w + 1) = Suc (unat w)"
  by (simp add: unat_word_ariths)

lemma skip_step_normal:
  assumes "skip_inv s0 h v" "Suc (unat (v_seq v)) < 2 ^ 32"
  defines "v' \<equiv> updateSkipList (h (unat (v_seq v))) (v\<lparr>v_seq := v_seq v + 1\<rparr>)"
  shows "read_skip v' KSkip = Some \<lparr>lh_Hashes = map h [max s0 (Suc (unat (v_seq v)) - 256)..<Suc (unat (v_seq v))],
      lh_LastLedgerSequence = Some (v_seq v)\<rparr>"
proof -
  let ?n = "unat (v_seq v)"
  let ?l = "if ?n = s0 then [] else map h [max s0 (?n - 256)..<?n]"
  have seq: "v_seq v + 1 \<noteq> 0" using next_seq [OF assms(2)] by (metis nat.distinct(1) unat_0)
  have "skip_hashes (put u (keylet_skip k) s) KSkip = skip_hashes u KSkip" for u k s
    by (simp add: skip_hashes_def read_skip_put keylet_skip_def)
  moreover have "skip_hashes (v\<lparr>v_seq := v_seq v + 1\<rparr>) KSkip = ?l"
    using assms(1) by (auto simp: skip_hashes_def skip_inv_def Let_def)
  ultimately have "read_skip v' KSkip = Some \<lparr>lh_Hashes = (if length ?l = 256 then tl ?l else ?l) @ [h ?n],
      lh_LastLedgerSequence = Some (v_seq v)\<rparr>"
    using seq by (simp add: v'_def updateSkipList_def Let_def read_skip_put)
  moreover have "(if length ?l = 256 then tl ?l else ?l) @ [h ?n] = map h [max s0 (Suc ?n - 256)..<Suc ?n]"
  proof (cases "?n = s0")
    case True
    then have "max s0 (Suc ?n - 256) = ?n" by (simp add: max_absorb1)
    with True show ?thesis by simp
  next
    case False
    then have "s0 < ?n" using assms(1) by (simp add: skip_inv_def Let_def)
    from normal_list_step [OF this, of h] show ?thesis
      unfolding Let_def using False by (simp only: if_False)
  qed
  ultimately show ?thesis by simp
qed

lemma drop16: "unat (drop_bit 16 (w :: u32)) = unat w div 65536"
  by (simp add: drop_bit_eq_div unat_div)

lemma skip_step_long:
  assumes "skip_inv s0 h v" "Suc (unat (v_seq v)) < 2 ^ 32"
  defines "v' \<equiv> updateSkipList (h (unat (v_seq v))) (v\<lparr>v_seq := v_seq v + 1\<rparr>)"
  shows "read_skip v' (KSkipAt b) = (let ms = long_list s0 (Suc (unat (v_seq v))) (unat b) in
     if ms = [] then None else Some \<lparr>lh_Hashes = map h ms, lh_LastLedgerSequence = Some (of_nat (last ms))\<rparr>)"
proof -
  let ?n = "unat (v_seq v)" and ?ms = "long_list s0 (unat (v_seq v)) (unat b)"
  have s0: "s0 \<le> ?n" using assms(1) by (simp add: skip_inv_def Let_def)
  have seq: "v_seq v + 1 \<noteq> 0" using next_seq [OF assms(2)] by (metis nat.distinct(1) unat_0)
  have r: "read_skip v (KSkipAt b) = (if ?ms = [] then None
      else Some \<lparr>lh_Hashes = map h ?ms, lh_LastLedgerSequence = Some (of_nat (last ?ms))\<rparr>)"
    using assms(1) by (simp add: skip_inv_def Let_def)
  then have l: "skip_hashes (v\<lparr>v_seq := v_seq v + 1\<rparr>) (KSkipAt b) = map h ?ms" by (simp add: skip_hashes_def)
  have m: "v_seq v AND 0xff = 0 \<longleftrightarrow> ?n mod 256 = 0" by (rule mask_mod [symmetric])
  have k: "keylet_skip (v_seq v) = KSkipAt b \<longleftrightarrow> ?n div 65536 = unat b"
    by (simp add: keylet_skip_def word_unat_eq_iff drop16)
  show ?thesis
  proof (cases "?n mod 256 = 0 \<and> ?n div 65536 = unat b")
    case True
    then have kk: "keylet_skip (v_seq v) = KSkipAt b" using k by simp
    have "read_skip v' (KSkipAt b) = Some \<lparr>lh_Hashes = map h ?ms @ [h ?n], lh_LastLedgerSequence = Some (v_seq v)\<rparr>"
      using True seq m l by (simp add: v'_def updateSkipList_def Let_def read_skip_put kk)
    with True s0 show ?thesis by (simp add: long_list_step)
  next
    case False
    then have "v_seq v AND 0xff \<noteq> 0 \<or> KSkipAt b \<noteq> keylet_skip (v_seq v)" using m k by metis
    then have "read_skip v' (KSkipAt b) = read_skip v (KSkipAt b)"
      using seq by (elim disjE) (simp_all add: v'_def updateSkipList_def Let_def read_skip_put)
    with False s0 r show ?thesis by (auto simp: long_list_step)
  qed
qed

theorem skip_inv_step:
  assumes "skip_inv s0 h v" "Suc (unat (v_seq v)) < 2 ^ 32"
  shows "skip_inv s0 h (updateSkipList (h (unat (v_seq v))) (v\<lparr>v_seq := v_seq v + 1\<rparr>))"
proof -
  let ?w = "updateSkipList (h (unat (v_seq v))) (v\<lparr>v_seq := v_seq v + 1\<rparr>)"
  have "v_seq ?w = v_seq v + 1" by (simp add: updateSkipList_def Let_def)
  moreover have "0 < s0" "s0 \<le> unat (v_seq v)" using assms(1) by (simp_all add: skip_inv_def Let_def)
  ultimately show ?thesis
    using skip_step_normal [OF assms] skip_step_long [OF assms] next_seq [OF assms(2)]
    unfolding skip_inv_def Let_def by simp
qed

subsection \<open>Finding an ancestor\<close>

lemma sint32: "sint (w :: u32) = (if uint w < 2 ^ 31 then uint w else uint w - 2 ^ 32)"
proof -
  have "(x + 2147483648) mod 4294967296 = x - 2147483648" if "\<not> x < 2147483648" "x < 4294967296" for x :: int
    using that mod_pos_pos_trivial [of "x - 2147483648" 4294967296] mod_add_self2 [of "x - 2147483648" 4294967296]
    by (simp add: add.commute)
  with uint32_lt [of w] show ?thesis
    by (simp add: sint_uint signed_take_bit_eq_take_bit_shift take_bit_eq_mod)
qed

lemma sint_small: "unat (w :: u32) \<le> 256 \<Longrightarrow> sint w = int (unat w)"
proof -
  assume "unat w \<le> 256"
  then have "uint w \<le> 256" using uint_int_unat [of w] by linarith
  then show "sint w = int (unat w)" by (simp add: sint32)
qed

lemma hashOfSeq_listed:
  assumes "\<not> m > v_seq v" "m \<noteq> v_seq v" "m \<noteq> v_seq v - 1" "sint (v_seq v - m) = int d" "d \<le> 256"
    and "read_skip v KSkip = Some r" "d \<le> length (lh_Hashes r)" "lh_Hashes r ! (length (lh_Hashes r) - d) = x"
  shows "hashOfSeq a b v m = Some x"
  using assms by (simp add: hashOfSeq_def Let_def skip_hashes_def)

lemma hashOfSeq_near:
  assumes "skip_inv s0 h v" "s0 \<le> unat m" "2 \<le> unat (v_seq v) - unat m" "unat (v_seq v) - unat m \<le> 256"
  shows "hashOfSeq a b v m = Some (h (unat m))"
proof -
  let ?n = "unat (v_seq v)" and ?d = "unat (v_seq v) - unat m"
  let ?l = "[max s0 (?n - 256)..<?n]"
  have u: "unat (v_seq v - m) = ?d" using assms(3) by (intro unat_sub) (simp add: word_le_nat_alt)
  have s: "sint (v_seq v - m) = int ?d" using sint_small [of "v_seq v - m"] assms(4) u by simp
  have ne: "\<not> m > v_seq v" "m \<noteq> v_seq v" using assms(3) by (auto simp: word_less_nat_alt)
  have "m \<noteq> v_seq v - 1"
  proof
    assume "m = v_seq v - 1"
    then have "v_seq v - m = 1" by simp
    with u assms(3) show False by simp
  qed
  moreover have r: "read_skip v KSkip = Some \<lparr>lh_Hashes = map h ?l, lh_LastLedgerSequence = Some (v_seq v - 1)\<rparr>"
    using assms(1-3) by (auto simp: skip_inv_def Let_def split: if_splits)
  moreover have "?d \<le> length ?l" using assms(2-4) by (auto simp: max_def)
  moreover have "map h ?l ! (length ?l - ?d) = h (unat m)"
  proof -
    have x: "max s0 (?n - 256) \<le> unat m" "unat m < ?n" using assms(2-4) by auto
    then have "length ?l - ?d = unat m - max s0 (?n - 256)" by simp
    then have "map h ?l ! (length ?l - ?d) = h (?l ! (unat m - max s0 (?n - 256)))"
      using x by (simp del: max.bounded_iff)
    also have "?l ! (unat m - max s0 (?n - 256)) = unat m" using x by (subst nth_upt) simp_all
    finally show ?thesis .
  qed
  ultimately show ?thesis using ne s assms(4)
    by (intro hashOfSeq_listed [OF _ _ _ _ _ r, where d = ?d]) simp_all
qed

lemma hashOfSeq_far:
  assumes "256 < unat (v_seq v) - unat m" "length (skip_hashes v KSkip) \<le> 256"
  shows "hashOfSeq a b v m = (if unat m mod 256 \<noteq> 0 then None
    else case read_skip v (keylet_skip m) of None \<Rightarrow> None
      | Some r \<Rightarrow> (let d = unat (drop_bit 8 (getU (lh_LastLedgerSequence r) - m)); l = lh_Hashes r
                   in if length l > d then Some (l ! (length l - d - 1)) else None))"
proof -
  have u: "unat (v_seq v - m) = unat (v_seq v) - unat m"
    using assms(1) by (intro unat_sub) (simp add: word_le_nat_alt)
  have ne: "\<not> m > v_seq v" "m \<noteq> v_seq v" using assms(1) by (auto simp: word_less_nat_alt)
  have ne1: "m \<noteq> v_seq v - 1"
  proof
    assume "m = v_seq v - 1"
    then have "v_seq v - m = 1" by simp
    with u assms(1) show False by simp
  qed
  have "\<not> (sint (v_seq v - m) \<le> 256 \<and> int (length (skip_hashes v KSkip)) \<ge> sint (v_seq v - m) mod 2 ^ 64)"
  proof (cases "uint (v_seq v - m) < 2 ^ 31")
    case True
    then have "sint (v_seq v - m) = int (unat (v_seq v) - unat m)"
      using u uint_int_unat [of "v_seq v - m"] by (simp add: sint32)
    with assms(1) show ?thesis by linarith
  next
    case False
    define x where "x = uint (v_seq v - m) - 2 ^ 32"
    have s: "sint (v_seq v - m) = x" using False by (simp add: sint32 x_def)
    have "- (2 ^ 31) \<le> x" "x < 0" using False uint32_lt [of "v_seq v - m"] by (simp_all add: x_def)
    then have "x mod 2 ^ 64 = x + 2 ^ 64"
      using mod_pos_pos_trivial [of "x + 2 ^ 64" "2 ^ 64"] by simp
    with s assms(2) \<open>- (2 ^ 31) \<le> x\<close> show ?thesis by simp
  qed
  then show ?thesis using ne ne1 mask_mod [of m] by (auto simp: hashOfSeq_def Let_def split: option.split)
qed

lemma skip_hashes_le:
  assumes "skip_inv s0 h v"
  shows "length (skip_hashes v KSkip) \<le> 256"
proof -
  have "read_skip v KSkip = None \<or> (\<exists>n s. read_skip v KSkip = Some \<lparr>lh_Hashes = map h [max s0 (n - 256)..<n], lh_LastLedgerSequence = s\<rparr>)"
    using assms by (cases "unat (v_seq v) = s0") (auto simp: skip_inv_def Let_def)
  then show ?thesis by (auto simp: skip_hashes_def)
qed

lemma hashOfSeq_long:
  assumes "skip_inv s0 h v" "s0 \<le> unat m" "unat m < unat (v_seq v)" "unat m mod 256 = 0"
  obtains r where "read_skip v (keylet_skip m) = Some r"
    "unat (drop_bit 8 (getU (lh_LastLedgerSequence r) - m)) < length (lh_Hashes r)"
    "lh_Hashes r ! (length (lh_Hashes r) - unat (drop_bit 8 (getU (lh_LastLedgerSequence r) - m)) - 1) = h (unat m)"
proof -
  let ?n = "unat (v_seq v)" and ?b = "unat m div 65536"
  obtain q where q: "unat m = 256 * q" using assms(4) by auto
  define lo hi where "lo = max ((s0 + 255) div 256) (256 * ?b)" and "hi = min ((?n + 255) div 256) (256 * Suc ?b)"
  have ms: "long_list s0 ?n ?b = map ((*) 256) [lo..<hi]" by (simp add: long_list_def lo_def hi_def)
  have qb: "?b = q div 256" using q by (simp add: div_mult2_eq [of "unat m" 256 256, simplified])
  have "(s0 + 255) div 256 \<le> q" using assms(2) q by linarith
  moreover have "256 * (q div 256) \<le> q" "q < 256 * Suc (q div 256)" by auto
  moreover have "q < (?n + 255) div 256" using assms(3) q by linarith
  ultimately have lo: "lo \<le> q" "q < hi" by (simp_all add: lo_def hi_def qb)
  then have ne: "long_list s0 ?n ?b \<noteq> []" "last (long_list s0 ?n ?b) = 256 * (hi - 1)" by (simp_all add: ms last_map)
  define r where "r = \<lparr>lh_Hashes = map h (map ((*) 256) [lo..<hi]),
      lh_LastLedgerSequence = Some (of_nat (256 * (hi - 1)) :: u32)\<rparr>"
  have rd: "read_skip v (keylet_skip m) = Some r"
    using assms(1) ne by (simp add: skip_inv_def Let_def keylet_skip_def drop16 ms r_def)
  have "256 * (hi - 1) < ?n + 1" using lo unfolding hi_def by linarith
  then have "256 * (hi - 1) < 2 ^ 32" using unat32_lt [of "v_seq v"] by linarith
  then have u: "unat (of_nat (256 * (hi - 1)) :: u32) = 256 * (hi - 1)" by (simp add: unat_of_nat del: of_nat_mult)
  have "unat (of_nat (256 * (hi - 1)) - m) = 256 * (hi - 1) - 256 * q"
    using u q lo by (subst unat_sub) (simp_all add: word_le_nat_alt del: of_nat_mult)
  then have "unat (drop_bit 8 (getU (lh_LastLedgerSequence r) - m)) = (256 * (hi - 1) - 256 * q) div 256"
    by (simp add: r_def drop_bit_eq_div unat_div del: of_nat_mult)
  then have d: "unat (drop_bit 8 (getU (lh_LastLedgerSequence r) - m)) = hi - 1 - q" by (simp flip: diff_mult_distrib2)
  have "hi - 1 - q < hi - lo" "hi - lo - (hi - 1 - q) - 1 = q - lo" using lo by auto
  with rd d lo q show thesis by (intro that [of r]) (simp_all add: r_def)
qed

text \<open>
  Among the ledgers since the start of the chain exactly the last 256 and the multiples of 256 can be
  found, each with its own hash.
\<close>

theorem hashOfSeq_correct:
  assumes "skip_inv s0 h v" "s0 \<le> unat m"
  shows "hashOfSeq (h (unat (v_seq v))) (h (unat (v_seq v) - 1)) v m =
    (if unat m \<le> unat (v_seq v) \<and> (unat (v_seq v) - unat m \<le> 256 \<or> unat m mod 256 = 0)
     then Some (h (unat m)) else None)"
proof -
  let ?n = "unat (v_seq v)"
  consider "?n < unat m" | "unat m = ?n" | "Suc (unat m) = ?n" | "2 \<le> ?n - unat m" "?n - unat m \<le> 256"
    | "256 < ?n - unat m" by linarith
  then show ?thesis
  proof cases
    case 1
    then show ?thesis by (simp add: hashOfSeq_def word_less_nat_alt)
  next
    case 2
    then show ?thesis by (auto simp: hashOfSeq_def word_unat_eq_iff word_less_nat_alt)
  next
    case 3
    then have "v_seq v = m + 1" using unat32_lt [of "v_seq v"] by (simp add: word_unat_eq_iff next_seq)
    then have "m = v_seq v - 1" by simp
    moreover from 3 have "unat m = ?n - 1" by simp
    moreover have "\<not> m > v_seq v" "m \<noteq> v_seq v" using 3 by (auto simp: word_less_nat_alt)
    ultimately show ?thesis using 3 by (simp add: hashOfSeq_def)
  next
    case 4
    with hashOfSeq_near [OF assms] show ?thesis by simp
  next
    case 5
    have len: "length (skip_hashes v KSkip) \<le> 256"
      using assms(1) by (rule skip_hashes_le)
    show ?thesis
    proof (cases "unat m mod 256 = 0")
      case True
      from 5 have "unat m < ?n" by simp
      from hashOfSeq_long [OF assms this True] obtain r where r: "read_skip v (keylet_skip m) = Some r"
        "unat (drop_bit 8 (getU (lh_LastLedgerSequence r) - m)) < length (lh_Hashes r)"
        "lh_Hashes r ! (length (lh_Hashes r) - unat (drop_bit 8 (getU (lh_LastLedgerSequence r) - m)) - 1) = h (unat m)" .
      have "hashOfSeq (h ?n) (h (?n - 1)) v m = Some (h (unat m))"
        unfolding hashOfSeq_far [OF 5 len] r(1) Let_def option.case using r(2,3) True by simp
      with 5 True show ?thesis by simp
    next
      case False
      then have "hashOfSeq (h ?n) (h (?n - 1)) v m = None" unfolding hashOfSeq_far [OF 5 len] by simp
      with 5 False show ?thesis by simp
    qed
  qed
qed

end
