(* ===== verification/NegativeUNL.thy ===== *)
theory NegativeUNL
  imports LedgerState NodeKeys
begin

section \<open>The negative UNL\<close>

text \<open>
  Validators that are trusted but unreliable are listed in the ledger and left out of the quorum.
  Three pieces of code work on the list: the vote before a flag ledger (\<^verbatim>\<open>src/xrpld/app/misc/NegativeUNLVote.cpp\<close>)
  which proposes one validator to disable and one to re-enable; the pseudo transaction
  (\<^verbatim>\<open>Change::applyUNLModify\<close>) which records them in the flag ledger; and \<^verbatim>\<open>Ledger::updateNegativeUNL\<close>,
  which at the next flag ledger moves them into and out of the list.

  The node identifier of a key and the trusted validations of a ledger are parameters. Hash sets
  and hash maps are lists in the order of their iteration, which the code does not control.
\<close>

unbundle bit_operations_syntax

type_synonym nodeid = "160 word"

definition isFlagLedger :: "u32 \<Rightarrow> bool" where
  "isFlagLedger seq \<longleftrightarrow> seq mod kFLAG_LEDGER_INTERVAL = 0"

subsection \<open>The list in the ledger\<close>

definition nunl_disabled :: "negative_unl \<Rightarrow> blob list" where
  "nunl_disabled nu = map fst (getL (nu_DisabledValidators nu))"

definition negativeUNL :: "view \<Rightarrow> blob list" where
  "negativeUNL v =
     (case read_negative_unl v of None \<Rightarrow> []
      | Some sle \<Rightarrow> remdups (filter (\<lambda>k. publicKeyType k \<noteq> None) (nunl_disabled sle)))"

definition validatorToDisable :: "view \<Rightarrow> blob option" where
  "validatorToDisable v =
     (case read_negative_unl v of None \<Rightarrow> None
      | Some sle \<Rightarrow> (case nu_ValidatorToDisable sle of None \<Rightarrow> None
                     | Some d \<Rightarrow> if publicKeyType d \<noteq> None then Some d else None))"

definition validatorToReEnable :: "view \<Rightarrow> blob option" where
  "validatorToReEnable v =
     (case read_negative_unl v of None \<Rightarrow> None
      | Some sle \<Rightarrow> (case nu_ValidatorToReEnable sle of None \<Rightarrow> None
                     | Some d \<Rightarrow> if publicKeyType d \<noteq> None then Some d else None))"

definition updateNegativeUNL :: "view \<Rightarrow> view" where
  "updateNegativeUNL v =
     (case read_negative_unl v of
        None \<Rightarrow> v
      | Some sle \<Rightarrow>
          (let hasToDisable = (nu_ValidatorToDisable sle \<noteq> None);
               hasToReEnable = (nu_ValidatorToReEnable sle \<noteq> None)
           in if \<not> hasToDisable \<and> \<not> hasToReEnable then v
              else let kept = filter (\<lambda>d. \<not> (hasToReEnable \<and> Some (fst d) = nu_ValidatorToReEnable sle))
                                (getL (nu_DisabledValidators sle));
                       newNUnl = kept @ (case nu_ValidatorToDisable sle of None \<Rightarrow> [] | Some k \<Rightarrow> [(k, v_seq v)])
                   in if newNUnl \<noteq> []
                      then put v KNegativeUNL (SNegativeUNL
                             \<lparr>nu_DisabledValidators = Some newNUnl,
                              nu_ValidatorToDisable = None, nu_ValidatorToReEnable = None\<rparr>)
                      else del v KNegativeUNL))"

subsection \<open>The pseudo transaction\<close>

record unl_modify =
  um_Disabling :: "u8 option"
  um_LedgerSequence :: "u32 option"
  um_Validator :: "blob option"

definition empty_nunl :: negative_unl where
  "empty_nunl = \<lparr>nu_DisabledValidators = None, nu_ValidatorToDisable = None, nu_ValidatorToReEnable = None\<rparr>"

definition applyUNLModify :: "unl_modify \<Rightarrow> view \<Rightarrow> ter \<times> view" where
  "applyUNLModify um v =
     (if \<not> isFlagLedger (v_seq v) then (tefFAILURE, v)
      else if um_Disabling um = None \<or> getU (um_Disabling um) > 1
              \<or> um_LedgerSequence um = None \<or> um_Validator um = None then (tefFAILURE, v)
      else let disabling = (getU (um_Disabling um) \<noteq> 0);
               seq = getU (um_LedgerSequence um);
               validator = getL (um_Validator um)
      in if seq \<noteq> v_seq v then (tefFAILURE, v)
         else if publicKeyType validator = None then (tefFAILURE, v)
         else let negUnlObject = (case read_negative_unl v of None \<Rightarrow> empty_nunl | Some sle \<Rightarrow> sle);
                  v1 = (case read_negative_unl v of None \<Rightarrow> put v KNegativeUNL (SNegativeUNL empty_nunl) | Some _ \<Rightarrow> v);
                  found = (validator \<in> set (nunl_disabled negUnlObject))
         in if disabling
            then if nu_ValidatorToDisable negUnlObject \<noteq> None then (tefFAILURE, v1)
                 else if nu_ValidatorToReEnable negUnlObject = Some validator then (tefFAILURE, v1)
                 else if found then (tefFAILURE, v1)
                 else (tesSUCCESS, put v1 KNegativeUNL (SNegativeUNL (negUnlObject\<lparr>nu_ValidatorToDisable := Some validator\<rparr>)))
            else if nu_ValidatorToReEnable negUnlObject \<noteq> None then (tefFAILURE, v1)
                 else if nu_ValidatorToDisable negUnlObject = Some validator then (tefFAILURE, v1)
                 else if \<not> found then (tefFAILURE, v1)
                 else (tesSUCCESS, put v1 KNegativeUNL (SNegativeUNL (negUnlObject\<lparr>nu_ValidatorToReEnable := Some validator\<rparr>))))"

subsection \<open>The vote\<close>

definition kNEGATIVE_UNL_LOW_WATER_MARK :: nat where "kNEGATIVE_UNL_LOW_WATER_MARK = 256 * 50 div 100"
definition kNEGATIVE_UNL_HIGH_WATER_MARK :: nat where "kNEGATIVE_UNL_HIGH_WATER_MARK = 256 * 80 div 100"
definition kNEGATIVE_UNL_MIN_LOCAL_VALS_TO_VOTE :: nat where "kNEGATIVE_UNL_MIN_LOCAL_VALS_TO_VOTE = 256 * 90 div 100"
definition kNEW_VALIDATOR_DISABLE_SKIP :: nat where "kNEW_VALIDATOR_DISABLE_SKIP = 256 * 2"

lemmas nunl_const = kNEGATIVE_UNL_LOW_WATER_MARK_def kNEGATIVE_UNL_HIGH_WATER_MARK_def
  kNEGATIVE_UNL_MIN_LOCAL_VALS_TO_VOTE_def kNEW_VALIDATOR_DISABLE_SKIP_def kFLAG_LEDGER_INTERVAL_def

text \<open>\<open>std::ceil(n * 0.25f)\<close>, exact below \<open>2 ^ 24\<close> validators.\<close>

definition maxNegativeListed :: "nat \<Rightarrow> nat" where
  "maxNegativeListed n = (n + 3) div 4"

text \<open>The trusted validations of a ledger, as the node identifiers of their signers.\<close>

type_synonym trusted = "u256 \<Rightarrow> u32 \<Rightarrow> nodeid list"

type_synonym score_table = "(nodeid \<times> u32) list"

definition table_bump :: "nodeid \<Rightarrow> score_table \<Rightarrow> score_table" where
  "table_bump n table = map (\<lambda>(k, s). if k = n then (k, s + 1) else (k, s)) table"

definition score_ledger :: "trusted \<Rightarrow> u256 list \<Rightarrow> u32 \<Rightarrow> nat \<Rightarrow> score_table \<Rightarrow> score_table" where
  "score_ledger getTrusted ledgerAncestors seq i table =
     fold table_bump
       (getTrusted (ledgerAncestors ! (length ledgerAncestors - 1 - i)) (seq - 2 - of_nat i)) table"

definition buildScoreTable :: "nodeid \<Rightarrow> trusted \<Rightarrow> view \<Rightarrow> nodeid list \<Rightarrow> score_table option" where
  "buildScoreTable myId getTrusted prevLedger unl =
     (let seq = v_seq prevLedger + 1 in
      case read_skip prevLedger KSkip of
        None \<Rightarrow> None
      | Some hashIndex \<Rightarrow>
          (let ledgerAncestors = lh_Hashes hashIndex in
           if length ledgerAncestors < 256 then None
           else let scoreTable = fold (score_ledger getTrusted ledgerAncestors seq) [0..<256] (map (\<lambda>k. (k, 0)) unl);
                    myValidationCount = (case map_of scoreTable myId of Some s \<Rightarrow> s | None \<Rightarrow> 0)
                in if unat myValidationCount < kNEGATIVE_UNL_MIN_LOCAL_VALS_TO_VOTE then None
                   else if unat myValidationCount > kNEGATIVE_UNL_MIN_LOCAL_VALS_TO_VOTE
                           \<and> unat myValidationCount \<le> 256 then Some scoreTable
                   else None))"

definition canAdd :: "nodeid list \<Rightarrow> nodeid list \<Rightarrow> bool" where
  "canAdd unl negUnl \<longleftrightarrow> length (filter (\<lambda>n. n \<in> set negUnl) unl) < maxNegativeListed (length unl)"

definition findAllCandidates :: "nodeid list \<Rightarrow> nodeid list \<Rightarrow> score_table \<Rightarrow> (nodeid \<times> u32) list \<Rightarrow> nodeid list \<times> nodeid list" where
  "findAllCandidates unl negUnl scoreTable newValidators =
     (let add = canAdd unl negUnl;
          toDisable = map fst (filter (\<lambda>(nodeId, score). add \<and> unat score < kNEGATIVE_UNL_LOW_WATER_MARK
                        \<and> nodeId \<notin> set negUnl \<and> nodeId \<notin> fst ` set newValidators) scoreTable);
          toReEnable = map fst (filter (\<lambda>(nodeId, score). unat score > kNEGATIVE_UNL_HIGH_WATER_MARK
                        \<and> nodeId \<in> set negUnl) scoreTable)
      in (toDisable, if toReEnable = [] then filter (\<lambda>n. n \<notin> set unl) negUnl else toReEnable))"

definition choose_step :: "nodeid \<Rightarrow> nodeid \<Rightarrow> nodeid \<Rightarrow> nodeid" where
  "choose_step randomPad c txNodeID = (if c XOR randomPad < txNodeID XOR randomPad then c else txNodeID)"

text \<open>The pad is the first 20 bytes of the ledger hash.\<close>

definition choose_candidate :: "u256 \<Rightarrow> nodeid list \<Rightarrow> nodeid" where
  "choose_candidate randomPadData candidates =
     fold (choose_step (ucast (drop_bit 96 randomPadData))) (tl candidates) (hd candidates)"

definition purgeNewValidators :: "u32 \<Rightarrow> (nodeid \<times> u32) list \<Rightarrow> (nodeid \<times> u32) list" where
  "purgeNewValidators seq newValidators =
     filter (\<lambda>(n, added). \<not> unat (seq - added) > kNEW_VALIDATOR_DISABLE_SKIP) newValidators"

definition newValidators :: "u32 \<Rightarrow> nodeid list \<Rightarrow> (nodeid \<times> u32) list \<Rightarrow> (nodeid \<times> u32) list" where
  "newValidators seq nowTrusted table =
     fold (\<lambda>n m. if n \<in> fst ` set m then m else m @ [(n, seq)]) nowTrusted table"

definition addTx :: "u32 \<Rightarrow> blob \<Rightarrow> bool \<Rightarrow> unl_modify" where
  "addTx seq vp toDisable =
     \<lparr>um_Disabling = Some (if toDisable then 1 else 0), um_LedgerSequence = Some seq, um_Validator = Some vp\<rparr>"

text \<open>The list as it will be once the flag ledger has moved the two recorded validators.\<close>

definition nextNegUnl :: "view \<Rightarrow> blob list" where
  "nextNegUnl prevLedger =
     (let keys = negativeUNL prevLedger;
          keys1 = (case validatorToDisable prevLedger of None \<Rightarrow> keys | Some k \<Rightarrow> List.insert k keys)
      in case validatorToReEnable prevLedger of None \<Rightarrow> keys1 | Some k \<Rightarrow> removeAll k keys1)"

text \<open>\<open>nidToKeyMap\<close> has the trusted keys first, then the listed ones; \<open>at\<close> throws for a node it does not have.\<close>

definition vote_for :: "(nodeid \<rightharpoonup> blob) \<Rightarrow> u256 \<Rightarrow> u32 \<Rightarrow> bool \<Rightarrow> nodeid list \<Rightarrow> unl_modify list result" where
  "vote_for nidToKeyMap prevHash seq toDisable candidates =
     (if candidates = [] then Inr []
      else case nidToKeyMap (choose_candidate prevHash candidates) of
             None \<Rightarrow> Inl (LogicError ''unordered_map::at'')
           | Some k \<Rightarrow> Inr [addTx seq k toDisable])"

definition doVoting :: "(blob \<Rightarrow> nodeid) \<Rightarrow> nodeid \<Rightarrow> u256 \<Rightarrow> view \<Rightarrow> blob list \<Rightarrow> trusted \<Rightarrow> (nodeid \<times> u32) list
    \<Rightarrow> (unl_modify list \<times> (nodeid \<times> u32) list) result" where
  "doVoting calcNodeID myId prevHash prevLedger unlKeys getTrusted newVals =
     (let unlNodeIDs = remdups (map calcNodeID unlKeys) in
      case buildScoreTable myId getTrusted prevLedger unlNodeIDs of
        None \<Rightarrow> Inr ([], newVals)
      | Some scoreTable \<Rightarrow>
          (let negUnlKeys = nextNegUnl prevLedger;
               negUnlNodeIDs = remdups (map calcNodeID negUnlKeys);
               nidToKeyMap = map_of (map (\<lambda>k. (calcNodeID k, k)) (unlKeys @ negUnlKeys));
               seq = v_seq prevLedger + 1;
               newVals' = purgeNewValidators seq newVals;
               candidates = findAllCandidates unlNodeIDs negUnlNodeIDs scoreTable newVals'
           in case vote_for nidToKeyMap prevHash seq True (fst candidates) of
                Inl ex \<Rightarrow> Inl ex
              | Inr disable \<Rightarrow>
                  (case vote_for nidToKeyMap prevHash seq False (snd candidates) of
                     Inl ex \<Rightarrow> Inl ex
                   | Inr reenable \<Rightarrow> Inr (disable @ reenable, newVals'))))"

subsection \<open>The list stays well formed\<close>

definition nunl_ok :: "negative_unl \<Rightarrow> bool" where
  "nunl_ok nu \<longleftrightarrow> distinct (nunl_disabled nu) \<and> (\<forall>k \<in> set (nunl_disabled nu). publicKeyType k \<noteq> None)
     \<and> (\<forall>k. nu_ValidatorToDisable nu = Some k \<longrightarrow> k \<notin> set (nunl_disabled nu) \<and> publicKeyType k \<noteq> None)
     \<and> (\<forall>k. nu_ValidatorToReEnable nu = Some k \<longrightarrow> k \<in> set (nunl_disabled nu))"

definition nunl_view_ok :: "view \<Rightarrow> bool" where
  "nunl_view_ok v \<longleftrightarrow> (case read_negative_unl v of None \<Rightarrow> True | Some nu \<Rightarrow> nunl_ok nu)"

lemma read_nunl_put [simp]:
  "read_negative_unl (put v KNegativeUNL (SNegativeUNL nu)) = Some nu"
  "read_negative_unl (del v KNegativeUNL) = None"
  "read_negative_unl (v\<lparr>v_seq := s\<rparr>) = read_negative_unl v"
  by (simp_all add: read_negative_unl_def find_sle_def [of "v\<lparr>v_seq := s\<rparr>"] find_sle_def [of v, symmetric])

lemma nunl_disabled_simps [simp]:
  "nunl_disabled empty_nunl = []"
  "nunl_disabled (nu\<lparr>nu_ValidatorToDisable := x\<rparr>) = nunl_disabled nu"
  "nunl_disabled (nu\<lparr>nu_ValidatorToReEnable := x\<rparr>) = nunl_disabled nu"
  "nunl_disabled \<lparr>nu_DisabledValidators = Some ds, nu_ValidatorToDisable = x, nu_ValidatorToReEnable = y\<rparr> = map fst ds"
  by (simp_all add: nunl_disabled_def empty_nunl_def)

lemma empty_nunl_ok [simp]: "nunl_ok empty_nunl"
  by (simp add: nunl_ok_def) (simp add: empty_nunl_def)

definition current_nunl :: "view \<Rightarrow> negative_unl" where
  "current_nunl v = (case read_negative_unl v of None \<Rightarrow> empty_nunl | Some sle \<Rightarrow> sle)"

lemma current_nunl_ok: "nunl_view_ok v \<Longrightarrow> nunl_ok (current_nunl v)"
  by (simp add: nunl_view_ok_def current_nunl_def split: option.splits)

text \<open>When the pseudo transaction succeeds, and what it then records.\<close>

lemma applyUNLModify_success:
  "fst (applyUNLModify um v) = tesSUCCESS \<longleftrightarrow>
     isFlagLedger (v_seq v) \<and> um_LedgerSequence um = Some (v_seq v)
     \<and> (\<exists>k d. um_Validator um = Some k \<and> um_Disabling um = Some d \<and> d \<le> 1 \<and> publicKeyType k \<noteq> None
          \<and> (if d \<noteq> 0 then nu_ValidatorToDisable (current_nunl v) = None \<and> nu_ValidatorToReEnable (current_nunl v) \<noteq> Some k
                           \<and> k \<notin> set (nunl_disabled (current_nunl v))
             else nu_ValidatorToReEnable (current_nunl v) = None \<and> nu_ValidatorToDisable (current_nunl v) \<noteq> Some k
                           \<and> k \<in> set (nunl_disabled (current_nunl v))))"
proof -
  define c where "c = current_nunl v"
  have c: "(case read_negative_unl v of None \<Rightarrow> empty_nunl | Some sle \<Rightarrow> sle) = c"
    by (simp add: c_def current_nunl_def)
  show ?thesis unfolding applyUNLModify_def c Let_def c_def [symmetric]
    by (cases "um_Validator um"; cases "um_Disabling um"; cases "um_LedgerSequence um") (auto simp: not_less)
qed

lemma applyUNLModify_effect:
  assumes "applyUNLModify um v = (tesSUCCESS, v')"
  shows "read_negative_unl v' = Some (if getU (um_Disabling um) \<noteq> 0
      then (current_nunl v)\<lparr>nu_ValidatorToDisable := um_Validator um\<rparr>
      else (current_nunl v)\<lparr>nu_ValidatorToReEnable := um_Validator um\<rparr>) \<and> v_seq v' = v_seq v"
  using assms by (auto simp: applyUNLModify_def current_nunl_def Let_def split: if_splits option.splits)

lemma applyUNLModify_ok:
  assumes "applyUNLModify um v = (tesSUCCESS, v')" "nunl_view_ok v"
  shows "nunl_view_ok v'"
proof -
  have c: "nunl_ok (current_nunl v)" using assms(2) by (rule current_nunl_ok)
  have "fst (applyUNLModify um v) = tesSUCCESS" using assms(1) by simp
  then obtain k d where "um_Validator um = Some k" "um_Disabling um = Some d" "publicKeyType k \<noteq> None"
    "if d \<noteq> 0 then k \<notin> set (nunl_disabled (current_nunl v)) else k \<in> set (nunl_disabled (current_nunl v))"
    unfolding applyUNLModify_success by (auto split: if_splits)
  with applyUNLModify_effect [OF assms(1)] c show ?thesis
    by (auto simp: nunl_view_ok_def nunl_ok_def)
qed

text \<open>A flag ledger moves the two recorded validators: the list becomes the one that the vote counted with.\<close>

lemma updateNegativeUNL_current:
  assumes "nunl_view_ok v"
  defines "c \<equiv> current_nunl v" and "c' \<equiv> current_nunl (updateNegativeUNL v)"
  shows "set (nunl_disabled c') = set (nunl_disabled c) - set_option (nu_ValidatorToReEnable c) \<union> set_option (nu_ValidatorToDisable c)"
    and "nu_ValidatorToDisable c' = None" "nu_ValidatorToReEnable c' = None" "distinct (nunl_disabled c')"
proof -
  define kept where "kept = filter (\<lambda>d. \<not> (nu_ValidatorToReEnable c \<noteq> None \<and> Some (fst d) = nu_ValidatorToReEnable c))
     (getL (nu_DisabledValidators c))"
  have ok: "nunl_ok c" unfolding c_def using assms(1) by (rule current_nunl_ok)
  have k: "map fst kept = filter (\<lambda>d. Some d \<noteq> nu_ValidatorToReEnable c) (nunl_disabled c)"
    by (cases "nu_ValidatorToReEnable c") (simp_all add: kept_def nunl_disabled_def filter_map comp_def)
  let ?new = "kept @ (case nu_ValidatorToDisable c of None \<Rightarrow> [] | Some k \<Rightarrow> [(k, v_seq v)])"
  have u: "c' = (if nu_ValidatorToDisable c = None \<and> nu_ValidatorToReEnable c = None then c
      else if ?new \<noteq> [] then \<lparr>nu_DisabledValidators = Some ?new, nu_ValidatorToDisable = None, nu_ValidatorToReEnable = None\<rparr>
      else empty_nunl)"
    by (cases "read_negative_unl v"; cases "nu_ValidatorToReEnable c"; cases "nu_ValidatorToDisable c")
      (simp_all add: c'_def c_def current_nunl_def updateNegativeUNL_def Let_def kept_def empty_nunl_def)
  have s: "set (map fst kept) = set (nunl_disabled c) - set_option (nu_ValidatorToReEnable c)"
    by (auto simp: k)
  show "set (nunl_disabled c') = set (nunl_disabled c) - set_option (nu_ValidatorToReEnable c) \<union> set_option (nu_ValidatorToDisable c)"
    unfolding u using s by (auto split: option.splits)
  show "nu_ValidatorToDisable c' = None" "nu_ValidatorToReEnable c' = None"
    unfolding u by (auto simp: empty_nunl_def)
  have "distinct (map fst kept)" using ok by (simp add: k nunl_ok_def)
  moreover have "k \<notin> set (map fst kept)" if "nu_ValidatorToDisable c = Some k" for k
    using ok that by (auto simp: k nunl_ok_def)
  ultimately show "distinct (nunl_disabled c')" using ok unfolding u
    by (auto simp: nunl_ok_def split: option.splits)
qed

lemma updateNegativeUNL_ok:
  assumes "nunl_view_ok v"
  shows "nunl_view_ok (updateNegativeUNL v)"
proof -
  note u = updateNegativeUNL_current [OF assms]
  have "nunl_ok (current_nunl v)" using assms by (rule current_nunl_ok)
  with u have "nunl_ok (current_nunl (updateNegativeUNL v))" by (auto simp: nunl_ok_def)
  then show ?thesis by (simp add: nunl_view_ok_def current_nunl_def split: option.splits)
qed

lemma nextNegUnl_current:
  assumes "nunl_view_ok v"
  shows "set (nextNegUnl v) = set (nunl_disabled (current_nunl (updateNegativeUNL (v\<lparr>v_seq := s\<rparr>))))"
proof -
  have ok: "nunl_ok (current_nunl v)" using assms by (rule current_nunl_ok)
  have c: "current_nunl (v\<lparr>v_seq := s\<rparr>) = current_nunl v" by (simp add: current_nunl_def)
  have ok': "nunl_view_ok (v\<lparr>v_seq := s\<rparr>)" using assms by (simp add: nunl_view_ok_def)
  have n: "set (negativeUNL v) = set (nunl_disabled (current_nunl v))"
    using ok by (auto simp: negativeUNL_def current_nunl_def nunl_ok_def split: option.splits)
  have d: "validatorToDisable v = nu_ValidatorToDisable (current_nunl v)"
    using ok by (auto simp: validatorToDisable_def current_nunl_def nunl_ok_def empty_nunl_def split: option.splits)
  have r: "validatorToReEnable v = nu_ValidatorToReEnable (current_nunl v)"
    using ok by (fastforce simp: validatorToReEnable_def current_nunl_def nunl_ok_def empty_nunl_def split: option.splits)
  have "set (nextNegUnl v) = set (nunl_disabled (current_nunl v)) \<union> set_option (nu_ValidatorToDisable (current_nunl v))
      - set_option (nu_ValidatorToReEnable (current_nunl v))"
    using n by (auto simp: nextNegUnl_def Let_def d r split: option.splits)
  also have "\<dots> = set (nunl_disabled (current_nunl v)) - set_option (nu_ValidatorToReEnable (current_nunl v))
      \<union> set_option (nu_ValidatorToDisable (current_nunl v))"
    using ok by (auto simp: nunl_ok_def)
  finally show ?thesis using updateNegativeUNL_current(1) [OF ok'] c by simp
qed

subsection \<open>The choice does not depend on the order\<close>

lemma choose_fold:
  "fold (choose_step p) cs c \<in> insert c (set cs)
   \<and> (\<forall>x \<in> insert c (set cs). fold (choose_step p) cs c XOR p \<le> x XOR p)"
proof (induction cs arbitrary: c)
  case (Cons a cs)
  from Cons.IH [of "choose_step p a c"] show ?case
    by (auto simp: choose_step_def split: if_splits)
qed simp

lemma choose_least:
  assumes "cs \<noteq> []"
  shows "choose_candidate h cs \<in> set cs \<and>
    (\<forall>x \<in> set cs. choose_candidate h cs XOR ucast (drop_bit 96 h) \<le> x XOR ucast (drop_bit 96 h))"
  using choose_fold [of "ucast (drop_bit 96 h)" "tl cs" "hd cs"] assms
  by (cases cs) (simp_all add: choose_candidate_def)

theorem choose_order_independent:
  assumes "set cs = set cs'" "cs \<noteq> []"
  shows "choose_candidate h cs = choose_candidate h cs'"
proof -
  have "cs' \<noteq> []" using assms by auto
  from choose_least [OF assms(2), of h] choose_least [OF this, of h] assms(1)
  show ?thesis by (metis antisym xor_cancel)
qed

subsection \<open>The votes are accepted\<close>

lemma table_keys: "map fst (fold table_bump ns table) = map fst table"
proof (induction ns arbitrary: table)
  case (Cons n ns)
  have "map fst (table_bump n table) = map fst table" by (auto simp: table_bump_def split_def)
  with Cons show ?case by simp
qed simp

lemma score_ledger_keys: "map fst (fold (score_ledger g anc seq) is table) = map fst table"
  by (induction "is" arbitrary: table) (simp_all add: score_ledger_def table_keys)

lemma buildScoreTable_keys:
  "buildScoreTable myId g v unl = Some table \<Longrightarrow> map fst table = unl"
  by (auto simp: buildScoreTable_def Let_def score_ledger_keys comp_def split: option.splits if_splits)

lemma toDisable_candidates:
  assumes "n \<in> set (fst (findAllCandidates unl neg table news))"
  shows "n \<in> fst ` set table \<and> n \<notin> set neg \<and> n \<notin> fst ` set news \<and> canAdd unl neg"
  using assms by (force simp: findAllCandidates_def Let_def)

lemma toReEnable_candidates:
  assumes "n \<in> set (snd (findAllCandidates unl neg table news))"
  shows "n \<in> set neg"
  using assms by (force simp: findAllCandidates_def Let_def split: if_splits)

lemma map_of_keys:
  assumes "inj_on f (set ks)" "k \<in> set ks"
  shows "map_of (map (\<lambda>k. (f k, k)) ks) (f k) = Some k"
  using assms by (induction ks) (auto simp: inj_on_def)

lemma vote_for_cases:
  assumes "inj_on f (set ks)" "set cs \<subseteq> f ` set ks"
  shows "\<exists>l. vote_for (map_of (map (\<lambda>k. (f k, k)) ks)) h seq d cs = Inr l
    \<and> (l = [] \<or> (\<exists>k \<in> set ks. l = [addTx seq k d] \<and> f k \<in> set cs))"
proof (cases "cs = []")
  case False
  from choose_least [OF this, of h] assms(2) obtain k where "k \<in> set ks" "f k = choose_candidate h cs" by auto
  with choose_least [OF False, of h] map_of_keys [OF assms(1), of k] False show ?thesis
    by (auto simp: vote_for_def)
qed (simp add: vote_for_def)

fun accepts :: "unl_modify list \<Rightarrow> view \<Rightarrow> bool" where
  "accepts [] v = True"
| "accepts (um # ums) v = (case applyUNLModify um v of (r, v') \<Rightarrow> r = tesSUCCESS \<and> accepts ums v')"

definition flag_view :: "view \<Rightarrow> view" where
  "flag_view prev = updateNegativeUNL (prev\<lparr>v_seq := v_seq prev + 1\<rparr>)"

lemma flag_view_seq: "v_seq (flag_view prev) = v_seq prev + 1"
  by (simp add: flag_view_def updateNegativeUNL_def Let_def split: option.split)

lemma flag_view_current:
  assumes "nunl_view_ok prev"
  shows "set (nunl_disabled (current_nunl (flag_view prev))) = set (nextNegUnl prev)"
    "nu_ValidatorToDisable (current_nunl (flag_view prev)) = None"
    "nu_ValidatorToReEnable (current_nunl (flag_view prev)) = None"
    "nunl_view_ok (flag_view prev)"
proof -
  have ok: "nunl_view_ok (prev\<lparr>v_seq := v_seq prev + 1\<rparr>)" using assms by (simp add: nunl_view_ok_def)
  show "set (nunl_disabled (current_nunl (flag_view prev))) = set (nextNegUnl prev)"
    using nextNegUnl_current [OF assms, of "v_seq prev + 1"] by (simp add: flag_view_def)
  show "nu_ValidatorToDisable (current_nunl (flag_view prev)) = None"
    "nu_ValidatorToReEnable (current_nunl (flag_view prev)) = None" "nunl_view_ok (flag_view prev)"
    using updateNegativeUNL_current [OF ok] updateNegativeUNL_ok [OF ok] by (simp_all add: flag_view_def)
qed

lemma accept_disable:
  assumes "isFlagLedger (v_seq v)" "publicKeyType k \<noteq> None" "nu_ValidatorToDisable (current_nunl v) = None"
    "nu_ValidatorToReEnable (current_nunl v) = None" "k \<notin> set (nunl_disabled (current_nunl v))"
  obtains v' where "applyUNLModify (addTx (v_seq v) k True) v = (tesSUCCESS, v')" "v_seq v' = v_seq v"
    "current_nunl v' = (current_nunl v)\<lparr>nu_ValidatorToDisable := Some k\<rparr>"
proof -
  have "fst (applyUNLModify (addTx (v_seq v) k True) v) = tesSUCCESS"
    unfolding applyUNLModify_success using assms by (simp add: addTx_def)
  then obtain v' where v': "applyUNLModify (addTx (v_seq v) k True) v = (tesSUCCESS, v')" by (metis prod.collapse)
  from applyUNLModify_effect [OF v'] show thesis by (intro that [OF v']) (simp_all add: addTx_def current_nunl_def)
qed

lemma accept_reenable:
  assumes "isFlagLedger (v_seq v)" "publicKeyType k \<noteq> None" "nu_ValidatorToDisable (current_nunl v) \<noteq> Some k"
    "nu_ValidatorToReEnable (current_nunl v) = None" "k \<in> set (nunl_disabled (current_nunl v))"
  shows "fst (applyUNLModify (addTx (v_seq v) k False) v) = tesSUCCESS"
  unfolding applyUNLModify_success using assms by (simp add: addTx_def)

lemma votes_accepted:
  assumes "nunl_view_ok prev" "isFlagLedger (v_seq prev + 1)"
    and "ds = [] \<or> (\<exists>k. ds = [addTx (v_seq prev + 1) k True] \<and> publicKeyType k \<noteq> None \<and> k \<notin> set (nextNegUnl prev))"
    and "rs = [] \<or> (\<exists>k. rs = [addTx (v_seq prev + 1) k False] \<and> k \<in> set (nextNegUnl prev))"
  shows "accepts (ds @ rs) (flag_view prev)"
proof -
  note cur = flag_view_current [OF assms(1)] flag_view_seq [of prev]
  have re: "accepts rs v" if "v_seq v = v_seq prev + 1" "nu_ValidatorToReEnable (current_nunl v) = None"
    "set (nunl_disabled (current_nunl v)) = set (nextNegUnl prev)"
    "\<forall>k \<in> set (nextNegUnl prev). nu_ValidatorToDisable (current_nunl v) \<noteq> Some k" for v
  proof -
    have "\<forall>k \<in> set (nextNegUnl prev). publicKeyType k \<noteq> None"
      using current_nunl_ok [OF cur(4)] cur(1) by (simp add: nunl_ok_def)
    with assms(2,4) that accept_reenable [of v] show ?thesis by (fastforce split: prod.splits)
  qed
  from assms(3) show ?thesis
  proof
    assume "ds = []"
    with re [of "flag_view prev"] cur show ?thesis by simp
  next
    assume "\<exists>k. ds = [addTx (v_seq prev + 1) k True] \<and> publicKeyType k \<noteq> None \<and> k \<notin> set (nextNegUnl prev)"
    then obtain k where k: "ds = [addTx (v_seq (flag_view prev)) k True]" "publicKeyType k \<noteq> None" "k \<notin> set (nextNegUnl prev)"
      using cur by auto
    obtain v' where "applyUNLModify (addTx (v_seq (flag_view prev)) k True) (flag_view prev) = (tesSUCCESS, v')"
      "v_seq v' = v_seq prev + 1" "current_nunl v' = (current_nunl (flag_view prev))\<lparr>nu_ValidatorToDisable := Some k\<rparr>"
      by (rule accept_disable [of "flag_view prev" k]) (use cur k assms(2) in auto)
    with re [of v'] cur k show ?thesis by fastforce
  qed
qed

theorem doVoting_accepted:
  assumes "nunl_view_ok prev" "isFlagLedger (v_seq prev + 1)" "inj_on f (set unlKeys \<union> set (nextNegUnl prev))"
    and "\<forall>k \<in> set unlKeys. publicKeyType k \<noteq> None"
  shows "\<exists>txs news'. doVoting f me h prev unlKeys g news = Inr (txs, news') \<and> length txs \<le> 2 \<and> accepts txs (flag_view prev)"
proof (cases "buildScoreTable me g prev (remdups (map f unlKeys))")
  case None
  then show ?thesis by (simp add: doVoting_def)
next
  case (Some table)
  define neg where "neg = remdups (map f (nextNegUnl prev))"
  define news' where "news' = purgeNewValidators (v_seq prev + 1) news"
  define ks where "ks = unlKeys @ nextNegUnl prev"
  define D R where "D = fst (findAllCandidates (remdups (map f unlKeys)) neg table news')"
    and "R = snd (findAllCandidates (remdups (map f unlKeys)) neg table news')"
  note cur = flag_view_current [OF assms(1)] flag_view_seq [of prev]
  have inj: "inj_on f (set ks)" using assms(3) by (simp add: ks_def)
  have tk: "fst ` set table = f ` set unlKeys" using buildScoreTable_keys [OF Some] by (metis list.set_map set_remdups)
  have D: "n \<in> f ` set unlKeys \<and> n \<notin> f ` set (nextNegUnl prev)" if "n \<in> set D" for n
    using toDisable_candidates [OF that [unfolded D_def]] tk by (auto simp: neg_def)
  have R: "n \<in> f ` set (nextNegUnl prev)" if "n \<in> set R" for n
    using toReEnable_candidates [OF that [unfolded R_def]] by (auto simp: neg_def)
  let ?m = "map_of (map (\<lambda>k. (f k, k)) ks)" and ?s = "v_seq prev + 1"
  have "set D \<subseteq> f ` set ks" "set R \<subseteq> f ` set ks" using D R unfolding ks_def by auto blast+
  from vote_for_cases [OF inj this(1), of h ?s True] vote_for_cases [OF inj this(2), of h ?s False]
  obtain ds rs where ds: "vote_for ?m h ?s True D = Inr ds" "ds = [] \<or> (\<exists>k \<in> set ks. ds = [addTx ?s k True] \<and> f k \<in> set D)"
    and rs: "vote_for ?m h ?s False R = Inr rs" "rs = [] \<or> (\<exists>k \<in> set ks. rs = [addTx ?s k False] \<and> f k \<in> set R)"
    by blast
  have kd: "k \<in> set unlKeys \<and> k \<notin> set (nextNegUnl prev)" if "k \<in> set ks" "f k \<in> set D" for k
    using D [OF that(2)] that(1) by (auto simp: ks_def)
  have kr: "k \<in> set (nextNegUnl prev)" if "k \<in> set ks" "f k \<in> set R" for k
    using R [OF that(2)] that(1) inj_onD [OF inj] by (auto simp: ks_def)
  have "doVoting f me h prev unlKeys g news = Inr (ds @ rs, news')"
    using Some ds(1) rs(1) by (simp add: doVoting_def Let_def D_def R_def neg_def news'_def ks_def)
  moreover have "length (ds @ rs) \<le> 2" using ds(2) rs(2) by auto
  moreover have "accepts (ds @ rs) (flag_view prev)"
    using ds(2) rs(2) kd kr assms(4) by (intro votes_accepted [OF assms(1,2)]) blast+
  ultimately show ?thesis by blast
qed

subsection \<open>The scores\<close>

text \<open>The score of a validator is the number of its validations over the 256 ledgers before the vote.\<close>

definition validation_count :: "trusted \<Rightarrow> u256 list \<Rightarrow> u32 \<Rightarrow> nodeid \<Rightarrow> nat" where
  "validation_count g anc seq n =
     (\<Sum>i\<leftarrow>[0..<256]. count_list (g (anc ! (length anc - 1 - i)) (seq - 2 - of_nat i)) n)"

lemma bump_counts: "fold table_bump ns table = map (\<lambda>(k, s). (k, s + of_nat (count_list ns k))) table"
proof (induction ns arbitrary: table)
  case (Cons n ns)
  show ?case by (simp add: Cons.IH) (auto simp: table_bump_def)
qed (simp add: split_def)

lemma ledger_counts:
  "fold (score_ledger g anc seq) is table =
   map (\<lambda>(k, s). (k, s + of_nat (\<Sum>i\<leftarrow>is. count_list (g (anc ! (length anc - 1 - i)) (seq - 2 - of_nat i)) k))) table"
proof (induction "is" arbitrary: table)
  case (Cons i "is")
  show ?case by (simp add: Cons.IH) (auto simp: score_ledger_def bump_counts)
qed (simp add: split_def)

lemma buildScoreTable_counts:
  assumes "buildScoreTable myId g v unl = Some table" "read_skip v KSkip = Some idx"
  shows "table = map (\<lambda>n. (n, of_nat (validation_count g (lh_Hashes idx) (v_seq v + 1) n))) unl"
  using assms by (auto simp: buildScoreTable_def Let_def ledger_counts validation_count_def split: if_splits)

text \<open>A node with exactly the minimum number of validations does not vote.\<close>

lemma minimum_does_not_vote:
  assumes "read_skip v KSkip = Some idx" "myId \<in> set unl"
    and "validation_count g (lh_Hashes idx) (v_seq v + 1) myId = kNEGATIVE_UNL_MIN_LOCAL_VALS_TO_VOTE"
  shows "buildScoreTable myId g v unl = None"
proof (rule ccontr)
  assume "buildScoreTable myId g v unl \<noteq> None"
  then obtain table where t: "buildScoreTable myId g v unl = Some table" by blast
  let ?f = "\<lambda>n. of_nat (validation_count g (lh_Hashes idx) (v_seq v + 1) n) :: u32"
  have "map_of table myId = Some (?f myId)"
    unfolding buildScoreTable_counts [OF t assms(1)] using assms(2) by (simp add: map_of_map_restrict)
  then have "map_of table myId = Some 230" by (simp add: assms(3) nunl_const)
  with t assms(1) show False by (auto simp: buildScoreTable_def Let_def nunl_const split: if_splits)
qed

lemma disable_bound:
  assumes "fst (findAllCandidates unl neg table news) \<noteq> []"
  shows "4 * length (filter (\<lambda>n. n \<in> set neg) unl) < length unl + 3"
proof -
  from assms obtain n where "n \<in> set (fst (findAllCandidates unl neg table news))" by (meson list.set_sel(1))
  from toDisable_candidates [OF this]
  have "length (filter (\<lambda>n. n \<in> set neg) unl) < (length unl + 3) div 4" by (simp add: canAdd_def maxNegativeListed_def)
  then show ?thesis by linarith
qed

end
