(* ===== verification/BuildLedger.thy ===== *)
theory BuildLedger
  imports TxSafety CanonicalTXSet RewardEpoch Scoring SkipList NegativeUNL "HOL-Library.Multiset"
begin

section \<open>Building a ledger\<close>

text \<open>
  \<^verbatim>\<open>src/xrpld/app/ledger/detail/BuildLedger.cpp\<close> and \<open>applyTransaction\<close> of \<^verbatim>\<open>src/libxrpl/tx/apply.cpp\<close>: the
  transactions that consensus agreed on are applied in canonical order in up to three passes, then
  the reward epoch, the scores and the governance proposals are brought up to date, and the skip
  list records the parent. The transactions are those of the model; batches are not modelled.
\<close>

subsection \<open>Applying one transaction\<close>

datatype ApplyTransactionResult = Success | Fail | Retry

text \<open>A closed ledger under construction: its state and the identifiers of the transactions in it.\<close>

record building =
  b_view :: view
  b_txs :: "u256 list"

definition closed_params :: "apply_params \<Rightarrow> bool \<Rightarrow> u256 list \<Rightarrow> apply_params" where
  "closed_params ap retryAssured txs =
     ap\<lparr>ap_open := False, ap_retry := retryAssured, ap_failHard := False, ap_dryRun := False,
        ap_txExists := (\<lambda>i. i \<in> set txs)\<rparr>"

definition applyTransaction :: "env \<Rightarrow> apply_params \<Rightarrow> bool \<Rightarrow> tx \<Rightarrow> building \<Rightarrow> ApplyTransactionResult \<times> building" where
  "applyTransaction e ap retryAssured t b =
     (case apply_tx e (closed_params ap retryAssured (b_txs b)) t (b_view b) of
        (ter, applied, v') \<Rightarrow>
          if applied then (Success, \<lparr>b_view = v', b_txs = b_txs b @ [tx_ID t]\<rparr>)
          else if isTefFailure ter \<or> isTemMalformed ter \<or> isTelLocal ter then (Fail, b)
          else (Retry, b))"

subsection \<open>The passes\<close>

definition LEDGER_TOTAL_PASSES :: nat where "LEDGER_TOTAL_PASSES = 3"
definition LEDGER_RETRY_PASSES :: nat where "LEDGER_RETRY_PASSES = 1"

record progress =
  p_txns :: "(tx_key \<times> tx) list"
  p_failed :: "u256 list"
  p_changes :: nat
  p_built :: building

text \<open>
  One pass over the set, in its order. What remains is the sublist of the transactions to retry. The
  new ledger holds no transactions when the first pass begins; \<open>builtTxs\<close> are those it had.
\<close>

fun apply_pass :: "env \<Rightarrow> apply_params \<Rightarrow> u256 list \<Rightarrow> nat \<Rightarrow> bool \<Rightarrow> canonical \<Rightarrow> u256 list \<Rightarrow> nat \<Rightarrow> building \<Rightarrow> progress" where
  "apply_pass e ap builtTxs pass certainRetry [] failed changes b =
     \<lparr>p_txns = [], p_failed = failed, p_changes = changes, p_built = b\<rparr>"
| "apply_pass e ap builtTxs pass certainRetry ((k, t) # rest) failed changes b =
     (if pass = 0 \<and> key_txId k \<in> set builtTxs
      then apply_pass e ap builtTxs pass certainRetry rest failed changes b
      else case applyTransaction e ap certainRetry t b of
             (Success, b') \<Rightarrow> apply_pass e ap builtTxs pass certainRetry rest failed (changes + 1) b'
           | (Fail, b') \<Rightarrow> apply_pass e ap builtTxs pass certainRetry rest (failed @ [key_txId k]) changes b'
           | (Retry, b') \<Rightarrow>
               let p = apply_pass e ap builtTxs pass certainRetry rest failed changes b'
               in p\<lparr>p_txns := (k, t) # p_txns p\<rparr>)"

text \<open>The loop over the remaining passes; the last component is \<open>certainRetry\<close> when it ends.\<close>

fun apply_passes :: "env \<Rightarrow> apply_params \<Rightarrow> u256 list \<Rightarrow> nat list \<Rightarrow> bool \<Rightarrow> canonical \<Rightarrow> u256 list \<Rightarrow> nat \<Rightarrow> building
    \<Rightarrow> progress \<times> bool" where
  "apply_passes e ap builtTxs [] certainRetry txns failed cnt b =
     (\<lparr>p_txns = txns, p_failed = failed, p_changes = cnt, p_built = b\<rparr>, certainRetry)"
| "apply_passes e ap builtTxs (pass # passes) certainRetry txns failed cnt b =
     (let p = apply_pass e ap builtTxs pass certainRetry txns failed 0 b;
          cnt' = cnt + p_changes p
      in if p_changes p = 0 \<and> \<not> certainRetry then (p\<lparr>p_changes := cnt'\<rparr>, certainRetry)
         else let certainRetry' = (if p_changes p = 0 \<or> pass \<ge> LEDGER_RETRY_PASSES then False else certainRetry)
              in apply_passes e ap builtTxs passes certainRetry' (p_txns p) (p_failed p) cnt' (p_built p))"

definition applyTransactions :: "env \<Rightarrow> apply_params \<Rightarrow> u256 list \<Rightarrow> canonical \<Rightarrow> u256 list \<Rightarrow> building \<Rightarrow> progress \<times> bool" where
  "applyTransactions e ap builtTxs txns failed b =
     apply_passes e ap builtTxs [0..<LEDGER_TOTAL_PASSES] True txns failed 0 b"

subsection \<open>The ledger\<close>

definition prune_proposals :: "key list \<Rightarrow> view \<Rightarrow> view" where
  "prune_proposals proposalKeys v =
     (if proposalKeys = [] then v
      else case read_epoch v of
             None \<Rightarrow> v
           | Some sleEpoch \<Rightarrow>
               (let remaining = filter (\<lambda>k. case read_proposal v k of
                                  Some sle \<Rightarrow> pr_ProposalState sle = 0 | None \<Rightarrow> False) proposalKeys
                in if length remaining \<noteq> length proposalKeys
                   then put_epoch v (sleEpoch\<lparr>ep_Proposals := Some remaining\<rparr>) else v))"

definition end_of_ledger :: "env \<Rightarrow> scoring_inputs \<Rightarrow> u32 \<Rightarrow> view \<Rightarrow> view" where
  "end_of_ledger e si seq v =
     (let v1 = applyRewardEpoch e v seq;
          v2 = applyValidatorScoring e si seq v1;
          proposalKeys = (case read_epoch v2 of None \<Rightarrow> [] | Some sleEpoch \<Rightarrow> getL (ep_Proposals sleEpoch))
      in prune_proposals proposalKeys (applyGovernanceTally e v2 seq proposalKeys))"

definition open_built :: "view \<Rightarrow> view" where
  "open_built parent =
     (let built = parent\<lparr>v_seq := v_seq parent + 1\<rparr>
      in if isFlagLedger (v_seq built) then updateNegativeUNL built else built)"

definition buildLedger :: "env \<Rightarrow> apply_params \<Rightarrow> scoring_inputs \<Rightarrow> u256 \<Rightarrow> canonical \<Rightarrow> view \<Rightarrow> view \<times> progress" where
  "buildLedger e ap si parentHash txns parent =
     (let built = open_built parent;
          p = fst (applyTransactions e ap [] txns [] \<lparr>b_view = built, b_txs = []\<rparr>);
          accum = end_of_ledger e si (v_seq built) (b_view (p_built p))
      in (updateSkipList parentHash accum, p))"

subsection \<open>A final pass loses no fee\<close>

lemma preflight_no_tec: "\<not> isTecClaim (tx_preflight e t)"
  by (cases "tx_body t")
    (auto simp: tx_preflight_def isTecClaim_def ValidatorRegister_preflight_def ValidatorBond_preflight_def
      ValidatorUnbond_preflight_def ReleaseBond_preflight_def ValidatorSlash_preflight_def ClaimReward_preflight_def
      ClaimLPReward_preflight_def ClaimAmmLpReward_preflight_def GovernanceProposal_preflight_def
      GovernanceVote_preflight_def NameSet_preflight_def NameUnbond_preflight_def NameRelease_preflight_def Let_def
      split: option.splits)

lemma invokePreflight_no_tec: "\<not> isTecClaim (invokePreflight e ap t)"
  using preflight_no_tec [of e t]
  by (auto simp: invokePreflight_def preflight1_def preflight2_def preflight0_def preflightCheckSigningKey_def
      Let_def isTecClaim_def)

definition final_ok :: "ter \<Rightarrow> bool \<Rightarrow> bool" where
  "final_ok r applied \<longleftrightarrow> applied \<or> \<not> isTecClaim r \<and> r \<noteq> tesSUCCESS"

lemma claim_stage_final:
  assumes "claim_stage ap t base rv = Inr (r, applied, fee, v)" "\<not> ap_retry ap" "\<not> ap_failHard ap"
  shows "final_ok r applied"
proof -
  obtain r0 w where rv: "rv = (r0, w)" by (cases rv)
  let ?r = "if length (visit_keys base w) > kOVERSIZE_META_DATA_CAP then tecOVERSIZE else r0"
  consider (reset) x fee w where "transactor_reset t (tx_Fee t) base = Inr (x, fee, w)" "r = (if x \<noteq> tesSUCCESS then x else ?r)"
      "applied = isTecClaim r" "isTecClaim ?r"
    | (keep) "r = ?r" "applied = (r0 = tesSUCCESS)" "\<not> isTecClaim ?r"
    using assms by (auto simp: claim_stage_def Let_def rv isTecClaimHardFail_def isTecClaim_def
        split: if_splits sum.splits prod.splits)
  then show ?thesis
  proof cases
    case reset
    with reset_codes [OF reset(1)] show ?thesis by (auto simp: final_ok_def dest: isTecClaim_not_success)
  next
    case keep
    then show ?thesis by (auto simp: final_ok_def isTecClaim_def split: if_splits)
  qed
qed

lemma invariant_stage_final:
  assumes "invariant_stage t base (r, applied, fee, v) = Inr (r', applied', fee', v')" "final_ok r applied"
  shows "final_ok r' applied'"
  using assms by (auto simp: invariant_stage_def final_ok_def Let_def split: if_splits sum.splits prod.splits)

lemma apply_tx_final:
  assumes "apply_tx e ap t v = (r, False, v')" "\<not> ap_retry ap" "\<not> ap_failHard ap" "\<not> ap_dryRun ap"
  shows "\<not> isTecClaim r \<and> r \<noteq> tesSUCCESS"
proof (cases "invokePreflight e ap t = tesSUCCESS \<and> (invokePreclaim e ap t v = tesSUCCESS \<or> isTecClaim (invokePreclaim e ap t v))")
  case False
  with assms invokePreflight_no_tec [of e ap t] show ?thesis
    by (auto simp: apply_tx_def Let_def isTecClaimHardFail_def split: if_splits)
next
  case True
  with assms have "(case transactor_operator e ap t (invokePreclaim e ap t v) v of
      Inl ex \<Rightarrow> (tefEXCEPTION, False, v) | Inr r \<Rightarrow> r) = (r, False, v')"
    by (auto simp: apply_tx_def Let_def isTecClaimHardFail_def)
  then consider "r = tefEXCEPTION" | "transactor_operator e ap t (invokePreclaim e ap t v) v = Inr (r, False, v')"
    by (auto split: sum.splits)
  then show ?thesis
  proof cases
    case 2
    then obtain rv p q where "claim_stage ap t v rv = Inr p" "invariant_stage t v p = Inr q"
      "commit_stage e ap v q = Inr (r, False, v')"
      by (auto simp: transactor_operator_def split: sum.splits)
    moreover obtain r1 a1 f1 v1 r2 a2 f2 v2 where "p = (r1, a1, f1, v1)" "q = (r2, a2, f2, v2)" by (cases p; cases q)
    ultimately have "final_ok r2 a2" "commit_stage e ap v (r2, a2, f2, v2) = Inr (r, False, v')"
      using claim_stage_final [of ap t v rv r1 a1 f1 v1] invariant_stage_final [of t v r1 a1 f1 v1 r2 a2 f2 v2] assms(2,3)
      by auto
    with assms(4) show ?thesis by (auto simp: commit_stage_def Let_def final_ok_def split: if_splits)
  qed (simp add: isTecClaim_def)
qed

subsection \<open>Every transaction ends in one place\<close>

text \<open>The identifiers of a set of transactions.\<close>

definition ids :: "canonical \<Rightarrow> u256 multiset" where
  "ids txns = image_mset (\<lambda>p. key_txId (fst p)) (mset txns)"

definition keyed :: "canonical \<Rightarrow> bool" where
  "keyed txns \<longleftrightarrow> (\<forall>(k, t) \<in> set txns. key_txId k = tx_ID t)"

lemma applyTransaction_cases:
  obtains b' where "applyTransaction e ap retry t b = (Success, b')" "b_txs b' = b_txs b @ [tx_ID t]"
      "\<exists>r. apply_tx e (closed_params ap retry (b_txs b)) t (b_view b) = (r, True, b_view b')"
    | "applyTransaction e ap retry t b = (Fail, b)"
    | r v' where "applyTransaction e ap retry t b = (Retry, b)"
      "apply_tx e (closed_params ap retry (b_txs b)) t (b_view b) = (r, False, v')"
      "\<not> isTefFailure r" "\<not> isTemMalformed r" "\<not> isTelLocal r"
proof -
  obtain r applied v' where a: "apply_tx e (closed_params ap retry (b_txs b)) t (b_view b) = (r, applied, v')"
    by (cases "apply_tx e (closed_params ap retry (b_txs b)) t (b_view b)")
  show thesis
  proof (cases applied)
    case True
    with a show thesis by (intro that(1)) (auto simp: applyTransaction_def)
  next
    case False
    with a that(2,3) show thesis
      by (cases "isTefFailure r \<or> isTemMalformed r \<or> isTelLocal r") (auto simp: applyTransaction_def)
  qed
qed

definition accounted :: "canonical \<Rightarrow> u256 list \<Rightarrow> nat \<Rightarrow> building \<Rightarrow> progress \<Rightarrow> bool" where
  "accounted txns failed changes b p \<longleftrightarrow> keyed (p_txns p)
     \<and> ids (p_txns p) + mset (p_failed p) + mset (b_txs (p_built p)) = ids txns + mset failed + mset (b_txs b)
     \<and> p_changes p + length (b_txs b) = changes + length (b_txs (p_built p))"

lemma apply_pass_accounts:
  "keyed txns \<Longrightarrow> accounted txns failed changes b (apply_pass e ap [] pass retry txns failed changes b)"
proof (induction txns arbitrary: failed changes b)
  case Nil
  then show ?case by (simp add: accounted_def)
next
  case (Cons kt rest)
  obtain k t where kt: "kt = (k, t)" by (cases kt)
  have kr: "keyed rest" "key_txId k = tx_ID t" using Cons.prems kt by (auto simp: keyed_def)
  show ?case
  proof (cases rule: applyTransaction_cases [of e ap retry t b])
    case (1 b')
    with Cons.IH [OF kr(1), of failed "changes + 1" b'] kr kt show ?thesis by (auto simp: accounted_def ids_def)
  next
    case 2
    with Cons.IH [OF kr(1), of "failed @ [key_txId k]" changes b] kr kt show ?thesis
      by (auto simp: accounted_def ids_def)
  next
    case 3
    with Cons.IH [OF kr(1), of failed changes b] kr kt show ?thesis
      by (auto simp: accounted_def ids_def keyed_def Let_def)
  qed
qed

lemma accounted_trans:
  "accounted txns failed 0 b p \<Longrightarrow> accounted (p_txns p) (p_failed p) (cnt + p_changes p) (p_built p) q \<Longrightarrow>
   accounted txns failed cnt b q"
  by (simp add: accounted_def)

lemma accounted_stop: "accounted txns failed 0 b p \<Longrightarrow> accounted txns failed cnt b (p\<lparr>p_changes := cnt + p_changes p\<rparr>)"
  by (simp add: accounted_def)

lemma apply_passes_accounts:
  "keyed txns \<Longrightarrow> accounted txns failed cnt b (fst (apply_passes e ap [] passes retry txns failed cnt b))"
proof (induction passes arbitrary: retry txns failed cnt b)
  case Nil
  then show ?case by (simp add: accounted_def)
next
  case (Cons pass passes)
  let ?p = "apply_pass e ap [] pass retry txns failed 0 b"
  have a: "accounted txns failed 0 b ?p" using Cons.prems by (rule apply_pass_accounts)
  then have "keyed (p_txns ?p)" by (simp add: accounted_def)
  with Cons.IH a show ?case
    by (auto simp: Let_def intro: accounted_stop accounted_trans)
qed

text \<open>
  Each agreed transaction is applied once, or failed, or left for the next ledger, and the number
  returned is the number of transactions applied.
\<close>

theorem applyTransactions_accounts:
  assumes "keyed txns" "b_txs b = []" "applyTransactions e ap [] txns [] b = (p, c)"
  shows "ids (p_txns p) + mset (p_failed p) + mset (b_txs (p_built p)) = ids txns \<and> p_changes p = length (b_txs (p_built p))"
  using apply_passes_accounts [OF assms(1), of "[]" 0 b e ap "[0..<LEDGER_TOTAL_PASSES]" True] assms(2,3)
  by (simp add: applyTransactions_def accounted_def)

subsection \<open>What is left was tried for good\<close>

lemma apply_pass_retry:
  "(k, t) \<in> set (p_txns (apply_pass e ap bt pass retry txns failed changes b)) \<Longrightarrow>
   \<exists>b'. applyTransaction e ap retry t b' = (Retry, b')"
proof (induction txns arbitrary: failed changes b)
  case (Cons kt rest)
  obtain k' t' where kt: "kt = (k', t')" by (cases kt)
  show ?case
  proof (cases rule: applyTransaction_cases [of e ap retry t' b])
    case (1 b')
    with Cons kt show ?thesis by (auto split: if_splits)
  next
    case 2
    with Cons kt show ?thesis by (auto split: if_splits)
  next
    case 3
    with Cons kt show ?thesis by (auto simp: Let_def split: if_splits)
  qed
qed simp

theorem applyTransactions_final:
  assumes "applyTransactions e ap bt txns failed b = (p, c)"
  shows "\<not> c \<and> (\<forall>(k, t) \<in> set (p_txns p). \<exists>b'. applyTransaction e ap False t b' = (Retry, b'))"
proof -
  have "[0..<LEDGER_TOTAL_PASSES] = [0, 1, 2]" by (simp add: LEDGER_TOTAL_PASSES_def upt_rec)
  with assms show ?thesis
    by (auto simp: applyTransactions_def LEDGER_RETRY_PASSES_def Let_def dest!: apply_pass_retry split: if_splits)
qed

text \<open>So what is left waits for something: its last result was one to retry, not a fee that could have been claimed.\<close>

lemma retry_final:
  assumes "applyTransaction e ap False t b = (Retry, b)"
  shows "\<exists>r. apply_tx e (closed_params ap False (b_txs b)) t (b_view b) = (r, False, b_view b) \<and> isTerRetry r"
proof (cases rule: applyTransaction_cases [of e ap False t b])
  case (3 r v')
  have "\<not> isTecClaim r \<and> r \<noteq> tesSUCCESS" by (rule apply_tx_final [OF 3(2)]) (simp_all add: closed_params_def)
  with 3 ter_classes [of r] apply_tx_unapplied [OF 3(2)] show ?thesis by auto
qed (use assms in simp_all)

subsection \<open>The drops of a ledger\<close>

text \<open>What holds of every ledger of the chain: the entries hold exactly the drops that the header counts.\<close>

definition ledger_ok :: "env \<Rightarrow> view \<Rightarrow> bool" where
  "ledger_ok e v \<longleftrightarrow> sound_view v \<and> supply_gap v = 0 \<and> v_drops v \<le> kINITIAL_XRP \<and> chain_ok e v \<and> singles_ok v"

text \<open>How a ledger relates to the one it was built from.\<close>

definition extends :: "view \<Rightarrow> view \<Rightarrow> bool" where
  "extends v v' \<longleftrightarrow> v_drops v' \<le> v_drops v \<and> held v' \<le> held v"

lemma ledger_ok_conserves:
  assumes "ledger_ok e v" "conserves v v'" "v_drops v' \<le> v_drops v" "chain_ok e v'" "singles_ok v'"
  shows "ledger_ok e v' \<and> extends v v'"
  using assms by (auto simp: ledger_ok_def conserves_def extends_def supply_gap_def)

lemma extends_refl: "extends v v"
  by (simp add: extends_def)

lemma extends_trans: "extends u v \<Longrightarrow> extends v w \<Longrightarrow> extends u w"
  by (auto simp: extends_def)

lemma apply_tx_frame:
  assumes "apply_tx e ap t v = (r, applied, v')" "sound_view v" "chain_ok e v" "wf_tx t" "singles_ok v"
  shows "v_drops v' \<le> v_drops v \<and> singles_ok v'"
  using assms(1-4)
proof (cases rule: apply_tx_cases)
  case (2 fee w)
  have "fee < 2 ^ 63" "0 \<le> fee" using 2(2,5) by (simp_all add: settled_def qxrp_const)
  from destroyXRP_tx_frame [OF this(2,1), of w e] 2 assms(5) show ?thesis
    by (auto simp: settled_def tx_frame_def)
qed (use assms in simp)

lemma apply_tx_ledger_ok:
  assumes "apply_tx e ap t v = (r, applied, v')" "ledger_ok e v" "wf_tx t" "\<not> ap_open ap"
  shows "ledger_ok e v' \<and> extends v v'"
proof -
  have v: "sound_view v" "chain_ok e v" "singles_ok v" using assms(2) by (simp_all add: ledger_ok_def)
  from apply_tx_keeps [OF assms(1) v(1,2) assms(3,4)] apply_tx_frame [OF assms(1) v(1,2) assms(3) v(3)] assms(2)
  show ?thesis by (intro ledger_ok_conserves) auto
qed

lemma applyTransaction_ledger_ok:
  assumes "applyTransaction e ap retry t b = (r, b')" "ledger_ok e (b_view b)" "wf_tx t"
  shows "ledger_ok e (b_view b') \<and> extends (b_view b) (b_view b')"
proof (cases rule: applyTransaction_cases [of e ap retry t b])
  case (1 c)
  then obtain r' where a: "apply_tx e (closed_params ap retry (b_txs b)) t (b_view b) = (r', True, b_view c)" by blast
  from apply_tx_ledger_ok [OF this assms(2,3)] 1 assms(1) show ?thesis by (simp add: closed_params_def)
qed (use assms extends_refl in auto)

lemma apply_pass_ledger_ok:
  assumes "ledger_ok e (b_view b)" "\<forall>(k, t) \<in> set txns. wf_tx t"
  shows "ledger_ok e (b_view (p_built (apply_pass e ap bt pass retry txns failed changes b)))
    \<and> extends (b_view b) (b_view (p_built (apply_pass e ap bt pass retry txns failed changes b)))"
  using assms
proof (induction txns arbitrary: failed changes b)
  case Nil
  then show ?case by (simp add: extends_refl)
next
  case (Cons kt rest)
  obtain k t where kt: "kt = (k, t)" by (cases kt)
  obtain r b' where a: "applyTransaction e ap retry t b = (r, b')" by (cases "applyTransaction e ap retry t b")
  have wf: "wf_tx t" "\<forall>(k, t) \<in> set rest. wf_tx t" using Cons.prems kt by auto
  from applyTransaction_ledger_ok [OF a Cons.prems(1) wf(1)]
  have b': "ledger_ok e (b_view b')" "extends (b_view b) (b_view b')" by auto
  from Cons.IH [OF b'(1) wf(2)] Cons.IH [OF Cons.prems(1) wf(2)] a b'(2) kt show ?case
    by (cases r) (auto simp: Let_def intro: extends_trans)
qed

lemma apply_pass_subset: "set (p_txns (apply_pass e ap bt pass retry txns failed changes b)) \<subseteq> set txns"
proof (induction txns arbitrary: failed changes b)
  case (Cons kt rest)
  obtain k t where kt: "kt = (k, t)" by (cases kt)
  obtain r b' where a: "applyTransaction e ap retry t b = (r, b')" by (cases "applyTransaction e ap retry t b")
  have "set (p_txns (apply_pass e ap bt pass retry rest f c u)) \<subseteq> set (kt # rest)" for f c u
    using Cons.IH [of f c u] by auto
  with kt a show ?case by (cases r) (simp_all add: Let_def, (intro impI, elim conjE, hypsubst, blast)+)
qed simp

lemma apply_passes_ledger_ok:
  assumes "ledger_ok e (b_view b)" "\<forall>(k, t) \<in> set txns. wf_tx t"
  shows "ledger_ok e (b_view (p_built (fst (apply_passes e ap bt passes retry txns failed cnt b))))
    \<and> extends (b_view b) (b_view (p_built (fst (apply_passes e ap bt passes retry txns failed cnt b))))"
  using assms
proof (induction passes arbitrary: retry txns failed cnt b)
  case Nil
  then show ?case by (simp add: extends_refl)
next
  case (Cons pass passes)
  let ?p = "apply_pass e ap bt pass retry txns failed 0 b"
  from apply_pass_ledger_ok [OF Cons.prems, of ap bt pass retry failed 0]
  have p: "ledger_ok e (b_view (p_built ?p))" "extends (b_view b) (b_view (p_built ?p))" by auto
  have w: "\<forall>(k, t) \<in> set (p_txns ?p). wf_tx t"
    using apply_pass_subset [of e ap bt pass retry txns failed 0 b] Cons.prems(2) by blast
  from Cons.IH [OF p(1) w] p show ?case by (auto simp: Let_def intro: extends_trans)
qed

lemma view_seq_simps [simp]:
  "find_sle (v\<lparr>v_seq := s\<rparr>) k = find_sle v k" "held (v\<lparr>v_seq := s\<rparr>) = held v"
  by (simp_all add: find_sle_def held_def)

lemma ledger_ok_seq: "ledger_ok e (v\<lparr>v_seq := s\<rparr>) = ledger_ok e v"
  by (simp add: ledger_ok_def sound_view_def wf_view_def solvent_def supply_gap_def chain_ok_def bonds_ok_def
      epoch_ok_def singles_ok_def read_defs)

lemma extends_seq: "extends v (v\<lparr>v_seq := s\<rparr>)"
  by (simp add: extends_def)

lemma ledger_ok_put:
  assumes "ledger_ok e v" "opt_val sle_drops (find_sle v k) = sle_drops s" "sle_drops s = 0"
    and "chain_ok e (put v k s)"
  shows "ledger_ok e (put v k s) \<and> extends v (put v k s)"
  using assms by (intro ledger_ok_conserves) (auto simp: ledger_ok_def intro!: conserves_same singles_ok_put)

lemma updateNegativeUNL_ledger_ok:
  assumes "ledger_ok e v"
  shows "ledger_ok e (updateNegativeUNL v) \<and> extends v (updateNegativeUNL v)"
proof (cases "read_negative_unl v")
  case None
  with assms show ?thesis by (simp add: updateNegativeUNL_def extends_refl)
next
  case (Some nu)
  then have f: "find_sle v KNegativeUNL = Some (SNegativeUNL nu)"
    by (auto simp: read_negative_unl_def split: option.splits sle.splits)
  have c: "chain_ok e v" "sound_view v" "singles_ok v" using assms by (simp_all add: ledger_ok_def)
  have "ledger_ok e (put v KNegativeUNL (SNegativeUNL x)) \<and> extends v (put v KNegativeUNL (SNegativeUNL x))" for x
    using assms f c by (intro ledger_ok_put) (auto intro: chain_ok_put)
  moreover have "ledger_ok e (del v KNegativeUNL) \<and> extends v (del v KNegativeUNL)"
    using assms f c by (intro ledger_ok_conserves) (auto intro: conserves_del chain_ok_del singles_ok_del)
  ultimately show ?thesis using Some assms by (auto simp: updateNegativeUNL_def Let_def extends_refl)
qed

lemma open_built_ok:
  assumes "ledger_ok e v"
  shows "ledger_ok e (open_built v) \<and> extends v (open_built v) \<and> v_seq (open_built v) = v_seq v + 1"
proof -
  have o: "ledger_ok e (v\<lparr>v_seq := v_seq v + 1\<rparr>)" using assms by (simp add: ledger_ok_seq)
  have s: "v_seq (updateNegativeUNL u) = v_seq u" for u by (simp add: updateNegativeUNL_def Let_def split: option.split)
  from updateNegativeUNL_ledger_ok [OF o] o extends_seq [of v "v_seq v + 1"] s show ?thesis
    by (auto simp: open_built_def Let_def intro: extends_trans)
qed

lemma updateSkipList_ledger_ok:
  assumes "ledger_ok e v"
  shows "ledger_ok e (updateSkipList h v) \<and> extends v (updateSkipList h v)"
proof -
  have p: "ledger_ok e (put u k (SSkipList x)) \<and> extends u (put u k (SSkipList x))" if "ledger_ok e u" "single_key k" for u k x
    using that by (intro ledger_ok_put) (auto simp: ledger_ok_def singles_okD intro: chain_ok_put)
  have k: "single_key (keylet_skip i)" for i by (simp add: keylet_skip_def)
  show ?thesis using assms p k unfolding updateSkipList_def Let_def
    by (auto simp: extends_refl) (meson extends_trans single_key.simps(3))+
qed

lemma treasury_bound: "ledger_ok e v \<Longrightarrow> treasury_drops e v < 2 ^ 63"
proof (cases "read_account v (e_TreasuryAccountID e)")
  case (Some r)
  assume ok: "ledger_ok e v"
  have "acc_Balance r \<le> held v"
    using entry_le_held [OF _ read_SomeD(1) [OF Some]] ok by (simp add: ledger_ok_def)
  with ok Some show ?thesis by (simp add: ledger_ok_def supply_gap_def treasury_drops_def qxrp_const)
qed (simp add: treasury_drops_def)

lemma applyRewardEpoch_ledger_ok:
  assumes "ledger_ok e v"
  shows "ledger_ok e (applyRewardEpoch e v seq) \<and> extends v (applyRewardEpoch e v seq)"
proof (cases "applyRewardEpoch e v seq = v")
  case False
  then obtain ep where p: "applyRewardEpoch e v seq = put v KRewardEpoch (SEpoch ep)"
    by (auto simp: applyRewardEpoch_def put_defs Let_def split: if_splits)
  have "epoch_ok (applyRewardEpoch e v seq)"
    using assms treasury_bound [OF assms] by (intro applyRewardEpoch_epoch_ok) (simp_all add: ledger_ok_def chain_ok_def)
  moreover have "bonds_ok e (applyRewardEpoch e v seq)"
    using assms by (simp add: p ledger_ok_def chain_ok_def bonds_ok_put_other)
  ultimately show ?thesis
    using assms unfolding p by (intro ledger_ok_put) (auto simp: ledger_ok_def singles_okD chain_ok_def)
qed (use assms in \<open>simp add: extends_refl\<close>)

lemma applyValidatorScoring_frame:
  assumes "wf_view v"
  shows "v_drops (applyValidatorScoring e si seq v) = v_drops v \<and> (singles_ok v \<longrightarrow> singles_ok (applyValidatorScoring e si seq v))"
proof (rule scoring_keeps [where P = "\<lambda>u. v_drops u = v_drops v \<and> (singles_ok v \<longrightarrow> singles_ok u)", OF assms], simp)
  fix u k b st
  assume "v_drops u = v_drops v \<and> (singles_ok v \<longrightarrow> singles_ok u)" "find_sle u k = Some (SBond b)"
  then show "v_drops (put u k (SBond (scored_bond st seq b))) = v_drops v
      \<and> (singles_ok v \<longrightarrow> singles_ok (put u k (SBond (scored_bond st seq b))))"
    by (auto simp: scored_bond_def Let_def intro!: singles_ok_put)
qed (auto intro!: singles_ok_put)

lemma applyValidatorScoring_ledger_ok:
  assumes "ledger_ok e v"
  shows "ledger_ok e (applyValidatorScoring e si seq v) \<and> extends v (applyValidatorScoring e si seq v)"
proof -
  have v: "sound_view v" "wf_view v" "bonds_ok e v" "epoch_ok v" "singles_ok v"
    using assms by (simp_all add: ledger_ok_def sound_view_def chain_ok_def)
  from applyValidatorScoring_conserves [OF v(1)] applyValidatorScoring_bonds_ok [OF v(2,3)]
    applyValidatorScoring_epoch_ok [OF v(2,4)] applyValidatorScoring_frame [OF v(2), of e si seq] v(5) assms
  show ?thesis by (intro ledger_ok_conserves) (auto simp: chain_ok_def)
qed

lemma tally_one_ledger_ok:
  assumes "ledger_ok e v"
  shows "ledger_ok e (tally_one seq agg k v) \<and> extends v (tally_one seq agg k v)"
proof (cases "read_proposal v k")
  case None
  with assms show ?thesis by (simp add: tally_one_def extends_refl)
next
  case (Some p)
  have g: "ledger_ok e (tally_params seq k p v) \<and> extends v (tally_params seq k p v)"
  proof (cases "pr_ProposalType p = kPROPOSAL_TYPE_BURN_BPS")
    case True
    have "ledger_ok e (put v KGovParams (SGovParams g)) \<and> extends v (put v KGovParams (SGovParams g))" for g
      using assms by (intro ledger_ok_put) (auto simp: ledger_ok_def singles_okD intro: chain_ok_put)
    with True show ?thesis by (simp add: tally_params_def Let_def)
  next
    case False
    with assms show ?thesis by (simp add: tally_params_def Let_def extends_refl)
  qed
  have "ledger_ok e (put u k (SProposal q)) \<and> extends u (put u k (SProposal q))"
    if "ledger_ok e u" "opt_val sle_drops (find_sle u k) = 0" for u q
    using that by (intro ledger_ok_put) (auto simp: ledger_ok_def intro: chain_ok_put)
  moreover have "opt_val sle_drops (find_sle v k) = 0" using read_SomeD(6) [OF Some] by simp
  moreover have "opt_val sle_drops (find_sle (tally_params seq k p v) k) = 0"
    using read_SomeD(6) [OF Some] by (auto simp: tally_params_def Let_def)
  ultimately show ?thesis using assms g
    by (auto simp: tally_one_cases [OF Some] extends_refl intro: extends_trans)
qed

text \<open>The tally is a sequence of such steps.\<close>

interpretation tally: step_system "\<lambda>k v. tally_one seq agg k v" "ledger_ok e" extends
  by unfold_locales (use tally_one_ledger_ok extends_refl extends_trans in blast)+

lemma applyGovernanceTally_ledger_ok:
  "ledger_ok e v \<Longrightarrow> ledger_ok e (applyGovernanceTally e v seq ks) \<and> extends v (applyGovernanceTally e v seq ks)"
  using tally.run_law by (auto simp: applyGovernanceTally_def Let_def extends_refl)

lemma prune_proposals_ledger_ok:
  assumes "ledger_ok e v"
  shows "ledger_ok e (prune_proposals ks v) \<and> extends v (prune_proposals ks v)"
proof (cases "read_epoch v")
  case (Some ep)
  have "ledger_ok e (put v KRewardEpoch (SEpoch (ep\<lparr>ep_Proposals := x\<rparr>))) \<and> extends v (put v KRewardEpoch (SEpoch (ep\<lparr>ep_Proposals := x\<rparr>)))" for x
    using assms Some by (intro ledger_ok_put) (auto simp: ledger_ok_def singles_okD chain_ok_def epoch_ok_def bonds_ok_put_other)
  with assms Some show ?thesis by (simp add: prune_proposals_def Let_def put_defs extends_refl)
qed (use assms in \<open>simp add: prune_proposals_def extends_refl\<close>)

lemma end_of_ledger_ok:
  assumes "ledger_ok e v"
  shows "ledger_ok e (end_of_ledger e si seq v) \<and> extends v (end_of_ledger e si seq v)"
proof -
  from applyRewardEpoch_ledger_ok [OF assms, of seq] have 1: "ledger_ok e (applyRewardEpoch e v seq)" "extends v (applyRewardEpoch e v seq)" by auto
  from applyValidatorScoring_ledger_ok [OF 1(1), of si seq]
  have 2: "ledger_ok e (applyValidatorScoring e si seq (applyRewardEpoch e v seq))"
    "extends v (applyValidatorScoring e si seq (applyRewardEpoch e v seq))" using 1 by (auto intro: extends_trans)
  have "ledger_ok e (prune_proposals ks (applyGovernanceTally e u seq ks)) \<and> extends v (prune_proposals ks (applyGovernanceTally e u seq ks))"
    if "ledger_ok e u" "extends v u" for ks u
    using applyGovernanceTally_ledger_ok [OF that(1), of seq ks] prune_proposals_ledger_ok [of e "applyGovernanceTally e u seq ks" ks] that
    by (blast intro: extends_trans)
  with 2 show ?thesis by (simp add: end_of_ledger_def Let_def)
qed

subsection \<open>The chain\<close>

theorem buildLedger_ok:
  assumes "ledger_ok e parent" "\<forall>(k, t) \<in> set txns. wf_tx t"
  shows "ledger_ok e (fst (buildLedger e ap si h txns parent)) \<and> extends parent (fst (buildLedger e ap si h txns parent))"
proof -
  let ?b = "\<lparr>b_view = open_built parent, b_txs = []\<rparr>"
  let ?v = "b_view (p_built (fst (applyTransactions e ap [] txns [] ?b)))"
  from open_built_ok [OF assms(1)] have o: "ledger_ok e (b_view ?b)" "extends parent (b_view ?b)" by auto
  from apply_passes_ledger_ok [OF o(1) assms(2)] o(2) have v: "ledger_ok e ?v" "extends parent ?v"
    by (auto simp: applyTransactions_def intro: extends_trans)
  from end_of_ledger_ok [OF v(1)] v(2)
  have w: "ledger_ok e (end_of_ledger e si s ?v)" "extends parent (end_of_ledger e si s ?v)" for s
    by (auto intro: extends_trans)
  from updateSkipList_ledger_ok [OF w(1)] w(2) show ?thesis
    by (auto simp: buildLedger_def Let_def intro: extends_trans)
qed

text \<open>
  A chain of ledgers, each built from the one before with whatever parameters, validations and
  transactions; amounts outside the signed 64-bit range do not survive parsing.
\<close>

type_synonym ledger_input = "apply_params \<times> scoring_inputs \<times> u256 \<times> canonical"

definition ledger_step :: "env \<Rightarrow> ledger_input \<Rightarrow> view \<Rightarrow> view" where
  "ledger_step e c v = (case c of (ap, si, h, txns) \<Rightarrow> fst (buildLedger e ap si h (filter (\<lambda>(k, t). wf_tx t) txns) v))"

interpretation chain: step_system "ledger_step e" "ledger_ok e" extends
proof unfold_locales
  fix s c assume "ledger_ok e s"
  then show "ledger_ok e (ledger_step e c s) \<and> extends s (ledger_step e c s)"
    by (cases c) (auto simp: ledger_step_def intro!: buildLedger_ok)
qed (auto simp: extends_refl intro: extends_trans)

subsection \<open>The epoch boundary and the proposals\<close>

text \<open>
  A new epoch entry has no list of proposals, and the tally that follows reads the list from it. So
  at the boundary no proposal is decided, and none is in the list afterwards.
\<close>

lemma applyRewardEpoch_proposals: "read_proposal (applyRewardEpoch e v seq) k = read_proposal v k \<or> k = KRewardEpoch"
  by (auto simp: applyRewardEpoch_def Let_def put_defs read_proposal_def)

lemma applyValidatorScoring_proposals:
  assumes "wf_view v"
  shows "read_proposal (applyValidatorScoring e si seq v) k = read_proposal v k \<or> k = KRewardEpoch"
proof (rule scoring_keeps [where P = "\<lambda>u. read_proposal u k = read_proposal v k \<or> k = KRewardEpoch", OF assms], simp)
  fix u k' b st
  assume "read_proposal u k = read_proposal v k \<or> k = KRewardEpoch" "find_sle u k' = Some (SBond b)"
  then show "read_proposal (put u k' (SBond (scored_bond st seq b))) k = read_proposal v k \<or> k = KRewardEpoch"
    by (auto simp: read_proposal_def)
qed (auto simp: read_proposal_def)

lemma applyValidatorScoring_list:
  assumes "wf_view v" "map_option ep_Proposals (read_epoch v) = x"
  shows "map_option ep_Proposals (read_epoch (applyValidatorScoring e si seq v)) = x"
proof (rule scoring_keeps [where P = "\<lambda>u. map_option ep_Proposals (read_epoch u) = x", OF assms])
  fix u k b st
  assume "map_option ep_Proposals (read_epoch u) = x" "find_sle u k = Some (SBond b)"
  then show "map_option ep_Proposals (read_epoch (put u k (SBond (scored_bond st seq b)))) = x"
    by (auto simp: read_epoch_def)
qed auto

lemma boundary_drops_proposals:
  assumes "wf_view v" "e_featureProofOfParticipation e" "seq \<noteq> 0" "seq mod kQXRP_LEDGERS_PER_EPOCH = 0"
    and "0 < treasury_drops e v" "k \<noteq> KRewardEpoch"
  shows "read_proposal (end_of_ledger e si seq v) k = read_proposal v k
    \<and> map_option ep_Proposals (read_epoch (end_of_ledger e si seq v)) = Some None"
proof -
  let ?v1 = "applyRewardEpoch e v seq" and ?v2 = "applyValidatorScoring e si seq (applyRewardEpoch e v seq)"
  have w: "wf_view ?v1" using assms(1) by (simp add: applyRewardEpoch_def Let_def put_defs)
  have "map_option ep_Proposals (read_epoch ?v1) = Some None"
    by (simp add: applyRewardEpoch_boundary [OF assms(2-5)] newEpoch_fields)
  then have "map_option ep_Proposals (read_epoch ?v2) = Some None" by (rule applyValidatorScoring_list [OF w])
  then obtain ep where ep: "read_epoch ?v2 = Some ep" "ep_Proposals ep = None" by auto
  then have "end_of_ledger e si seq v = ?v2"
    by (simp add: end_of_ledger_def Let_def applyGovernanceTally_def prune_proposals_def)
  with ep assms(6) applyRewardEpoch_proposals [of e v seq k] applyValidatorScoring_proposals [OF w, of e si seq k]
  show ?thesis by auto
qed

text \<open>The voting window is one epoch long, so a boundary falls in every window.\<close>

lemma window_has_boundary:
  assumes "unat s + 172800 < 2 ^ 32"
  shows "\<exists>seq. s < seq \<and> seq \<le> s + kGOVERNANCE_VOTING_LEDGERS \<and> seq mod kQXRP_LEDGERS_PER_EPOCH = 0 \<and> seq \<noteq> 0"
proof -
  define n where "n = 172800 * (unat s div 172800 + 1)"
  have "unat s = 172800 * (unat s div 172800) + unat s mod 172800" by simp
  moreover have "unat s mod 172800 < 172800" by simp
  ultimately have n: "unat s < n" "n \<le> unat s + 172800" by (simp_all add: n_def)
  then have u: "unat (of_nat n :: u32) = n" using assms by (simp add: unat_of_nat)
  have "unat (s + 172800) = unat s + 172800" using assms by (simp add: unat_word_ariths)
  with n u have "s < of_nat n" "of_nat n \<le> s + 172800" by (simp_all add: word_less_nat_alt word_le_nat_alt)
  moreover have "of_nat n mod (172800 :: u32) = 0"
    using u by (simp add: word_unat_eq_iff unat_mod) (simp add: n_def)
  moreover have "of_nat n \<noteq> (0 :: u32)" using u n by (metis not_less_zero unat_0)
  ultimately show ?thesis by (intro exI [of _ "of_nat n"]) (simp add: qxrp_const)
qed

subsection \<open>Scores and claims\<close>

text \<open>
  Right after a scoring run the claims of all bonded validators together fit the validator basket,
  as long as the sum of the scores is not cut off at 32 bits.
\<close>

lemma scored_claims_fit:
  assumes "wf_view v" "e_featureProofOfParticipation e" "seq \<noteq> 0" "seq mod kFLAG_LEDGER_INTERVAL = 0"
    "si_skipHashes si = Some anc" "256 \<le> length anc" "read_epoch v = Some ep" "epoch_ok v" "scores_bounded v"
  defines "v' \<equiv> applyValidatorScoring e si seq v"
  assumes "finite S" "\<And>i. i \<in> S \<Longrightarrow> \<exists>b. read_bond v' i = Some b \<and> is_target (SBond b)"
    and "0 < bonded_scores v'" "bonded_scores v' < 2 ^ 32 - 1"
  shows "\<exists>ep'. read_epoch v' = Some ep' \<and>
    (\<Sum>i\<in>S. muldiv64 (validatorPoolDrops ep') (getU (bond_CompositeScore (the (read_bond v' i))))
       (getU (ep_AggregateCompositeScore ep'))) \<le> validatorPoolDrops ep'"
proof -
  from scoring_aggregate [OF assms(1-7)] obtain ep' where ep': "read_epoch v' = Some ep'"
    "uint (getU (ep_AggregateCompositeScore ep')) = min (2 ^ 32 - 1) (bonded_scores v')"
    "ep' = ep\<lparr>ep_AggregateCompositeScore := ep_AggregateCompositeScore ep'\<rparr>" unfolding v'_def by blast
  have agg: "uint (getU (ep_AggregateCompositeScore ep')) = bonded_scores v'" using ep'(2) assms(14) by simp
  have w': "wf_view v'" unfolding v'_def by (rule scoring_keeps [where P = wf_view, OF assms(1) assms(1)]) auto
  have "ep_EmissionRate ep' = ep_EmissionRate ep" using arg_cong [OF ep'(3), of ep_EmissionRate] by simp
  then have r: "0 \<le> ep_EmissionRate ep'" "ep_EmissionRate ep' < 2 ^ 63"
    using assms(7,8) by (simp_all add: epoch_ok_def)
  have sb: "scores_bounded v'" unfolding v'_def using assms(1,9) by (rule applyValidatorScoring_scores_bounded)
  have "(\<Sum>i\<in>S. muldiv64 (validatorPoolDrops ep') (getU (bond_CompositeScore (the (read_bond v' i))))
       (getU (ep_AggregateCompositeScore ep'))) \<le> validatorPoolDrops ep'"
  proof (rule validator_shares_fit [OF r assms(11)])
    show "0 < getU (ep_AggregateCompositeScore ep')" using agg assms(13) by (simp add: word_less_def)
    show "(\<Sum>i\<in>S. uint (getU (bond_CompositeScore (the (read_bond v' i))))) \<le> uint (getU (ep_AggregateCompositeScore ep'))"
      unfolding agg using w' assms(11,12) by (rule bonded_subset)
    fix i assume "i \<in> S"
    with assms(12) obtain b where b: "read_bond v' i = Some b" by blast
    from read_SomeD(2) [OF b] sb have "unat (getU (bond_CompositeScore b)) \<le> 9500"
      by (auto simp: scores_bounded_def score_bounded_def)
    then have "uint (getU (bond_CompositeScore b)) \<le> 9500" using uint_int_unat [of "getU (bond_CompositeScore b)"] by linarith
    with b show "uint (getU (bond_CompositeScore (the (read_bond v' i)))) \<le> 10000" by simp
  qed
  with ep'(1) show ?thesis by blast
qed

end
