(* ===== verification/Samples.thy ===== *)
theory Samples
  imports BondLifecycle BuildLedger
begin

section \<open>Sample ledgers\<close>

text \<open>
  Concrete environments, transactions and ledgers at which the properties of the development are
  exercised.
\<close>

definition s_env :: env where
  "s_env = \<lparr>e_key_hash = (\<lambda>k. case k of KBond a \<Rightarrow> ucast a | KAccountName n \<Rightarrow> 2 ^ 200 | _ \<Rightarrow> 2 ^ 201),
     e_calcValidatorBondID = (\<lambda>ck. word_of_nat (length ck)),
     e_calcAccountID = (\<lambda>pk. 7),
     e_parseValidation = (\<lambda>b. if b = [1] then Some \<lparr>val_SignerPublic = [0xFB, 1], val_LedgerSequence = 50, val_LedgerHash = 1\<rparr>
        else if b = [2] then Some \<lparr>val_SignerPublic = [0xFB, 1], val_LedgerSequence = 50, val_LedgerHash = 2\<rparr> else None),
     e_ammLPTCurrency = (\<lambda>a b. 5), e_TreasuryAccountID = 99,
     e_featureProofOfParticipation = True, e_featureAccountNames = True, e_fixDirectoryLimit = True\<rparr>"

definition s_account :: "account \<Rightarrow> drops \<Rightarrow> account_root" where
  "s_account a b = \<lparr>acc_Account = a, acc_Balance = b, acc_Sequence = 4, acc_OwnerCount = 0, acc_Flags = 0,
     acc_TicketCount = None, acc_AccountTxnID = None, acc_AccountName = None, acc_RegularKey = None\<rparr>"

definition s_bond :: "u32 \<Rightarrow> drops \<Rightarrow> validator_bond" where
  "s_bond status amount = \<lparr>bond_Account = 7, bond_PublicKey = [0xFB], bond_ConsensusKey = [0xFB, 1],
     bond_BondedAmount = amount, bond_BondStatus = status, bond_UptimeBps = None, bond_VoteAccuracyBps = None,
     bond_LatencyScoreBps = None, bond_ConsistencyBps = None, bond_SlashMultiplier = 10000,
     bond_CompositeScore = Some 9000, bond_SlashCount = None, bond_LastClaimedEpoch = None,
     bond_UnbondingStartLedger = None, bond_OwnerNode = 0, bond_PreviousTxnID = 0, bond_PreviousTxnLgrSeq = 0\<rparr>"

definition s_epoch :: reward_epoch where
  "s_epoch = \<lparr>ep_EpochNumber = 9, ep_EpochStartLedger = 1555200, ep_EpochPoolBalance = 1000000,
     ep_EmissionRate = 1000000, ep_CurrentBurnBps = 6500, ep_FeeVolumeEMA = None,
     ep_AggregateCompositeScore = Some 18000, ep_LPAllocationBps = Some 500, ep_AggregateLPShares = Some 40,
     ep_AmmLPAllocationBps = None, ep_AggregateAmmTvlDrops = None, ep_Proposals = None,
     ep_PreviousTxnID = 0, ep_PreviousTxnLgrSeq = 0\<rparr>"

definition s_owner_dir :: "key list \<Rightarrow> dir_node" where
  "s_owner_dir ks = \<lparr>dn_Owner = Some 7, dn_RootIndex = KOwnerDir 7, dn_Indexes = ks, dn_IndexNext = None, dn_IndexPrevious = None\<rparr>"

definition s_tx :: "tx_body \<Rightarrow> tx" where
  "s_tx b = \<lparr>tx_Account = 7, tx_Sequence = 4, tx_TicketSequence = None, tx_Fee = 10, tx_ID = 77,
     tx_AccountTxnID = None, tx_LastLedgerSequence = None, tx_Flags = 0, tx_NetworkID = None,
     tx_SigningPubKey = [0xFB, 1], tx_TxnSignature = Some [1], tx_body = b\<rparr>"

definition s_view :: "(key \<times> sle) list \<Rightarrow> view" where
  "s_view extra = \<lparr>v_seq = 1555300, v_drops = 5010000000 + val_sum sle_drops extra,
     v_sles = [(KAccount 7, SAccount (s_account 7 5000000000)), (KAccount 99, SAccount (s_account 99 10000000)),
               (KRewardEpoch, SEpoch s_epoch)] @ extra\<rparr>"

lemmas samples = s_env_def s_account_def s_bond_def s_epoch_def s_owner_dir_def s_tx_def s_view_def

definition s_ap :: apply_params where
  "s_ap = \<lparr>ap_open = False, ap_retry = False, ap_failHard = False, ap_dryRun = False, ap_networkID = 0,
     ap_minimumFee = 10, ap_sigGood = (\<lambda>t. True), ap_txExists = (\<lambda>i. False)\<rparr>"

definition s_si :: scoring_inputs where
  "s_si = \<lparr>si_calcNodeID = (\<lambda>k. word_of_nat (length k)), si_getFullForSequence = (\<lambda>n. []),
     si_getFullForLedger = (\<lambda>h n. []), si_skipHashes = Some (replicate 256 0)\<rparr>"

text \<open>The ledger with one bond of account 7, and the one where it has just been unbonded.\<close>

definition s_bonded :: view where
  "s_bonded = s_view [(KOwnerDir 7, SDir (s_owner_dir [KBond 2])), (KBond 2, SBond (s_bond kBOND_STATUS_BONDED 2000000000))]"

text \<open>What the properties assume of a ledger can be read off the list of its entries.\<close>

definition entry_ok :: "env \<Rightarrow> key \<times> sle \<Rightarrow> bool" where
  "entry_ok e p = (case p of (k, s) \<Rightarrow> 0 \<le> sle_drops s \<and> (single_key k \<longrightarrow> sle_drops s = 0)
     \<and> (case s of SBond b \<Rightarrow> (case k of KBond i \<Rightarrow> bond_ok e i b | _ \<Rightarrow> True)
          | SEpoch ep \<Rightarrow> 0 \<le> ep_EpochPoolBalance ep \<and> ep_EpochPoolBalance ep \<le> ep_EmissionRate ep \<and> ep_EmissionRate ep < 2 ^ 63
          | _ \<Rightarrow> True))"

lemma entries_ok:
  assumes "keys_distinct (v_sles v)" "list_all (entry_ok e) (v_sles v)"
  shows "sound_view v" "chain_ok e v" "singles_ok v"
proof -
  have ok: "entry_ok e (k, s)" if "find_sle v k = Some s" for k s
    using assms(2) map_of_SomeD [of "v_sles v" k s] that by (auto simp: find_sle_def list_all_iff)
  have d: "0 \<le> sle_drops s \<and> (single_key k \<longrightarrow> sle_drops s = 0)" if "find_sle v k = Some s" for k s
    using ok [OF that] by (simp add: entry_ok_def)
  then show "sound_view v" using assms(1) by (auto simp: sound_view_def wf_view_def solvent_def)
  show "singles_ok v" unfolding singles_ok_def
  proof (intro allI impI)
    fix k assume "single_key k"
    with d show "opt_val sle_drops (find_sle v k) = 0" by (cases "find_sle v k") auto
  qed
  show "chain_ok e v"
    unfolding chain_ok_def bonds_ok_def epoch_ok_def
    using ok by (auto dest!: read_SomeD ok simp: entry_ok_def split: option.splits)
qed

lemma entries_ledger_ok:
  assumes "keys_distinct (v_sles v)" "list_all (entry_ok e) (v_sles v)" "val_sum sle_drops (v_sles v) = v_drops v"
    "v_drops v \<le> kINITIAL_XRP"
  shows "ledger_ok e v"
  using entries_ok [OF assms(1,2)] assms(3,4) by (simp add: ledger_ok_def supply_gap_def held_def)

lemma s_bonded_ok: "ledger_ok s_env s_bonded"
  by (rule entries_ledger_ok) (simp_all add: s_bonded_def samples entry_ok_def keys_distinct_def bond_ok_def qxrp_const)

subsection \<open>Sample transactions\<close>

text \<open>The stages of a transaction that goes through, and of one that only pays its fee.\<close>

lemma apply_tx_success:
  assumes "invokePreflight e ap t = tesSUCCESS" "invokePreclaim e ap t v = tesSUCCESS" "transactor_apply e t v = Inr (tesSUCCESS, w)"
    and "length (visit_keys v w) \<le> kOVERSIZE_META_DATA_CAP" "invariants_hold t (tx_Fee t) v w" "0 \<le> tx_Fee t" "\<not> ap_dryRun ap"
  shows "apply_tx e ap t v = (tesSUCCESS, True, if \<not> ap_open ap \<and> tx_Fee t \<noteq> 0 then destroyXRP e w (tx_Fee t) else w)"
  using assms
  by (simp add: apply_tx_def transactor_operator_def claim_stage_def invariant_stage_def commit_stage_def checkInvariants_def
      isTecClaim_def isTecClaimHardFail_def)

lemma apply_tx_claim:
  assumes "invokePreflight e ap t = tesSUCCESS" "invokePreclaim e ap t v = r" "isTecClaim r"
    and "transactor_reset t (tx_Fee t) v = Inr (tesSUCCESS, fee, w)" "invariants_hold t fee v w" "0 \<le> fee"
    and "\<not> ap_dryRun ap" "\<not> ap_retry ap" "\<not> ap_failHard ap" "r \<noteq> tecINVARIANT_FAILED"
  shows "apply_tx e ap t v = (r, True, if \<not> ap_open ap \<and> fee \<noteq> 0 then destroyXRP e w fee else w)"
  using assms
  by (auto simp: apply_tx_def transactor_operator_def claim_stage_def invariant_stage_def commit_stage_def checkInvariants_def
      isTecClaim_not_success isTecClaimHardFail_def visit_keys_def Let_def)

text \<open>What has to be unfolded to evaluate the checks, the application and the invariants.\<close>

lemmas check_defs = invokePreflight_def invokePreclaim_def preflight0_def preflight1_def preflight2_def
  preflightCheckSigningKey_def checkSeqProxy_def checkPriorTxAndLastLedger_def checkSign_def checkFee_def
  checkSingleSign_def tx_preflight_def tx_preclaim_def tx_feature_def getSeqProxy_def isFalconSigningKey_def
  signingPubKeyType_def publicKeyType_def isValidNodeKey_def pqPublicKeyType_def falcon_const Let_def qxrp_const s_ap_def

lemmas run_defs = transactor_apply_def transactor_reset_def charge_def consumeSeqProxy_def payFee_def tx_doApply_def
  getSeqProxy_def Let_def qxrp_const read_defs find_sle_def put_defs put_def

lemmas invariant_defs = invariants_hold_def visit_def visit_keys_def TransactionFeeCheck_finalize_def
  AccountRootsNotDeleted_def LedgerEntryTypesMatch_def XRPBalanceChecks_def XRPNotCreated_finalize_def
  ValidNewAccountRoot_def QXRPDropConservation_finalize_def XRPNotCreated_visitEntry_def
  QXRPDropConservation_visitEntry_def same_type_def bad_balance_def is_account_def is_slash_def Let_def find_sle_def qxrp_const

text \<open>The bond after its owner asked for it back, and the ledger after a transaction of account 7 that failed.\<close>

definition s_unbonding :: validator_bond where
  "s_unbonding = (s_bond kBOND_STATUS_UNBONDING 2000000000)\<lparr>bond_UnbondingStartLedger := Some 1555300,
     bond_PreviousTxnID := 77, bond_PreviousTxnLgrSeq := 1555300\<rparr>"

definition s_charged :: "(key \<times> sle) list \<Rightarrow> view" where
  "s_charged extra = \<lparr>v_seq = 1555300, v_drops = 7010000000,
     v_sles = [(KAccount 7, SAccount ((s_account 7 4999999990)\<lparr>acc_Sequence := 5\<rparr>)), (KAccount 99, SAccount (s_account 99 10000000)),
               (KRewardEpoch, SEpoch s_epoch), (KOwnerDir 7, SDir (s_owner_dir [KBond 2]))] @ extra\<rparr>"

lemma sample_unbond_stages:
  "invokePreflight s_env s_ap (s_tx (ValidatorUnbond [0xFB, 1])) = tesSUCCESS"
  "invokePreclaim s_env s_ap (s_tx (ValidatorUnbond [0xFB, 1])) s_bonded = tesSUCCESS"
  "transactor_apply s_env (s_tx (ValidatorUnbond [0xFB, 1])) s_bonded = Inr (tesSUCCESS, s_charged [(KBond 2, SBond s_unbonding)])"
  by (simp_all add: check_defs samples s_bonded_def ValidatorUnbond_preflight_def ValidatorUnbond_preclaim_def read_defs find_sle_def)
    (simp add: run_defs samples s_charged_def s_unbonding_def ValidatorUnbond_doApply_def)

lemma sample_unbond:
  "apply_tx s_env s_ap (s_tx (ValidatorUnbond [0xFB, 1])) s_bonded
   = (tesSUCCESS, True, destroyXRP s_env (s_charged [(KBond 2, SBond s_unbonding)]) 10)"
proof -
  let ?t = "s_tx (ValidatorUnbond [0xFB, 1])" and ?w = "s_charged [(KBond 2, SBond s_unbonding)]"
  note sample_unbond_stages
  moreover have "invariants_hold ?t 10 s_bonded ?w"
    by (simp add: invariant_defs samples s_bonded_def s_charged_def s_unbonding_def)
  moreover have "length (visit_keys s_bonded ?w) \<le> kOVERSIZE_META_DATA_CAP"
    by (simp add: visit_keys_def find_sle_def kOVERSIZE_META_DATA_CAP_def samples s_bonded_def s_charged_def s_unbonding_def)
  ultimately have "apply_tx s_env s_ap ?t s_bonded
      = (tesSUCCESS, True, if \<not> ap_open s_ap \<and> tx_Fee ?t \<noteq> 0 then destroyXRP s_env ?w (tx_Fee ?t) else ?w)"
    by (intro apply_tx_success) (simp_all add: s_ap_def s_tx_def)
  then show ?thesis by (simp add: s_ap_def s_tx_def)
qed

lemma sample_release:
  "apply_tx s_env s_ap (s_tx (ReleaseBond 2)) s_bonded
   = (tecNO_PERMISSION, True, destroyXRP s_env (s_charged [(KBond 2, SBond (s_bond kBOND_STATUS_BONDED 2000000000))]) 10)"
proof -
  let ?t = "s_tx (ReleaseBond 2)" and ?w = "s_charged [(KBond 2, SBond (s_bond kBOND_STATUS_BONDED 2000000000))]"
  have "invokePreflight s_env s_ap ?t = tesSUCCESS"
    by (simp add: check_defs samples ReleaseBond_preflight_def)
  moreover have "invokePreclaim s_env s_ap ?t s_bonded = tecNO_PERMISSION"
    by (simp add: check_defs samples s_bonded_def ReleaseBond_preclaim_def read_defs find_sle_def)
  moreover have "transactor_reset ?t (tx_Fee ?t) s_bonded = Inr (tesSUCCESS, 10, ?w)"
    by (simp add: run_defs samples s_bonded_def s_charged_def)
  moreover have "invariants_hold ?t 10 s_bonded ?w"
    by (simp add: invariant_defs samples s_bonded_def s_charged_def)
  ultimately have "apply_tx s_env s_ap ?t s_bonded
      = (tecNO_PERMISSION, True, if \<not> ap_open s_ap \<and> (10 :: int) \<noteq> 0 then destroyXRP s_env ?w 10 else ?w)"
    by (intro apply_tx_claim) (simp_all add: s_ap_def isTecClaim_def)
  then show ?thesis by (simp add: s_ap_def)
qed

text \<open>A transaction whose turn has not come: it is tried in every pass and left over.\<close>

definition s_later :: tx where
  "s_later = (s_tx (ReleaseBond 2))\<lparr>tx_Sequence := 6\<rparr>"

definition s_start :: building where
  "s_start = \<lparr>b_view = s_bonded, b_txs = []\<rparr>"

lemma sample_retry: "applyTransaction s_env s_ap retry s_later s_start = (Retry, s_start)"
proof -
  have "invokePreflight s_env (closed_params s_ap retry []) s_later = tesSUCCESS"
    by (simp add: check_defs samples s_later_def closed_params_def ReleaseBond_preflight_def)
  moreover have "invokePreclaim s_env (closed_params s_ap retry []) s_later s_bonded = terPRE_SEQ"
    by (simp add: check_defs samples s_later_def closed_params_def s_bonded_def read_defs find_sle_def)
  ultimately show ?thesis
    by (simp add: applyTransaction_def s_start_def apply_tx_def isTecClaimHardFail_def isTecClaim_def
        isTefFailure_def isTemMalformed_def isTelLocal_def)
qed

lemma sample_passes:
  "applyTransactions s_env s_ap [] [(keyOf 0 s_later, s_later)] [] s_start
   = (\<lparr>p_txns = [(keyOf 0 s_later, s_later)], p_failed = [], p_changes = 0, p_built = s_start\<rparr>, False)"
  by (simp add: applyTransactions_def LEDGER_TOTAL_PASSES_def upt_rec sample_retry)

text \<open>A scoring run over a window without validations: the score decays but does not vanish.\<close>

lemma sample_scored:
  defines "v' \<equiv> applyValidatorScoring s_env s_si 1555200 s_bonded"
  obtains b where "read_bond v' 2 = Some b" "is_target (SBond b)" "0 < bonded_scores v'" "bonded_scores v' < 10000"
proof -
  have ts: "scoring_targets s_si s_bonded = [\<lparr>tg_key = KBond 2, tg_bond = s_bond kBOND_STATUS_BONDED 2000000000, tg_nodeID = 2\<rparr>]"
    by (simp add: scoring_targets_def s_bonded_def samples s_si_def isValidNodeKey_def pqPublicKeyType_def falcon_const)
  have s: "e_featureProofOfParticipation s_env" "si_skipHashes s_si = Some (replicate 256 0)"
    by (simp_all add: samples s_si_def)
  obtain st a where v': "v' = record_aggregate a (put s_bonded (KBond 2) (SBond (scored_bond st 1555200 (s_bond kBOND_STATUS_BONDED 2000000000))))"
    using scoring_runs [OF s(1) _ _ s(2), of 1555200 s_bonded]
    by (simp add: ts scoreBond_def Let_def kFLAG_LEDGER_INTERVAL_def v'_def)
  let ?b = "scored_bond st 1555200 (s_bond kBOND_STATUS_BONDED 2000000000)"
  have t: "is_target (SBond ?b)" by (simp add: s_bond_def isValidNodeKey_def pqPublicKeyType_def falcon_const)
  have "bonded_scores v' = uint (getU (bond_CompositeScore ?b))"
    unfolding v' by (subst bonded_scores_record)
      (use t in \<open>simp_all add: wf_view_def keys_distinct_def bonded_scores_def put_def s_bonded_def s_view_def sle_score_def\<close>)
  moreover have "unat (rawSlashed st 10000) \<le> 9500" by (rule rawSlashed_value(2)) (simp add: qxrp_const)
  then have "0 < (unat (rawSlashed st 10000) * 3500 + 58500000) div 10000"
    "(unat (rawSlashed st 10000) * 3500 + 58500000) div 10000 < 10000" by linarith+
  then have "0 < unat (getU (bond_CompositeScore ?b)) \<and> unat (getU (bond_CompositeScore ?b)) < 10000"
    by (simp add: scored_bond_def s_bond_def emaComposite_value)
  ultimately have "0 < bonded_scores v'" "bonded_scores v' < 10000"
    using uint_int_unat [of "getU (bond_CompositeScore ?b)"] by linarith+
  moreover have "read_bond v' 2 = Some ?b"
    by (simp add: v' record_aggregate_def put_defs split: option.split)
  ultimately show thesis using t that by blast
qed

text \<open>A bond whose lock has run out, and a reward claim that pays.\<close>

definition s_released :: view where
  "s_released = s_view [(KOwnerDir 7, SDir (s_owner_dir [KBond 2])),
     (KBond 2, SBond ((s_bond kBOND_STATUS_UNBONDING 2000000000)\<lparr>bond_UnbondingStartLedger := Some 1000000\<rparr>))]"

lemma sample_released:
  "ReleaseBond_doApply 2 s_released = Inr (tesSUCCESS, \<lparr>v_seq = 1555300, v_drops = 7010000000,
     v_sles = [(KAccount 7, SAccount (s_account 7 7000000000)), (KAccount 99, SAccount (s_account 99 10000000)),
               (KRewardEpoch, SEpoch s_epoch)]\<rparr>)"
  by (simp add: ReleaseBond_doApply_def ownerDirRemove_def dirRemove_def dirRemoveRoot_def s_released_def samples read_defs
      find_sle_def put_defs put_def put_dir_def del_def keylet_page_def Let_def)

lemma sample_claim:
  obtains v' where "ClaimReward_doApply s_env (s_tx (ClaimReward [0xFB, 1])) [0xFB, 1] s_bonded = Inr (tesSUCCESS, v')" "v' \<noteq> s_bonded"
  by (simp add: ClaimReward_doApply_def claim_payment_def validatorPoolDrops_def muldiv64_def s_bonded_def samples read_defs
      find_sle_def put_defs put_def qxrp_const Let_def c_div_def c_mod_def s64_def)

text \<open>An open proposal that the bonded validator may vote on.\<close>

definition s_proposal :: governance_proposal where
  "s_proposal = new_proposal (s_tx (GovernanceProposal [0xFB, 1] 1 6000)) 1 6000 0 1555290"

definition s_voting :: view where
  "s_voting = s_view [(KOwnerDir 7, SDir (s_owner_dir [KBond 2])), (KBond 2, SBond (s_bond kBOND_STATUS_BONDED 2000000000)),
     (KProposal 7 3, SProposal s_proposal)]"

text \<open>A name that may be released.\<close>

definition s_name :: account_name where
  "s_name = \<lparr>nm_Name = [0x61, 0x62, 0x63], nm_Account = 7, nm_BondedAmount = 100000000, nm_NameStatus = kNAME_STATUS_RELEASING,
     nm_UnbondingStartLedger = Some 1000000, nm_OwnerNode = 0, nm_PreviousTxnID = 0, nm_PreviousTxnLgrSeq = 0\<rparr>"

definition s_named :: view where
  "s_named = \<lparr>v_seq = 1555300, v_drops = 5110000000,
     v_sles = [(KAccount 7, SAccount ((s_account 7 5000000000)\<lparr>acc_AccountName := Some (KAccountName [0x61, 0x62, 0x63])\<rparr>)),
       (KOwnerDir 7, SDir (s_owner_dir [KAccountName [0x61, 0x62, 0x63]])), (KAccountName [0x61, 0x62, 0x63], SName s_name)]\<rparr>"

lemma s_named_ok: "names_ok s_named"
  by (auto simp: names_ok_def name_ok_def s_named_def s_name_def samples read_defs find_sle_def qxrp_const split: if_splits)

lemma sample_name_released:
  "NameRelease_doApply [0x61, 0x62, 0x63] s_named = Inr (tesSUCCESS, \<lparr>v_seq = 1555300, v_drops = 5110000000,
     v_sles = [(KAccount 7, SAccount (s_account 7 5100000000))]\<rparr>)"
  by (simp add: NameRelease_doApply_def ownerDirRemove_def dirRemove_def dirRemoveRoot_def s_named_def s_name_def samples read_defs
      find_sle_def put_defs put_def put_dir_def del_def keylet_page_def Let_def)

text \<open>A negative UNL with one validator on the way in and one on the way out.\<close>

definition s_listed :: view where
  "s_listed = \<lparr>v_seq = 512, v_drops = 0, v_sles = [(KNegativeUNL, SNegativeUNL \<lparr>nu_DisabledValidators = Some [([0xFB, 1], 256)],
     nu_ValidatorToDisable = Some [0xFB, 2], nu_ValidatorToReEnable = Some [0xFB, 1]\<rparr>)]\<rparr>"

lemma s_listed_current: "current_nunl s_listed = \<lparr>nu_DisabledValidators = Some [([0xFB, 1], 256)],
     nu_ValidatorToDisable = Some [0xFB, 2], nu_ValidatorToReEnable = Some [0xFB, 1]\<rparr>"
  by (simp add: current_nunl_def s_listed_def read_negative_unl_def find_sle_def)

lemma s_listed_ok: "nunl_view_ok s_listed"
  by (simp add: nunl_view_ok_def nunl_ok_def nunl_disabled_def s_listed_def read_negative_unl_def find_sle_def publicKeyType_def
      pqPublicKeyType_def falcon_const)

end
