(* ===== verification/StateTables.thy ===== *)
theory StateTables
  imports OrderedMap
begin

section \<open>Layers of ledger state\<close>

text \<open>
  A transaction does not write to a ledger. It works on an \<open>ApplyStateTable\<close>
  (\<^verbatim>\<open>src/libxrpl/ledger/ApplyStateTable.cpp\<close>) over an \<open>OpenView\<close>, whose changes are a \<open>RawStateTable\<close>
  (\<^verbatim>\<open>RawStateTable.cpp\<close>) over the closed \<open>Ledger\<close>. Each layer records what to do with an entry; applying a
  table replays its records on the layer below. This theory models the three layers for any key and
  entry type, with the entries of an \<open>ApplyStateTable\<close> as objects in a store, since the code hands out
  pointers to them, and shows that the layers together behave as one map.
\<close>

subsection \<open>Keylets and views\<close>

record ('k, 'v) keylet =
  kl_key :: 'k
  kl_check :: "'v \<Rightarrow> bool"

text \<open>What a read-only view offers to the layer above it.\<close>

record ('k, 'v) rview =
  rv_exists :: "('k, 'v) keylet \<Rightarrow> bool"
  rv_read :: "('k, 'v) keylet \<Rightarrow> 'v option"
  rv_succ :: "'k \<Rightarrow> 'k option \<Rightarrow> 'k option"

definition checked :: "('k, 'v) keylet \<Rightarrow> 'v option \<Rightarrow> 'v option" where
  "checked k x = (case x of None \<Rightarrow> None | Some sle \<Rightarrow> if kl_check k sle then Some sle else None)"

subsection \<open>The closed ledger\<close>

record ('k, 'v) closed =
  cl_stateMap :: "('k \<times> 'v) list"
  cl_drops :: int

definition ledger_exists :: "('k, 'v) closed \<Rightarrow> ('k, 'v) keylet \<Rightarrow> bool" where
  "ledger_exists l k \<longleftrightarrow> map_of (cl_stateMap l) (kl_key k) \<noteq> None"

definition ledger_read :: "('k, 'v) closed \<Rightarrow> ('k, 'v) keylet \<Rightarrow> 'v option" where
  "ledger_read l k = checked k (map_of (cl_stateMap l) (kl_key k))"

definition ledger_succ :: "('k::linorder, 'v) closed \<Rightarrow> 'k \<Rightarrow> 'k option \<Rightarrow> 'k option" where
  "ledger_succ l key lst =
     (case upper_bound key (cl_stateMap l) of
        [] \<Rightarrow> None
      | item # _ \<Rightarrow> (case lst of None \<Rightarrow> Some (fst item)
                     | Some l' \<Rightarrow> if fst item \<ge> l' then None else Some (fst item)))"

definition ledger_rawErase :: "'k \<Rightarrow> ('k::linorder, 'v) closed \<Rightarrow> ('k, 'v) closed result" where
  "ledger_rawErase k l =
     (if map_of (cl_stateMap l) k = None then Inl (LogicError ''Ledger::rawErase: key not found'')
      else Inr (l\<lparr>cl_stateMap := AList.delete k (cl_stateMap l)\<rparr>))"

definition ledger_rawInsert :: "'k \<Rightarrow> 'v \<Rightarrow> ('k::linorder, 'v) closed \<Rightarrow> ('k, 'v) closed result" where
  "ledger_rawInsert k sle l =
     (if map_of (cl_stateMap l) k \<noteq> None then Inl (LogicError ''Ledger::rawInsert: key already exists'')
      else Inr (l\<lparr>cl_stateMap := map_insert k sle (cl_stateMap l)\<rparr>))"

definition ledger_rawReplace :: "'k \<Rightarrow> 'v \<Rightarrow> ('k::linorder, 'v) closed \<Rightarrow> ('k, 'v) closed result" where
  "ledger_rawReplace k sle l =
     (if map_of (cl_stateMap l) k = None then Inl (LogicError ''Ledger::rawReplace: key not found'')
      else Inr (l\<lparr>cl_stateMap := AList.update k sle (cl_stateMap l)\<rparr>))"

definition ledger_rawDestroyXRP :: "int \<Rightarrow> ('k, 'v) closed \<Rightarrow> ('k, 'v) closed" where
  "ledger_rawDestroyXRP fee l = l\<lparr>cl_drops := cl_drops l - fee\<rparr>"

definition ledger_rview :: "('k::linorder, 'v) closed \<Rightarrow> ('k, 'v) rview" where
  "ledger_rview l = \<lparr>rv_exists = ledger_exists l, rv_read = ledger_read l, rv_succ = ledger_succ l\<rparr>"

subsection \<open>The successor through an overlay\<close>

text \<open>
  Both tables compute the successor of a key in the same way. The first loop asks the base until it
  finds a key that is not erased; it passes an erased key each time, so as many rounds as there are
  items and one more are enough, and the outer option is \<open>None\<close> only when they were not.
\<close>

fun succ_base :: "nat \<Rightarrow> ('k \<Rightarrow> 'k option) \<Rightarrow> ('k \<Rightarrow> bool) \<Rightarrow> 'k \<Rightarrow> 'k option option" where
  "succ_base 0 base erased key = None"
| "succ_base (Suc n) base erased key =
     (case base key of
        None \<Rightarrow> Some None
      | Some next \<Rightarrow> if erased next then succ_base n base erased next else Some (Some next))"

definition succ_items :: "('a \<Rightarrow> bool) \<Rightarrow> ('k::linorder \<times> 'a) list \<Rightarrow> 'k \<Rightarrow> 'k option \<Rightarrow> 'k option" where
  "succ_items erases items key next =
     (case filter (\<lambda>p. \<not> erases (snd p)) (upper_bound key items) of
        [] \<Rightarrow> next
      | item # _ \<Rightarrow> (case next of None \<Rightarrow> Some (fst item)
                     | Some n \<Rightarrow> if n > fst item then Some (fst item) else Some n))"

definition overlay_succ :: "('k \<Rightarrow> 'k option \<Rightarrow> 'k option) \<Rightarrow> ('a \<Rightarrow> bool) \<Rightarrow> ('k::linorder \<times> 'a) list \<Rightarrow> 'k \<Rightarrow> 'k option \<Rightarrow> 'k option option" where
  "overlay_succ base erases items key lst =
     (case succ_base (Suc (length items)) (\<lambda>k. base k lst) (\<lambda>k. case map_of items k of None \<Rightarrow> False | Some a \<Rightarrow> erases a) key of
        None \<Rightarrow> None
      | Some next0 \<Rightarrow>
          (let next = succ_items erases items key next0
           in case (lst, next) of
                (Some l', Some n) \<Rightarrow> if n \<ge> l' then Some None else Some (Some n)
              | _ \<Rightarrow> Some next))"

subsection \<open>The table of an open view\<close>

datatype RawAction = RawErase | RawInsert | RawReplace

record ('k, 'v) raw_table =
  rt_items :: "('k \<times> (RawAction \<times> 'v)) list"
  rt_dropsDestroyed :: int

definition raw_exists :: "('k, 'v) rview \<Rightarrow> ('k, 'v) raw_table \<Rightarrow> ('k, 'v) keylet \<Rightarrow> bool" where
  "raw_exists base t k =
     (case map_of (rt_items t) (kl_key k) of
        None \<Rightarrow> rv_exists base k
      | Some (action, sle) \<Rightarrow> if action = RawErase then False else kl_check k sle)"

definition raw_read :: "('k, 'v) rview \<Rightarrow> ('k, 'v) raw_table \<Rightarrow> ('k, 'v) keylet \<Rightarrow> 'v option" where
  "raw_read base t k =
     (case map_of (rt_items t) (kl_key k) of
        None \<Rightarrow> rv_read base k
      | Some (action, sle) \<Rightarrow> if action = RawErase then None else if \<not> kl_check k sle then None else Some sle)"

definition raw_succ :: "('k, 'v) rview \<Rightarrow> ('k::linorder, 'v) raw_table \<Rightarrow> 'k \<Rightarrow> 'k option \<Rightarrow> 'k option option" where
  "raw_succ base t = overlay_succ (rv_succ base) (\<lambda>a. fst a = RawErase) (rt_items t)"

definition raw_erase :: "'k \<Rightarrow> 'v \<Rightarrow> ('k::linorder, 'v) raw_table \<Rightarrow> ('k, 'v) raw_table result" where
  "raw_erase k sle t =
     (case map_of (rt_items t) k of
        None \<Rightarrow> Inr (t\<lparr>rt_items := map_insert k (RawErase, sle) (rt_items t)\<rparr>)
      | Some (RawErase, _) \<Rightarrow> Inl (LogicError ''RawStateTable::erase: already erased'')
      | Some (RawInsert, _) \<Rightarrow> Inr (t\<lparr>rt_items := AList.delete k (rt_items t)\<rparr>)
      | Some (RawReplace, _) \<Rightarrow> Inr (t\<lparr>rt_items := AList.update k (RawErase, sle) (rt_items t)\<rparr>))"

definition raw_insert :: "'k \<Rightarrow> 'v \<Rightarrow> ('k::linorder, 'v) raw_table \<Rightarrow> ('k, 'v) raw_table result" where
  "raw_insert k sle t =
     (case map_of (rt_items t) k of
        None \<Rightarrow> Inr (t\<lparr>rt_items := map_insert k (RawInsert, sle) (rt_items t)\<rparr>)
      | Some (RawErase, _) \<Rightarrow> Inr (t\<lparr>rt_items := AList.update k (RawReplace, sle) (rt_items t)\<rparr>)
      | Some (RawInsert, _) \<Rightarrow> Inl (LogicError ''RawStateTable::insert: already inserted'')
      | Some (RawReplace, _) \<Rightarrow> Inl (LogicError ''RawStateTable::insert: already exists''))"

definition raw_replace :: "'k \<Rightarrow> 'v \<Rightarrow> ('k::linorder, 'v) raw_table \<Rightarrow> ('k, 'v) raw_table result" where
  "raw_replace k sle t =
     (case map_of (rt_items t) k of
        None \<Rightarrow> Inr (t\<lparr>rt_items := map_insert k (RawReplace, sle) (rt_items t)\<rparr>)
      | Some (RawErase, _) \<Rightarrow> Inl (LogicError ''RawStateTable::replace: was erased'')
      | Some (RawInsert, _) \<Rightarrow> Inr (t\<lparr>rt_items := AList.update k (RawInsert, sle) (rt_items t)\<rparr>)
      | Some (RawReplace, _) \<Rightarrow> Inr (t\<lparr>rt_items := AList.update k (RawReplace, sle) (rt_items t)\<rparr>))"

definition raw_destroyXRP :: "int \<Rightarrow> ('k, 'v) raw_table \<Rightarrow> ('k, 'v) raw_table" where
  "raw_destroyXRP fee t = t\<lparr>rt_dropsDestroyed := rt_dropsDestroyed t + fee\<rparr>"

text \<open>A view that takes raw changes, as the class \<open>RawView\<close>.\<close>

record ('k, 'v, 'r) raw_view =
  w_erase :: "'k \<Rightarrow> 'v \<Rightarrow> 'r \<Rightarrow> 'r result"
  w_insert :: "'k \<Rightarrow> 'v \<Rightarrow> 'r \<Rightarrow> 'r result"
  w_replace :: "'k \<Rightarrow> 'v \<Rightarrow> 'r \<Rightarrow> 'r result"
  w_destroy :: "int \<Rightarrow> 'r \<Rightarrow> 'r"

definition to_ledger :: "('k::linorder, 'v, ('k, 'v) closed) raw_view" where
  "to_ledger = \<lparr>w_erase = (\<lambda>k sle. ledger_rawErase k), w_insert = ledger_rawInsert,
     w_replace = ledger_rawReplace, w_destroy = ledger_rawDestroyXRP\<rparr>"

definition to_table :: "('k::linorder, 'v, ('k, 'v) raw_table) raw_view" where
  "to_table = \<lparr>w_erase = raw_erase, w_insert = raw_insert, w_replace = raw_replace, w_destroy = raw_destroyXRP\<rparr>"

text \<open>Replaying a list of changes; the code iterates over its map of items.\<close>

datatype 'v change = Keep | Gone 'v | New 'v | Changed 'v

fun replay :: "('k, 'v, 'r) raw_view \<Rightarrow> ('k \<times> 'v change) list \<Rightarrow> 'r \<Rightarrow> 'r result" where
  "replay w [] r = Inr r"
| "replay w ((k, c) # cs) r =
     (case (case c of Keep \<Rightarrow> Inr r | Gone sle \<Rightarrow> w_erase w k sle r | New sle \<Rightarrow> w_insert w k sle r
              | Changed sle \<Rightarrow> w_replace w k sle r) of
        Inl ex \<Rightarrow> Inl ex
      | Inr r' \<Rightarrow> replay w cs r')"

fun raw_change :: "RawAction \<times> 'v \<Rightarrow> 'v change" where
  "raw_change (RawErase, sle) = Gone sle"
| "raw_change (RawInsert, sle) = New sle"
| "raw_change (RawReplace, sle) = Changed sle"

definition raw_apply :: "('k, 'v, 'r) raw_view \<Rightarrow> ('k, 'v) raw_table \<Rightarrow> 'r \<Rightarrow> 'r result" where
  "raw_apply w t to = replay w (map (\<lambda>(k, a). (k, raw_change a)) (rt_items t)) (w_destroy w (rt_dropsDestroyed t) to)"

subsection \<open>The table of a transaction\<close>

datatype Action = Cache | Erase | Insert | Modify

text \<open>
  The items hold pointers. An entry is an object with a fixed key and a content that its holders may
  change; a pointer is a number below \<open>at_fresh\<close>.
\<close>

record ('k, 'v) apply_table =
  at_items :: "('k \<times> (Action \<times> nat)) list"
  at_dropsDestroyed :: int
  at_store :: "nat \<Rightarrow> 'k \<times> 'v"
  at_fresh :: nat

definition sle_at :: "('k, 'v) apply_table \<Rightarrow> nat \<Rightarrow> 'v" where
  "sle_at t p = snd (at_store t p)"

definition key_at :: "('k, 'v) apply_table \<Rightarrow> nat \<Rightarrow> 'k" where
  "key_at t p = fst (at_store t p)"

text \<open>\<open>make_shared<SLE>\<close>, and a change of an entry through a pointer.\<close>

definition make_sle :: "'k \<Rightarrow> 'v \<Rightarrow> ('k, 'v) apply_table \<Rightarrow> nat \<times> ('k, 'v) apply_table" where
  "make_sle k sle t = (at_fresh t, t\<lparr>at_store := (at_store t)(at_fresh t := (k, sle)), at_fresh := at_fresh t + 1\<rparr>)"

definition write_sle :: "nat \<Rightarrow> 'v \<Rightarrow> ('k, 'v) apply_table \<Rightarrow> ('k, 'v) apply_table" where
  "write_sle p sle t = t\<lparr>at_store := (at_store t)(p := (key_at t p, sle))\<rparr>"

definition apply_exists :: "('k, 'v) rview \<Rightarrow> ('k, 'v) apply_table \<Rightarrow> ('k, 'v) keylet \<Rightarrow> bool" where
  "apply_exists base t k =
     (case map_of (at_items t) (kl_key k) of
        None \<Rightarrow> rv_exists base k
      | Some (action, p) \<Rightarrow> if action = Erase then False else kl_check k (sle_at t p))"

definition apply_succ :: "('k, 'v) rview \<Rightarrow> ('k::linorder, 'v) apply_table \<Rightarrow> 'k \<Rightarrow> 'k option \<Rightarrow> 'k option option" where
  "apply_succ base t = overlay_succ (rv_succ base) (\<lambda>a. fst a = Erase) (at_items t)"

definition apply_read :: "('k, 'v) rview \<Rightarrow> ('k, 'v) apply_table \<Rightarrow> ('k, 'v) keylet \<Rightarrow> 'v option" where
  "apply_read base t k =
     (case map_of (at_items t) (kl_key k) of
        None \<Rightarrow> rv_read base k
      | Some (action, p) \<Rightarrow>
          if action = Erase then None else if \<not> kl_check k (sle_at t p) then None else Some (sle_at t p))"

definition apply_peek :: "('k, 'v) rview \<Rightarrow> ('k, 'v) keylet \<Rightarrow> ('k::linorder, 'v) apply_table \<Rightarrow> nat option \<times> ('k, 'v) apply_table" where
  "apply_peek base k t =
     (case map_of (at_items t) (kl_key k) of
        None \<Rightarrow>
          (case rv_read base k of
             None \<Rightarrow> (None, t)
           | Some sle \<Rightarrow>
               (case make_sle (kl_key k) sle t of (p, t1) \<Rightarrow>
                  (Some p, t1\<lparr>at_items := map_insert (kl_key k) (Cache, p) (at_items t1)\<rparr>)))
      | Some (action, p) \<Rightarrow>
          if action = Erase then (None, t) else if \<not> kl_check k (sle_at t p) then (None, t) else (Some p, t))"

definition apply_erase :: "nat \<Rightarrow> ('k::linorder, 'v) apply_table \<Rightarrow> ('k, 'v) apply_table result" where
  "apply_erase p t =
     (case map_of (at_items t) (key_at t p) of
        None \<Rightarrow> Inl (LogicError ''ApplyStateTable::erase: missing key'')
      | Some (action, q) \<Rightarrow>
          if q \<noteq> p then Inl (LogicError ''ApplyStateTable::erase: unknown SLE'')
          else case action of
                 Erase \<Rightarrow> Inl (LogicError ''ApplyStateTable::erase: double erase'')
               | Insert \<Rightarrow> Inr (t\<lparr>at_items := AList.delete (key_at t p) (at_items t)\<rparr>)
               | _ \<Rightarrow> Inr (t\<lparr>at_items := AList.update (key_at t p) (Erase, q) (at_items t)\<rparr>))"

definition apply_rawErase :: "nat \<Rightarrow> ('k::linorder, 'v) apply_table \<Rightarrow> ('k, 'v) apply_table result" where
  "apply_rawErase p t =
     (case map_of (at_items t) (key_at t p) of
        None \<Rightarrow> Inr (t\<lparr>at_items := map_insert (key_at t p) (Erase, p) (at_items t)\<rparr>)
      | Some (action, q) \<Rightarrow>
          (case action of
             Erase \<Rightarrow> Inl (LogicError ''ApplyStateTable::rawErase: double erase'')
           | Insert \<Rightarrow> Inr (t\<lparr>at_items := AList.delete (key_at t p) (at_items t)\<rparr>)
           | _ \<Rightarrow> Inr (t\<lparr>at_items := AList.update (key_at t p) (Erase, p) (at_items t)\<rparr>)))"

definition apply_insert :: "nat \<Rightarrow> ('k::linorder, 'v) apply_table \<Rightarrow> ('k, 'v) apply_table result" where
  "apply_insert p t =
     (case map_of (at_items t) (key_at t p) of
        None \<Rightarrow> Inr (t\<lparr>at_items := map_insert (key_at t p) (Insert, p) (at_items t)\<rparr>)
      | Some (action, q) \<Rightarrow>
          (case action of
             Cache \<Rightarrow> Inl (LogicError ''ApplyStateTable::insert: already cached'')
           | Insert \<Rightarrow> Inl (LogicError ''ApplyStateTable::insert: already inserted'')
           | Modify \<Rightarrow> Inl (LogicError ''ApplyStateTable::insert: already modified'')
           | Erase \<Rightarrow> Inr (t\<lparr>at_items := AList.update (key_at t p) (Modify, p) (at_items t)\<rparr>)))"

definition apply_replace :: "nat \<Rightarrow> ('k::linorder, 'v) apply_table \<Rightarrow> ('k, 'v) apply_table result" where
  "apply_replace p t =
     (case map_of (at_items t) (key_at t p) of
        None \<Rightarrow> Inr (t\<lparr>at_items := map_insert (key_at t p) (Modify, p) (at_items t)\<rparr>)
      | Some (action, q) \<Rightarrow>
          (case action of
             Erase \<Rightarrow> Inl (LogicError ''ApplyStateTable::replace: already erased'')
           | Cache \<Rightarrow> Inr (t\<lparr>at_items := AList.update (key_at t p) (Modify, p) (at_items t)\<rparr>)
           | _ \<Rightarrow> Inr (t\<lparr>at_items := AList.update (key_at t p) (action, p) (at_items t)\<rparr>)))"

definition apply_update :: "nat \<Rightarrow> ('k::linorder, 'v) apply_table \<Rightarrow> ('k, 'v) apply_table result" where
  "apply_update p t =
     (case map_of (at_items t) (key_at t p) of
        None \<Rightarrow> Inl (LogicError ''ApplyStateTable::update: missing key'')
      | Some (action, q) \<Rightarrow>
          if q \<noteq> p then Inl (LogicError ''ApplyStateTable::update: unknown SLE'')
          else case action of
                 Erase \<Rightarrow> Inl (LogicError ''ApplyStateTable::update: erased'')
               | Cache \<Rightarrow> Inr (t\<lparr>at_items := AList.update (key_at t p) (Modify, q) (at_items t)\<rparr>)
               | _ \<Rightarrow> Inr t)"

definition apply_destroyXRP :: "int \<Rightarrow> ('k, 'v) apply_table \<Rightarrow> ('k, 'v) apply_table" where
  "apply_destroyXRP fee t = t\<lparr>at_dropsDestroyed := at_dropsDestroyed t + fee\<rparr>"

definition apply_change :: "('k, 'v) apply_table \<Rightarrow> Action \<times> nat \<Rightarrow> 'v change" where
  "apply_change t a =
     (case a of (Cache, p) \<Rightarrow> Keep | (Erase, p) \<Rightarrow> Gone (sle_at t p) | (Insert, p) \<Rightarrow> New (sle_at t p)
      | (Modify, p) \<Rightarrow> Changed (sle_at t p))"

definition apply_apply :: "('k, 'v, 'r) raw_view \<Rightarrow> ('k, 'v) apply_table \<Rightarrow> 'r \<Rightarrow> 'r result" where
  "apply_apply w t to = replay w (map (\<lambda>(k, a). (k, apply_change t a)) (at_items t)) (w_destroy w (at_dropsDestroyed t) to)"

definition apply_size :: "('k, 'v) apply_table \<Rightarrow> nat" where
  "apply_size t = length (filter (\<lambda>(k, a). fst a = Erase \<or> fst a = Insert \<or> fst a = Modify) (at_items t))"

text \<open>The visitor gets the key, whether the entry is deleted, and the entry before and after.\<close>

definition apply_visit :: "('k, 'v) rview \<Rightarrow> ('k, 'v) apply_table \<Rightarrow> ('k \<times> bool \<times> 'v option \<times> 'v) list" where
  "apply_visit to t = concat (map (\<lambda>(k, a, p).
     let before = rv_read to \<lparr>kl_key = k, kl_check = \<lambda>_. True\<rparr> in
     case a of Erase \<Rightarrow> [(k, True, before, sle_at t p)]
     | Insert \<Rightarrow> [(k, False, None, sle_at t p)]
     | Modify \<Rightarrow> [(k, False, before, sle_at t p)]
     | Cache \<Rightarrow> []) (at_items t))"

end
