(* ===== verification/StateLayers.thy ===== *)
theory StateLayers
  imports StateTables
begin

section \<open>The layers as one map\<close>

text \<open>
  The interfaces between the layers, as locales: \<open>read_view\<close> is what a table relies on in the view it
  lies over, \<open>raw_target\<close> what replaying a table relies on in the view that takes its changes. The
  closed ledger and the open view provide both. The table of a transaction is then shown to behave as
  the ledger itself would: a run of operations through the layers observes and leaves what the same
  run does when it is executed on the ledger directly.
\<close>

subsection \<open>Contracts\<close>

definition below :: "'k::linorder option \<Rightarrow> 'k \<Rightarrow> bool" where
  "below lst k \<longleftrightarrow> (case lst of None \<Rightarrow> True | Some l' \<Rightarrow> k < l')"

definition is_succ :: "'k::linorder set \<Rightarrow> 'k \<Rightarrow> 'k option \<Rightarrow> 'k option \<Rightarrow> bool" where
  "is_succ S key lst r \<longleftrightarrow>
     (case r of
        None \<Rightarrow> \<forall>k \<in> S. key < k \<longrightarrow> \<not> below lst k
      | Some n \<Rightarrow> n \<in> S \<and> key < n \<and> below lst n \<and> (\<forall>k \<in> S. key < k \<longrightarrow> n \<le> k))"

lemma is_succ_unique: "is_succ S key lst r \<Longrightarrow> is_succ S key lst r' \<Longrightarrow> r = r'"
  by (cases r; cases r') (auto simp: is_succ_def intro: antisym)

lemma below_mono: "k \<le> k' \<Longrightarrow> below lst k' \<Longrightarrow> below lst k"
  by (auto simp: below_def split: option.splits)

lemma is_succ_cut:
  assumes "n \<in> S" "key < n" "\<And>k. k \<in> S \<Longrightarrow> key < k \<Longrightarrow> n \<le> k"
  shows "is_succ S key lst (if below lst n then Some n else None)"
  using assms below_mono [of n _ lst] by (auto simp: is_succ_def)

locale read_view =
  fixes view :: "'s \<Rightarrow> ('k::linorder, 'v) rview"
    and content :: "'s \<Rightarrow> 'k \<Rightarrow> 'v option"
    and ok :: "'s \<Rightarrow> bool"
  assumes read_law: "ok s \<Longrightarrow> rv_read (view s) k = checked k (content s (kl_key k))"
    and exists_law: "ok s \<Longrightarrow> rv_read (view s) k \<noteq> None \<Longrightarrow> rv_exists (view s) k"
    and absent_law: "ok s \<Longrightarrow> content s (kl_key k) = None \<Longrightarrow> \<not> rv_exists (view s) k"
    and succ_law: "ok s \<Longrightarrow> is_succ (dom (content s)) key lst (rv_succ (view s) key lst)"

locale raw_target =
  fixes w :: "('k::linorder, 'v, 'r) raw_view"
    and content :: "'r \<Rightarrow> 'k \<Rightarrow> 'v option"
    and drops :: "'r \<Rightarrow> int"
    and ok :: "'r \<Rightarrow> bool"
  assumes erase_law: "ok r \<Longrightarrow> content r k \<noteq> None \<Longrightarrow>
      \<exists>r'. w_erase w k sle r = Inr r' \<and> ok r' \<and> content r' = (content r)(k := None) \<and> drops r' = drops r"
    and insert_law: "ok r \<Longrightarrow> content r k = None \<Longrightarrow>
      \<exists>r'. w_insert w k sle r = Inr r' \<and> ok r' \<and> content r' = (content r)(k \<mapsto> sle) \<and> drops r' = drops r"
    and replace_law: "ok r \<Longrightarrow> content r k \<noteq> None \<Longrightarrow>
      \<exists>r'. w_replace w k sle r = Inr r' \<and> ok r' \<and> content r' = (content r)(k \<mapsto> sle) \<and> drops r' = drops r"
    and destroy_law: "ok r \<Longrightarrow>
      ok (w_destroy w fee r) \<and> content (w_destroy w fee r) = content r \<and> drops (w_destroy w fee r) = drops r - fee"

text \<open>A change fits an entry when the target can take it, and what it makes of the entry.\<close>

fun fits :: "'v change \<Rightarrow> 'v option \<Rightarrow> bool" where
  "fits Keep x = True"
| "fits (Gone _) x = (x \<noteq> None)"
| "fits (New _) x = (x = None)"
| "fits (Changed _) x = (x \<noteq> None)"

fun changed :: "'v change \<Rightarrow> 'v option \<Rightarrow> 'v option" where
  "changed Keep x = x"
| "changed (Gone _) x = None"
| "changed (New sle) x = Some sle"
| "changed (Changed sle) x = Some sle"

definition changed_by :: "('k \<times> 'v change) list \<Rightarrow> ('k \<Rightarrow> 'v option) \<Rightarrow> 'k \<Rightarrow> 'v option" where
  "changed_by cs m k = (case map_of cs k of None \<Rightarrow> m k | Some c \<Rightarrow> changed c (m k))"

lemma changed_by_Cons:
  "k \<notin> fst ` set cs \<Longrightarrow> changed_by ((k, c) # cs) m = changed_by cs (m(k := changed c (m k)))"
  by (auto simp: changed_by_def fun_eq_iff map_of_eq_None_iff [THEN iffD2] split: option.splits)

context raw_target
begin

lemma change_step:
  assumes "ok r" "fits c (content r k)"
  shows "\<exists>r'. replay w ((k, c) # cs) r = replay w cs r' \<and> ok r' \<and>
    content r' = (content r)(k := changed c (content r k)) \<and> drops r' = drops r"
proof (cases c)
  case (Gone sle)
  with assms erase_law [of r k sle] show ?thesis by auto
next
  case (New sle)
  with assms insert_law [of r k sle] show ?thesis by auto
next
  case (Changed sle)
  with assms replace_law [of r k sle] show ?thesis by auto
qed (use assms in auto)

text \<open>Changes that fit are all taken: the replay does not throw.\<close>

lemma replay_fits:
  assumes "ok r" "distinct (map fst cs)" "\<forall>(k, c) \<in> set cs. fits c (content r k)"
  shows "\<exists>r'. replay w cs r = Inr r' \<and> ok r' \<and> content r' = changed_by cs (content r) \<and> drops r' = drops r"
  using assms
proof (induction cs arbitrary: r)
  case Nil
  then show ?case by (auto simp: changed_by_def)
next
  case (Cons p cs)
  obtain k c where p: "p = (k, c)" by (cases p)
  have fresh: "k \<notin> fst ` set cs" using Cons.prems(2) p by simp
  obtain r1 where r1: "replay w ((k, c) # cs) r = replay w cs r1" "ok r1"
      "content r1 = (content r)(k := changed c (content r k))" "drops r1 = drops r"
    using change_step [of r c k cs] Cons.prems p by auto
  have "\<forall>(j, d) \<in> set cs. fits d (content r1 j)"
    using Cons.prems(3) fresh r1(3) by (force simp: p)
  then obtain r' where "replay w cs r1 = Inr r'" "ok r'" "content r' = changed_by cs (content r1)" "drops r' = drops r1"
    using Cons.IH [of r1] r1(2) Cons.prems(2) by auto
  with r1 fresh show ?case by (auto simp: p changed_by_Cons)
qed

lemma replay_after_destroy:
  assumes "ok r" "distinct (map fst cs)" "\<forall>(k, c) \<in> set cs. fits c (content r k)"
  shows "\<exists>r'. replay w cs (w_destroy w fee r) = Inr r' \<and> ok r' \<and>
    content r' = changed_by cs (content r) \<and> drops r' = drops r - fee"
  using replay_fits [of "w_destroy w fee r" cs] destroy_law [of r fee] assms by auto

end

subsection \<open>The closed ledger provides both\<close>

definition closed_ok :: "('k::linorder, 'v) closed \<Rightarrow> bool" where
  "closed_ok l \<longleftrightarrow> ascending (cl_stateMap l)"

definition ledger_content :: "('k, 'v) closed \<Rightarrow> 'k \<Rightarrow> 'v option" where
  "ledger_content l = map_of (cl_stateMap l)"

lemma upper_bound_first:
  assumes "ascending m" "upper_bound key m = p # ps"
  shows "fst p \<in> fst ` set m" "key < fst p" "\<And>k. k \<in> fst ` set m \<Longrightarrow> key < k \<Longrightarrow> fst p \<le> k"
proof -
  have s: "set (p # ps) = {q \<in> set m. key < fst q}" using upper_bound_set [OF assms(1), of key] assms(2) by simp
  have a: "ascending (p # ps)" using ascending_upper_bound [OF assms(1), of key] assms(2) by simp
  from s show "fst p \<in> fst ` set m" "key < fst p" by auto
  fix k assume "k \<in> fst ` set m" "key < k"
  with s have "k \<in> fst ` set (p # ps)" by (auto simp del: set_simps)
  with a show "fst p \<le> k" by (auto simp: ascending_Cons)
qed

lemma upper_bound_none: "ascending m \<Longrightarrow> upper_bound key m = [] \<Longrightarrow> k \<in> fst ` set m \<Longrightarrow> \<not> key < k"
  using upper_bound_set [of m key] by auto

lemma ledger_succ_least:
  assumes "closed_ok l"
  shows "is_succ (dom (ledger_content l)) key lst (ledger_succ l key lst)"
proof -
  have a: "ascending (cl_stateMap l)" using assms by (simp add: closed_ok_def)
  show ?thesis
  proof (cases "upper_bound key (cl_stateMap l)")
    case Nil
    then show ?thesis
      using upper_bound_none [OF a Nil]
      by (auto simp: is_succ_def ledger_succ_def ledger_content_def dom_map_of_conv_image_fst)
  next
    case (Cons p ps)
    note first = upper_bound_first [OF a Cons]
    have "ledger_succ l key lst = (if below lst (fst p) then Some (fst p) else None)"
      using Cons by (auto simp: ledger_succ_def below_def split: option.splits)
    then show ?thesis
      using is_succ_cut [of "fst p" "dom (ledger_content l)" key lst] first
      by (simp add: ledger_content_def dom_map_of_conv_image_fst)
  qed
qed

interpretation ledger_view: read_view ledger_rview ledger_content closed_ok
proof
  fix l :: "('k::linorder, 'v) closed" and k :: "('k, 'v) keylet" and key lst
  show "rv_read (ledger_rview l) k = checked k (ledger_content l (kl_key k))"
    by (simp add: ledger_rview_def ledger_read_def ledger_content_def)
  show "rv_exists (ledger_rview l) k" if "rv_read (ledger_rview l) k \<noteq> None"
    using that by (auto simp: ledger_rview_def ledger_read_def ledger_exists_def checked_def split: option.splits)
  show "\<not> rv_exists (ledger_rview l) k" if "ledger_content l (kl_key k) = None"
    using that by (simp add: ledger_rview_def ledger_exists_def ledger_content_def)
  assume "closed_ok l"
  then show "is_succ (dom (ledger_content l)) key lst (rv_succ (ledger_rview l) key lst)"
    using ledger_succ_least by (simp add: ledger_rview_def)
qed

lemma in_keys: "map_of m k \<noteq> None \<Longrightarrow> k \<in> fst ` set m"
  by (metis map_of_eq_None_iff)

interpretation ledger_target: raw_target to_ledger ledger_content cl_drops closed_ok
proof
  fix r :: "('k::linorder, 'v) closed" and k sle fee
  assume ok: "closed_ok r"
  then have a: "ascending (cl_stateMap r)" by (simp add: closed_ok_def)
  show "\<exists>r'. w_erase to_ledger k sle r = Inr r' \<and> closed_ok r' \<and>
      ledger_content r' = (ledger_content r)(k := None) \<and> cl_drops r' = cl_drops r"
    if "ledger_content r k \<noteq> None"
    using that a by (auto simp: to_ledger_def ledger_rawErase_def ledger_content_def closed_ok_def ascending_delete delete_conv')
  show "\<exists>r'. w_insert to_ledger k sle r = Inr r' \<and> closed_ok r' \<and>
      ledger_content r' = (ledger_content r)(k \<mapsto> sle) \<and> cl_drops r' = cl_drops r"
    if "ledger_content r k = None"
    using that a by (auto simp: to_ledger_def ledger_rawInsert_def ledger_content_def closed_ok_def
      ascending_insert map_of_map_insert)
  show "\<exists>r'. w_replace to_ledger k sle r = Inr r' \<and> closed_ok r' \<and>
      ledger_content r' = (ledger_content r)(k \<mapsto> sle) \<and> cl_drops r' = cl_drops r"
    if "ledger_content r k \<noteq> None"
    using that a in_keys [of "cl_stateMap r" k]
    by (auto simp: to_ledger_def ledger_rawReplace_def ledger_content_def closed_ok_def
      ascending_update update_conv')
  show "closed_ok (w_destroy to_ledger fee r) \<and> ledger_content (w_destroy to_ledger fee r) = ledger_content r \<and>
      cl_drops (w_destroy to_ledger fee r) = cl_drops r - fee"
    using ok by (simp add: to_ledger_def ledger_rawDestroyXRP_def ledger_content_def closed_ok_def)
qed

subsection \<open>The successor through an overlay\<close>

lemma is_succ_skip:
  assumes "is_succ S key lst (Some n)" "erased n" "is_succ (S - Collect erased) n lst r"
  shows "is_succ (S - Collect erased) key lst r"
proof -
  have n: "key < n" "\<And>k. k \<in> S \<Longrightarrow> key < k \<Longrightarrow> n \<le> k" using assms(1) by (auto simp: is_succ_def)
  have "key < k \<longleftrightarrow> n < k" if "k \<in> S - Collect erased" for k
    using that n assms(2) by (metis DiffE mem_Collect_eq order.strict_trans order.not_eq_order_implies_strict)
  with assms(3) show ?thesis by (auto simp: is_succ_def split: option.splits)
qed

text \<open>The loop over the base ends: each round passes one erased key.\<close>

lemma succ_base_finds:
  assumes "\<And>k. is_succ S k lst (base k)" "finite K" "\<And>k. erased k \<Longrightarrow> k \<in> K"
    "card {k \<in> K. key < k} < n"
  shows "\<exists>r. succ_base n base erased key = Some r \<and> is_succ (S - Collect erased) key lst r"
  using assms(4)
proof (induction n arbitrary: key)
  case (Suc n)
  show ?case
  proof (cases "base key")
    case None
    with assms(1) [of key] show ?thesis by (auto simp: is_succ_def)
  next
    case (Some nx)
    note base = assms(1) [of key, unfolded Some]
    show ?thesis
    proof (cases "erased nx")
      case False
      with base Some show ?thesis by (auto simp: is_succ_def)
    next
      case True
      have "key < nx" using base by (simp add: is_succ_def)
      then have "{k \<in> K. nx < k} \<subset> {k \<in> K. key < k}" using assms(3) [OF True] by auto
      then have "card {k \<in> K. nx < k} < card {k \<in> K. key < k}" using assms(2) by (intro psubset_card_mono) auto
      then obtain r where "succ_base n base erased nx = Some r" "is_succ (S - Collect erased) nx lst r"
        using Suc by force
      with Some True is_succ_skip [of S key lst nx erased r] base show ?thesis by auto
    qed
  qed
qed simp

definition overlay_keys :: "('a \<Rightarrow> bool) \<Rightarrow> ('k \<times> 'a) list \<Rightarrow> 'k set \<Rightarrow> 'k set" where
  "overlay_keys erases items S =
     {k. case map_of items k of None \<Rightarrow> k \<in> S | Some a \<Rightarrow> \<not> erases a}"

lemma live_items:
  assumes "ascending items"
  shows "fst ` set (filter (\<lambda>p. \<not> erases (snd p)) (upper_bound key items)) =
    {k. key < k \<and> (\<exists>a. map_of items k = Some a \<and> \<not> erases a)}"
  using ascending_map_of [OF assms] by (force simp: upper_bound_set [OF assms])

lemma least_live:
  assumes "ascending items" "filter (\<lambda>p. \<not> erases (snd p)) (upper_bound key items) = p # ps"
  shows "key < fst p" "\<exists>a. map_of items (fst p) = Some a \<and> \<not> erases a"
    "\<And>k a. key < k \<Longrightarrow> map_of items k = Some a \<Longrightarrow> \<not> erases a \<Longrightarrow> fst p \<le> k"
proof -
  have s: "fst ` set (p # ps) = {k. key < k \<and> (\<exists>a. map_of items k = Some a \<and> \<not> erases a)}"
    using live_items [OF assms(1), of erases key] assms(2) by simp
  have "ascending (filter (\<lambda>p. \<not> erases (snd p)) (upper_bound key items))"
    using ascending_upper_bound [OF assms(1), of key] by (induction "upper_bound key items") (auto simp: ascending_def sorted_wrt_filter sorted_wrt_map)
  then have a: "ascending (p # ps)" using assms(2) by simp
  have "fst p \<in> fst ` set (p # ps)" by simp
  with s show "key < fst p" "\<exists>a. map_of items (fst p) = Some a \<and> \<not> erases a" by blast+
  fix k b assume "key < k" "map_of items k = Some b" "\<not> erases b"
  with s have "k \<in> fst ` set (p # ps)" by blast
  with a show "fst p \<le> k" by (auto simp: ascending_Cons)
qed

lemma below_Some: "below (Some l') n \<longleftrightarrow> \<not> l' \<le> n"
  by (auto simp: below_def)

lemma is_succ_merge:
  assumes base: "is_succ B key lst r"
    and S: "S = B \<union> L"
    and i: "i \<in> L" "key < i" "\<And>k. k \<in> L \<Longrightarrow> key < k \<Longrightarrow> i \<le> k"
    and n: "n = (case r of None \<Rightarrow> i | Some m \<Rightarrow> if m > i then i else m)"
  shows "is_succ S key lst (if below lst n then Some n else None)"
proof (cases r)
  case None
  then have r: "\<And>k. k \<in> B \<Longrightarrow> key < k \<Longrightarrow> \<not> below lst k" using base by (simp add: is_succ_def)
  show ?thesis
  proof (cases "below lst i")
    case True
    have "i \<le> k" if "k \<in> B" "key < k" for k using r [OF that] True below_mono by (metis nle_le)
    with i True None n S show ?thesis by (auto simp: is_succ_def)
  next
    case False
    with i None n S r below_mono [of i _ lst] show ?thesis by (auto simp: is_succ_def)
  qed
next
  case (Some m)
  then have r: "m \<in> B" "key < m" "\<And>k. k \<in> B \<Longrightarrow> key < k \<Longrightarrow> m \<le> k" using base by (auto simp: is_succ_def)
  have "n = min i m" using n Some by (auto simp: min_def)
  moreover have "min i m \<le> k" if "k \<in> S" "key < k" for k
    using that r(3) i(3) S by (metis Un_iff min.coboundedI1 min.coboundedI2)
  moreover have "min i m \<in> S" "key < min i m" using r i S by (auto simp: min_def)
  ultimately show ?thesis using is_succ_cut [of n S key lst] by simp
qed

lemma overlay_succ_least:
  assumes base: "\<And>k. is_succ S k lst (bsucc k lst)" and a: "ascending items"
  shows "\<exists>r. overlay_succ bsucc erases items key lst = Some r \<and> is_succ (overlay_keys erases items S) key lst r"
proof -
  let ?er = "\<lambda>k. case map_of items k of None \<Rightarrow> False | Some a \<Rightarrow> erases a"
  let ?L = "{k. \<exists>a. map_of items k = Some a \<and> \<not> erases a}"
  have keys: "overlay_keys erases items S = (S - Collect ?er) \<union> ?L"
    by (auto simp: overlay_keys_def split: option.splits)
  have er: "k \<in> fst ` set items" if "?er k" for k using that in_keys [of items k] by (auto split: option.splits)
  have "card {k \<in> fst ` set items. key < k} \<le> card (fst ` set items)" by (intro card_mono) auto
  also have "\<dots> \<le> length items" by (metis card_image_le card_length finite_set order.trans)
  finally have "card {k \<in> fst ` set items. key < k} < Suc (length items)" by simp
  then obtain r where r: "succ_base (Suc (length items)) (\<lambda>k. bsucc k lst) ?er key = Some r"
      "is_succ (S - Collect ?er) key lst r"
    using succ_base_finds [of S lst "\<lambda>k. bsucc k lst" "fst ` set items" ?er key "Suc (length items)"] base er by auto
  show ?thesis
  proof (cases "filter (\<lambda>p. \<not> erases (snd p)) (upper_bound key items)")
    case Nil
    then have "\<And>k. key < k \<Longrightarrow> k \<notin> ?L" using live_items [OF a, of erases key] by force
    then have succ: "is_succ (overlay_keys erases items S) key lst r"
      using r(2) unfolding keys by (auto simp: is_succ_def split: option.splits)
    moreover have "overlay_succ bsucc erases items key lst = Some r"
      using r succ Nil by (cases r; cases lst) (auto simp: overlay_succ_def succ_items_def is_succ_def below_Some)
    ultimately show ?thesis by blast
  next
    case (Cons p ps)
    define n where "n = (case r of None \<Rightarrow> fst p | Some m \<Rightarrow> if m > fst p then fst p else m)"
    have "is_succ (overlay_keys erases items S) key lst (if below lst n then Some n else None)"
    proof (rule is_succ_merge [OF r(2) keys _ _ _ n_def])
      show "fst p \<in> ?L" "key < fst p" using least_live(1,2) [OF a Cons] by simp_all
      show "fst p \<le> k" if "k \<in> ?L" "key < k" for k using least_live(3) [OF a Cons] that by blast
    qed
    moreover have "overlay_succ bsucc erases items key lst = Some (if below lst n then Some n else None)"
      using r(1) Cons n_def
      by (cases r; cases lst) (auto simp: overlay_succ_def succ_items_def below_Some below_def)
    ultimately show ?thesis by blast
  qed
qed

subsection \<open>The open view\<close>

definition open_succ :: "('k, 'v) rview \<Rightarrow> ('k::linorder, 'v) raw_table \<Rightarrow> 'k \<Rightarrow> 'k option \<Rightarrow> 'k option" where
  "open_succ base t key lst = (case raw_succ base t key lst of None \<Rightarrow> None | Some r \<Rightarrow> r)"

definition open_rview :: "('k, 'v) rview \<Rightarrow> ('k::linorder, 'v) raw_table \<Rightarrow> ('k, 'v) rview" where
  "open_rview base t = \<lparr>rv_exists = raw_exists base t, rv_read = raw_read base t, rv_succ = open_succ base t\<rparr>"

definition raw_content :: "('k \<Rightarrow> 'v option) \<Rightarrow> ('k, 'v) raw_table \<Rightarrow> 'k \<Rightarrow> 'v option" where
  "raw_content m t k =
     (case map_of (rt_items t) k of None \<Rightarrow> m k | Some (a, sle) \<Rightarrow> if a = RawErase then None else Some sle)"

definition raw_ok :: "('k \<Rightarrow> 'v option) \<Rightarrow> ('k::linorder, 'v) raw_table \<Rightarrow> bool" where
  "raw_ok m t \<longleftrightarrow> ascending (rt_items t) \<and>
     (\<forall>k a sle. map_of (rt_items t) k = Some (a, sle) \<longrightarrow> (a = RawInsert \<longleftrightarrow> m k = None))"

lemma raw_okD: "raw_ok m t \<Longrightarrow> map_of (rt_items t) k = Some (a, sle) \<Longrightarrow> a = RawInsert \<longleftrightarrow> m k = None"
  unfolding raw_ok_def by blast

lemma dom_raw_content: "dom (raw_content m t) = overlay_keys (\<lambda>a. fst a = RawErase) (rt_items t) (dom m)"
  by (auto simp: raw_content_def overlay_keys_def split: option.splits if_splits)

context read_view
begin

lemma open_on:
  "read_view (\<lambda>(s, t). open_rview (view s) t) (\<lambda>(s, t). raw_content (content s) t)
     (\<lambda>(s, t). ok s \<and> raw_ok (content s) t)"
proof
  fix st :: "'s \<times> ('k, 'v) raw_table" and k :: "('k, 'v) keylet" and key lst
  obtain s t where st: "st = (s, t)" by (cases st)
  assume "case st of (s, t) \<Rightarrow> ok s \<and> raw_ok (content s) t"
  then have ok: "ok s" "raw_ok (content s) t" by (auto simp: st)
  show "rv_read (case st of (s, t) \<Rightarrow> open_rview (view s) t) k =
      checked k ((case st of (s, t) \<Rightarrow> raw_content (content s) t) (kl_key k))"
    using read_law [OF ok(1), of k]
    by (auto simp: st open_rview_def raw_read_def raw_content_def checked_def split: option.splits)
  show "rv_exists (case st of (s, t) \<Rightarrow> open_rview (view s) t) k"
    if "rv_read (case st of (s, t) \<Rightarrow> open_rview (view s) t) k \<noteq> None"
    using that exists_law [OF ok(1), of k]
    by (auto simp: st open_rview_def raw_read_def raw_exists_def split: option.splits if_splits)
  show "\<not> rv_exists (case st of (s, t) \<Rightarrow> open_rview (view s) t) k"
    if "(case st of (s, t) \<Rightarrow> raw_content (content s) t) (kl_key k) = None"
    using that absent_law [OF ok(1), of k]
    by (auto simp: st open_rview_def raw_content_def raw_exists_def split: option.splits if_splits)
  obtain r where "overlay_succ (rv_succ (view s)) (\<lambda>a. fst a = RawErase) (rt_items t) key lst = Some r"
      "is_succ (dom (raw_content (content s) t)) key lst r"
    using overlay_succ_least [of "dom (content s)" lst "rv_succ (view s)" "rt_items t" "\<lambda>a. fst a = RawErase" key]
      succ_law [OF ok(1)] ok(2) unfolding dom_raw_content raw_ok_def by auto
  then show "is_succ (dom (case st of (s, t) \<Rightarrow> raw_content (content s) t)) key lst
      (rv_succ (case st of (s, t) \<Rightarrow> open_rview (view s) t) key lst)"
    by (simp add: st open_rview_def open_succ_def raw_succ_def)
qed

end

interpretation open_view: read_view
  "\<lambda>(l, t). open_rview (ledger_rview l) t" "\<lambda>(l, t). raw_content (ledger_content l) t"
  "\<lambda>(l, t). closed_ok l \<and> raw_ok (ledger_content l) t"
  by (rule ledger_view.open_on)

text \<open>Each raw change of the open table, on what the table shows.\<close>

lemma raw_erase_content:
  assumes "raw_ok m t" "raw_content m t k \<noteq> None"
  shows "\<exists>t'. raw_erase k sle t = Inr t' \<and> raw_ok m t' \<and> raw_content m t' = (raw_content m t)(k := None) \<and>
    rt_dropsDestroyed t' = rt_dropsDestroyed t"
proof (cases "map_of (rt_items t) k")
  case None
  with assms show ?thesis
    by (auto simp: raw_erase_def raw_ok_def raw_content_def fun_eq_iff ascending_insert map_of_map_insert)
next
  case (Some x)
  with assms in_keys [of "rt_items t" k] show ?thesis
    by (cases "fst x"; cases x)
      (auto simp: raw_erase_def raw_ok_def raw_content_def fun_eq_iff ascending_delete ascending_update
        map_of_delete map_of_update)
qed

lemma raw_insert_content:
  assumes "raw_ok m t" "raw_content m t k = None"
  shows "\<exists>t'. raw_insert k sle t = Inr t' \<and> raw_ok m t' \<and> raw_content m t' = (raw_content m t)(k \<mapsto> sle) \<and>
    rt_dropsDestroyed t' = rt_dropsDestroyed t"
proof (cases "map_of (rt_items t) k")
  case None
  with assms show ?thesis
    by (auto simp: raw_insert_def raw_ok_def raw_content_def fun_eq_iff ascending_insert map_of_map_insert)
next
  case (Some x)
  with assms in_keys [of "rt_items t" k] show ?thesis
    by (cases "fst x"; cases x)
      (auto simp: raw_insert_def raw_ok_def raw_content_def fun_eq_iff ascending_update map_of_update)
qed

lemma raw_replace_content:
  assumes "raw_ok m t" "raw_content m t k \<noteq> None"
  shows "\<exists>t'. raw_replace k sle t = Inr t' \<and> raw_ok m t' \<and> raw_content m t' = (raw_content m t)(k \<mapsto> sle) \<and>
    rt_dropsDestroyed t' = rt_dropsDestroyed t"
proof (cases "map_of (rt_items t) k")
  case None
  with assms show ?thesis
    by (auto simp: raw_replace_def raw_ok_def raw_content_def fun_eq_iff ascending_insert map_of_map_insert)
next
  case (Some x)
  with assms in_keys [of "rt_items t" k] show ?thesis
    by (cases "fst x"; cases x)
      (auto simp: raw_replace_def raw_ok_def raw_content_def fun_eq_iff ascending_update map_of_update)
qed

interpretation open_target: raw_target to_table "raw_content m" "\<lambda>t. - rt_dropsDestroyed t" "raw_ok m" for m
proof
  fix t :: "('a::linorder, 'b) raw_table" and k sle fee
  assume ok: "raw_ok m t"
  show "\<exists>t'. w_erase to_table k sle t = Inr t' \<and> raw_ok m t' \<and>
      raw_content m t' = (raw_content m t)(k := None) \<and> - rt_dropsDestroyed t' = - rt_dropsDestroyed t"
    if "raw_content m t k \<noteq> None"
    using raw_erase_content [OF ok that] by (auto simp: to_table_def)
  show "\<exists>t'. w_insert to_table k sle t = Inr t' \<and> raw_ok m t' \<and>
      raw_content m t' = (raw_content m t)(k \<mapsto> sle) \<and> - rt_dropsDestroyed t' = - rt_dropsDestroyed t"
    if "raw_content m t k = None"
    using raw_insert_content [OF ok that] by (auto simp: to_table_def)
  show "\<exists>t'. w_replace to_table k sle t = Inr t' \<and> raw_ok m t' \<and>
      raw_content m t' = (raw_content m t)(k \<mapsto> sle) \<and> - rt_dropsDestroyed t' = - rt_dropsDestroyed t"
    if "raw_content m t k \<noteq> None"
    using raw_replace_content [OF ok that] by (auto simp: to_table_def)
  show "raw_ok m (w_destroy to_table fee t) \<and> raw_content m (w_destroy to_table fee t) = raw_content m t \<and>
      - rt_dropsDestroyed (w_destroy to_table fee t) = - rt_dropsDestroyed t - fee"
    using ok by (auto simp: to_table_def raw_destroyXRP_def raw_ok_def raw_content_def fun_eq_iff)
qed

text \<open>Replaying the open table on a view of the content it lies over.\<close>

lemma changed_by_map:
  "changed_by (map (\<lambda>(k, a). (k, f a)) items) m k = (case map_of items k of None \<Rightarrow> m k | Some a \<Rightarrow> changed (f a) (m k))"
  by (simp add: changed_by_def map_of_map split: option.split)

lemma keys_of_changes: "map fst (map (\<lambda>(k, a). (k, f a)) items) = map fst items"
  by (induction items) auto

context raw_target
begin

lemma raw_apply_content:
  assumes "ok r" "raw_ok (content r) t"
  shows "\<exists>r'. raw_apply w t r = Inr r' \<and> ok r' \<and>
    content r' = raw_content (content r) t \<and> drops r' = drops r - rt_dropsDestroyed t"
proof -
  let ?m = "content r" and ?cs = "map (\<lambda>(k, a). (k, raw_change a)) (rt_items t)"
  have a: "ascending (rt_items t)" using assms(2) by (simp add: raw_ok_def)
  have "distinct (map fst ?cs)" using ascending_distinct [OF a] by (simp only: keys_of_changes keys_distinct_def)
  moreover have "\<forall>(k, c) \<in> set ?cs. fits c (?m k)"
  proof clarify
    fix k c assume "(k, c) \<in> set ?cs"
    then obtain b sle where "(k, (b, sle)) \<in> set (rt_items t)" "c = raw_change (b, sle)" by auto
    moreover from this have "b = RawInsert \<longleftrightarrow> ?m k = None"
      using raw_okD [OF assms(2), of k b sle] ascending_map_of [OF a] by blast
    ultimately show "fits c (?m k)" by (cases b) simp_all
  qed
  moreover have "changed_by ?cs ?m = raw_content ?m t"
  proof
    fix k show "changed_by ?cs ?m k = raw_content ?m t k"
      unfolding changed_by_map raw_content_def
      by (auto split: option.split) (rename_tac b v; case_tac b; simp)+
  qed
  ultimately show ?thesis
    using replay_after_destroy [OF assms(1), of ?cs "rt_dropsDestroyed t"] by (simp add: raw_apply_def)
qed

end

subsection \<open>The table of a transaction\<close>

definition at_content :: "('k \<Rightarrow> 'v option) \<Rightarrow> ('k, 'v) apply_table \<Rightarrow> 'k \<Rightarrow> 'v option" where
  "at_content m t k =
     (case map_of (at_items t) k of None \<Rightarrow> m k | Some (a, p) \<Rightarrow> if a = Erase then None else Some (sle_at t p))"

text \<open>What replaying the table makes of the content below: a cached entry is not written.\<close>

definition committed :: "('k \<Rightarrow> 'v option) \<Rightarrow> ('k, 'v) apply_table \<Rightarrow> 'k \<Rightarrow> 'v option" where
  "committed m t k = (case map_of (at_items t) k of None \<Rightarrow> m k | Some a \<Rightarrow> changed (apply_change t a) (m k))"

definition at_ok :: "('k \<Rightarrow> 'v option) \<Rightarrow> ('k::linorder, 'v) apply_table \<Rightarrow> bool" where
  "at_ok m t \<longleftrightarrow> ascending (at_items t) \<and>
     (\<forall>k a p. map_of (at_items t) k = Some (a, p) \<longrightarrow> key_at t p = k \<and> p < at_fresh t \<and> (a = Insert \<longleftrightarrow> m k = None))"

lemma at_okD:
  assumes "at_ok m t" "map_of (at_items t) k = Some (a, p)"
  shows "key_at t p = k" "p < at_fresh t" "a = Insert \<longleftrightarrow> m k = None"
  using assms unfolding at_ok_def by blast+

text \<open>No entry was edited without a call of \<open>update\<close>.\<close>

definition at_clean :: "('k \<Rightarrow> 'v option) \<Rightarrow> ('k, 'v) apply_table \<Rightarrow> bool" where
  "at_clean m t \<longleftrightarrow> (\<forall>k p. map_of (at_items t) k = Some (Cache, p) \<longrightarrow> m k = Some (sle_at t p))"

lemma committed_clean: "at_clean m t \<Longrightarrow> committed m t = at_content m t"
proof
  fix k assume "at_clean m t"
  then show "committed m t k = at_content m t k"
    by (auto simp: committed_def at_content_def at_clean_def apply_change_def split: option.split Action.split)
qed

lemma dom_at_content: "dom (at_content m t) = overlay_keys (\<lambda>a. fst a = Erase) (at_items t) (dom m)"
  by (auto simp: at_content_def overlay_keys_def split: option.splits if_splits)

definition no_changes :: "('k, 'v) apply_table" where
  "no_changes = \<lparr>at_items = [], at_dropsDestroyed = 0, at_store = (\<lambda>_. undefined), at_fresh = 0\<rparr>"

context raw_target
begin

lemma apply_apply_content:
  assumes "ok r" "at_ok (content r) t"
  shows "\<exists>r'. apply_apply w t r = Inr r' \<and> ok r' \<and>
    content r' = committed (content r) t \<and> drops r' = drops r - at_dropsDestroyed t"
proof -
  let ?m = "content r" and ?cs = "map (\<lambda>(k, a). (k, apply_change t a)) (at_items t)"
  have a: "ascending (at_items t)" using assms(2) by (simp add: at_ok_def)
  have "distinct (map fst ?cs)" using ascending_distinct [OF a] by (simp only: keys_of_changes keys_distinct_def)
  moreover have "\<forall>(k, c) \<in> set ?cs. fits c (?m k)"
  proof clarify
    fix k c assume "(k, c) \<in> set ?cs"
    then obtain b p where "(k, (b, p)) \<in> set (at_items t)" "c = apply_change t (b, p)" by auto
    moreover from this have "b = Insert \<longleftrightarrow> ?m k = None"
      using at_okD(3) [OF assms(2), of k b p] ascending_map_of [OF a] by blast
    ultimately show "fits c (?m k)" by (cases b) (simp_all add: apply_change_def)
  qed
  moreover have "changed_by ?cs ?m = committed ?m t"
    by (simp add: fun_eq_iff changed_by_map committed_def)
  ultimately show ?thesis
    using replay_after_destroy [OF assms(1), of ?cs "at_dropsDestroyed t"] by (simp add: apply_apply_def)
qed

end

text \<open>Reading through the table is reading its content.\<close>

context read_view
begin

lemma apply_read_content:
  assumes "ok s"
  shows "apply_read (view s) t k = checked k (at_content (content s) t (kl_key k))"
  using read_law [OF assms, of k]
  by (auto simp: apply_read_def at_content_def checked_def split: option.splits)

lemma apply_exists_content:
  assumes "ok s" "apply_read (view s) t k \<noteq> None"
  shows "apply_exists (view s) t k"
  using exists_law [OF assms(1), of k] assms(2)
  by (auto simp: apply_read_def apply_exists_def split: option.splits if_splits)

lemma apply_succ_content:
  assumes "ok s" "at_ok (content s) t"
  shows "\<exists>r. apply_succ (view s) t key lst = Some r \<and> is_succ (dom (at_content (content s) t)) key lst r"
  using overlay_succ_least [of "dom (content s)" lst "rv_succ (view s)" "at_items t" "\<lambda>a. fst a = Erase" key]
    succ_law [OF assms(1)] assms(2) unfolding dom_at_content at_ok_def apply_succ_def by auto

end

text \<open>What an item added or changed does to the content, and what a new object or an edit does.\<close>

lemma sle_at_items [simp]: "sle_at (t\<lparr>at_items := x\<rparr>) p = sle_at t p" "key_at (t\<lparr>at_items := x\<rparr>) p = key_at t p"
  by (simp_all add: sle_at_def key_at_def)

lemma at_content_items:
  "map_of items = (map_of (at_items t))(k \<mapsto> (a, p)) \<Longrightarrow>
   at_content m (t\<lparr>at_items := items\<rparr>) = (at_content m t)(k := if a = Erase then None else Some (sle_at t p))"
  by (auto simp: at_content_def fun_eq_iff split: option.split)

lemma at_content_drop:
  "m k = None \<Longrightarrow> map_of items = (map_of (at_items t))(k := None) \<Longrightarrow>
   at_content m (t\<lparr>at_items := items\<rparr>) = (at_content m t)(k := None)"
  by (auto simp: at_content_def fun_eq_iff split: option.split)

lemma at_ok_items:
  assumes "at_ok m t" "ascending items" "map_of items = (map_of (at_items t))(k \<mapsto> (a, p))"
    "key_at t p = k" "p < at_fresh t" "a = Insert \<longleftrightarrow> m k = None"
  shows "at_ok m (t\<lparr>at_items := items\<rparr>)"
  using assms unfolding at_ok_def by auto

lemma at_ok_drop:
  assumes "at_ok m t" "ascending items" "map_of items = (map_of (at_items t))(k := None)"
  shows "at_ok m (t\<lparr>at_items := items\<rparr>)"
  using assms unfolding at_ok_def by auto

lemma at_clean_items:
  assumes "at_clean m t" "map_of items = (map_of (at_items t))(k := x)" "\<And>p. x = Some (Cache, p) \<Longrightarrow> m k = Some (sle_at t p)"
  shows "at_clean m (t\<lparr>at_items := items\<rparr>)"
  using assms unfolding at_clean_def by auto

lemma make_sle_keeps:
  assumes "at_ok m t" "make_sle k sle t = (p, t')"
  shows "at_ok m t'" "at_content m t' = at_content m t" "at_items t' = at_items t" "sle_at t' p = sle" "key_at t' p = k"
    "p < at_fresh t'" "at_dropsDestroyed t' = at_dropsDestroyed t" "at_clean m t \<Longrightarrow> at_clean m t'"
proof -
  have p: "p = at_fresh t" and t': "t' = t\<lparr>at_store := (at_store t)(at_fresh t := (k, sle)), at_fresh := at_fresh t + 1\<rparr>"
    using assms(2) by (auto simp: make_sle_def)
  have old: "sle_at t' q = sle_at t q" "key_at t' q = key_at t q" if "map_of (at_items t) j = Some (a, q)" for j a q
    using at_okD(2) [OF assms(1) that] by (auto simp: t' sle_at_def key_at_def)
  show "at_items t' = at_items t" "sle_at t' p = sle" "key_at t' p = k" "p < at_fresh t'"
      "at_dropsDestroyed t' = at_dropsDestroyed t"
    by (simp_all add: t' p sle_at_def key_at_def)
  show "at_content m t' = at_content m t"
    using old by (auto simp: fun_eq_iff at_content_def t' split: option.splits)
  show "at_ok m t'" using assms(1) old unfolding at_ok_def by (fastforce simp: t')
  show "at_clean m t'" if "at_clean m t" using that old unfolding at_clean_def by (simp add: t')
qed

lemma write_sle_keeps:
  assumes "at_ok m t" "map_of (at_items t) k = Some (a, p)" "a \<noteq> Erase"
  shows "at_ok m (write_sle p sle t)" "at_content m (write_sle p sle t) = (at_content m t)(k \<mapsto> sle)"
    "at_items (write_sle p sle t) = at_items t" "key_at (write_sle p sle t) = key_at t" "sle_at (write_sle p sle t) p = sle"
    "at_dropsDestroyed (write_sle p sle t) = at_dropsDestroyed t"
    "\<And>j b q. map_of (at_items t) j = Some (b, q) \<Longrightarrow> j \<noteq> k \<Longrightarrow> sle_at (write_sle p sle t) q = sle_at t q"
proof -
  show items: "at_items (write_sle p sle t) = at_items t" and key: "key_at (write_sle p sle t) = key_at t"
    and v: "sle_at (write_sle p sle t) p = sle" and "at_dropsDestroyed (write_sle p sle t) = at_dropsDestroyed t"
    by (auto simp: write_sle_def key_at_def sle_at_def fun_eq_iff)
  show other: "sle_at (write_sle p sle t) q = sle_at t q" if "map_of (at_items t) j = Some (b, q)" "j \<noteq> k" for j b q
  proof -
    have "q \<noteq> p" using at_okD(1) [OF assms(1,2)] at_okD(1) [OF assms(1) that(1)] that(2) by blast
    then show ?thesis by (simp add: write_sle_def sle_at_def)
  qed
  show "at_ok m (write_sle p sle t)"
    using assms(1) unfolding at_ok_def items key by (simp add: write_sle_def)
  show "at_content m (write_sle p sle t) = (at_content m t)(k \<mapsto> sle)"
  proof
    fix j show "at_content m (write_sle p sle t) j = ((at_content m t)(k \<mapsto> sle)) j"
      using assms(2,3) other v by (cases "j = k") (auto simp: at_content_def items split: option.splits)
  qed
qed

text \<open>Taking an entry for editing caches it and changes nothing.\<close>

context read_view
begin

lemma apply_peek_content:
  assumes "ok s" "at_ok (content s) t" "apply_peek (view s) k t = (r, t')"
  shows "at_ok (content s) t'" "at_content (content s) t' = at_content (content s) t"
    "at_dropsDestroyed t' = at_dropsDestroyed t" "at_clean (content s) t \<Longrightarrow> at_clean (content s) t'"
    "case r of None \<Rightarrow> checked k (at_content (content s) t (kl_key k)) = None
     | Some p \<Rightarrow> checked k (at_content (content s) t (kl_key k)) = Some (sle_at t' p) \<and>
         (\<exists>a. a \<noteq> Erase \<and> map_of (at_items t') (kl_key k) = Some (a, p))"
proof -
  let ?m = "content s"
  let ?goal = "at_ok ?m t' \<and> at_content ?m t' = at_content ?m t \<and> at_dropsDestroyed t' = at_dropsDestroyed t \<and>
    (at_clean ?m t \<longrightarrow> at_clean ?m t') \<and>
    (case r of None \<Rightarrow> checked k (at_content ?m t (kl_key k)) = None
     | Some p \<Rightarrow> checked k (at_content ?m t (kl_key k)) = Some (sle_at t' p) \<and>
         (\<exists>a. a \<noteq> Erase \<and> map_of (at_items t') (kl_key k) = Some (a, p)))"
  have ?goal
  proof (cases "map_of (at_items t) (kl_key k)")
    case (Some x)
    with assms(3) show ?thesis using assms(2)
      by (cases x) (auto simp: apply_peek_def at_content_def checked_def split: if_splits)
  next
    case None
    show ?thesis
    proof (cases "rv_read (view s) k")
      case r: None
      with None assms show ?thesis
        using read_law [OF assms(1), of k] by (simp add: apply_peek_def at_content_def)
    next
      case (Some sle)
      then have m: "?m (kl_key k) = Some sle" "kl_check k sle"
        using read_law [OF assms(1), of k] by (auto simp: checked_def split: option.splits if_splits)
      obtain p t1 where mk: "make_sle (kl_key k) sle t = (p, t1)" by (cases "make_sle (kl_key k) sle t")
      note made = make_sle_keeps [OF assms(2) mk]
      let ?items = "map_insert (kl_key k) (Cache, p) (at_items t1)"
      have r: "r = Some p" "t' = t1\<lparr>at_items := ?items\<rparr>"
        using assms(3) None Some mk by (simp_all add: apply_peek_def)
      have asc: "ascending (at_items t)" using assms(2) by (simp add: at_ok_def)
      have items: "map_of ?items = (map_of (at_items t1))(kl_key k \<mapsto> (Cache, p))"
        using map_of_map_insert [OF asc] None made(3) by simp
      have "at_ok ?m t'" unfolding r(2)
        using at_ok_items [OF made(1) _ items] ascending_insert [OF asc] made(3,5,6) m by simp
      moreover have "at_content ?m t' = at_content ?m t"
        unfolding r(2) at_content_items [OF items] using made(2,4) m None by (auto simp: fun_eq_iff at_content_def)
      moreover have "at_clean ?m t'" if "at_clean ?m t"
        unfolding r(2) using at_clean_items [OF made(8) [OF that] items] made(4) m by simp
      ultimately show ?thesis
        using r m made(4,7) items None by (simp add: at_content_def checked_def)
    qed
  qed
  then show "at_ok (content s) t'" "at_content (content s) t' = at_content (content s) t"
    "at_dropsDestroyed t' = at_dropsDestroyed t" "at_clean (content s) t \<Longrightarrow> at_clean (content s) t'"
    "case r of None \<Rightarrow> checked k (at_content (content s) t (kl_key k)) = None
     | Some p \<Rightarrow> checked k (at_content (content s) t (kl_key k)) = Some (sle_at t' p) \<and>
         (\<exists>a. a \<noteq> Erase \<and> map_of (at_items t') (kl_key k) = Some (a, p))"
    by blast+
qed

end

text \<open>An entry that was taken for editing, changed and reported.\<close>

lemma edit_content:
  assumes "at_ok m t" "at_clean m t" "map_of (at_items t) k = Some (a, p)" "a \<noteq> Erase"
  shows "\<exists>t'. apply_update p (write_sle p sle t) = Inr t' \<and> at_ok m t' \<and> at_clean m t' \<and>
    at_content m t' = (at_content m t)(k \<mapsto> sle) \<and> at_dropsDestroyed t' = at_dropsDestroyed t"
proof -
  let ?t = "write_sle p sle t"
  note w = write_sle_keeps [OF assms(1,3,4), where sle = sle]
  have key: "key_at t p = k" by (rule at_okD(1) [OF assms(1,3)])
  let ?b = "if a = Cache then Modify else a"
  let ?items = "AList.update k (?b, p) (at_items t)"
  have items: "map_of ?items = (map_of (at_items ?t))(k \<mapsto> (?b, p))" by (simp add: update_conv' w(3))
  have asc: "ascending (at_items t)" using assms(1) by (simp add: at_ok_def)
  have up: "apply_update p ?t = Inr (if a = Cache then ?t\<lparr>at_items := ?items\<rparr> else ?t)"
    using assms(3,4) by (cases a) (simp_all add: apply_update_def w(3,4) key)
  show ?thesis
  proof (cases "a = Cache")
    case True
    have "at_ok m (?t\<lparr>at_items := ?items\<rparr>)"
      using at_ok_items [OF w(1) _ items] ascending_update [OF asc, of k] in_keys [of "at_items t" k] assms(3) key w(4)
        at_okD(2,3) [OF w(1), of k a p] True by (simp add: w(3))
    moreover have "at_clean m (?t\<lparr>at_items := ?items\<rparr>)"
      unfolding at_clean_def
    proof (intro allI impI)
      fix j q assume "map_of (at_items (?t\<lparr>at_items := ?items\<rparr>)) j = Some (Cache, q)"
      then have "j \<noteq> k" "map_of (at_items t) j = Some (Cache, q)" using True by (auto simp: map_of_update split: if_splits)
      then show "m j = Some (sle_at (?t\<lparr>at_items := ?items\<rparr>) q)"
        using assms(2) w(7) [of j Cache q] unfolding at_clean_def by simp
    qed
    moreover have "at_content m (?t\<lparr>at_items := ?items\<rparr>) = (at_content m t)(k \<mapsto> sle)"
      unfolding at_content_items [OF items] using True w(2,5) by simp
    ultimately show ?thesis using up True w(6) by simp
  next
    case False
    have "at_clean m ?t"
      unfolding at_clean_def
    proof (intro allI impI)
      fix j q assume "map_of (at_items ?t) j = Some (Cache, q)"
      then have "j \<noteq> k" "map_of (at_items t) j = Some (Cache, q)" using False assms(3) by (auto simp: w(3))
      then show "m j = Some (sle_at ?t q)" using assms(2) w(7) [of j Cache q] unfolding at_clean_def by simp
    qed
    then show ?thesis using up False w(1,2,6) by simp
  qed
qed

text \<open>Erasing it.\<close>

lemma apply_erase_content:
  assumes "at_ok m t" "at_clean m t" "map_of (at_items t) k = Some (a, p)" "a \<noteq> Erase"
  shows "\<exists>t'. apply_erase p t = Inr t' \<and> at_ok m t' \<and> at_clean m t' \<and>
    at_content m t' = (at_content m t)(k := None) \<and> at_dropsDestroyed t' = at_dropsDestroyed t"
proof -
  note k = at_okD [OF assms(1,3)]
  have asc: "ascending (at_items t)" using assms(1) by (simp add: at_ok_def)
  show ?thesis
  proof (cases "a = Insert")
    case True
    let ?items = "AList.delete k (at_items t)"
    have items: "map_of ?items = (map_of (at_items t))(k := None)" by (rule delete_conv')
    have "apply_erase p t = Inr (t\<lparr>at_items := ?items\<rparr>)" using assms(3) k True by (simp add: apply_erase_def)
    moreover have "at_ok m (t\<lparr>at_items := ?items\<rparr>)"
      using at_ok_drop [OF assms(1) ascending_delete [OF asc] items] .
    moreover have "at_clean m (t\<lparr>at_items := ?items\<rparr>)" using at_clean_items [OF assms(2) items] by simp
    ultimately show ?thesis using at_content_drop [OF _ items] k True by auto
  next
    case False
    let ?items = "AList.update k (Erase, p) (at_items t)"
    have items: "map_of ?items = (map_of (at_items t))(k \<mapsto> (Erase, p))" by (rule update_conv')
    have "apply_erase p t = Inr (t\<lparr>at_items := ?items\<rparr>)"
      using assms(3,4) k False by (cases a) (simp_all add: apply_erase_def)
    moreover have "at_ok m (t\<lparr>at_items := ?items\<rparr>)"
      using at_ok_items [OF assms(1) _ items] ascending_update [OF asc, of k] in_keys [of "at_items t" k] assms(3) k False by simp
    moreover have "at_clean m (t\<lparr>at_items := ?items\<rparr>)" using at_clean_items [OF assms(2) items] by simp
    ultimately show ?thesis using at_content_items [OF items] by auto
  qed
qed

text \<open>Adding one.\<close>

lemma apply_insert_content:
  assumes "at_ok m t" "at_clean m t" "at_content m t k = None" "key_at t p = k" "p < at_fresh t"
  shows "\<exists>t'. apply_insert p t = Inr t' \<and> at_ok m t' \<and> at_clean m t' \<and>
    at_content m t' = (at_content m t)(k \<mapsto> sle_at t p) \<and> at_dropsDestroyed t' = at_dropsDestroyed t"
proof -
  have asc: "ascending (at_items t)" using assms(1) by (simp add: at_ok_def)
  show ?thesis
  proof (cases "map_of (at_items t) k")
    case None
    let ?items = "map_insert k (Insert, p) (at_items t)"
    have items: "map_of ?items = (map_of (at_items t))(k \<mapsto> (Insert, p))" using map_of_map_insert [OF asc] None by simp
    have "m k = None" using assms(3) None by (simp add: at_content_def)
    then have "at_ok m (t\<lparr>at_items := ?items\<rparr>)"
      using at_ok_items [OF assms(1) ascending_insert [OF asc] items assms(4,5)] by simp
    moreover have "at_clean m (t\<lparr>at_items := ?items\<rparr>)" using at_clean_items [OF assms(2) items] by simp
    moreover have "apply_insert p t = Inr (t\<lparr>at_items := ?items\<rparr>)" using None assms(4) by (simp add: apply_insert_def)
    ultimately show ?thesis using at_content_items [OF items] by auto
  next
    case (Some x)
    then obtain q where x: "x = (Erase, q)" using assms(3) by (cases x) (auto simp: at_content_def split: if_splits)
    let ?items = "AList.update k (Modify, p) (at_items t)"
    have items: "map_of ?items = (map_of (at_items t))(k \<mapsto> (Modify, p))" by (rule update_conv')
    have "at_ok m (t\<lparr>at_items := ?items\<rparr>)"
      using at_ok_items [OF assms(1) _ items assms(4,5)] ascending_update [OF asc, of k] in_keys [of "at_items t" k]
        at_okD(3) [OF assms(1), of k Erase q] Some x by simp
    moreover have "at_clean m (t\<lparr>at_items := ?items\<rparr>)" using at_clean_items [OF assms(2) items] by simp
    moreover have "apply_insert p t = Inr (t\<lparr>at_items := ?items\<rparr>)" using Some x assms(4) by (simp add: apply_insert_def)
    ultimately show ?thesis using at_content_items [OF items] by auto
  qed
qed

end
