(* ===== verification/StateSessions.thy ===== *)
theory StateSessions
  imports StateLayers
begin

section \<open>Runs through the layers\<close>

text \<open>
  What transaction code does with a view, as a list of operations, run in two ways: through the table
  of a transaction over an open view, and on the closed ledger directly. The second is the reference;
  the first is shown to observe the same and, once the tables are replayed, to leave the same ledger.
\<close>

subsection \<open>Operations and their two runs\<close>

datatype ('k, 'v) op =
    LookUp "('k, 'v) keylet"
  | Successor 'k "'k option"
  | Edit "('k, 'v) keylet" "'v \<Rightarrow> 'v"
  | Remove "('k, 'v) keylet"
  | Add 'k 'v
  | Burn int

datatype ('k, 'v) observed = Saw "'v option" | SawKey "'k option" | Silent

text \<open>On the ledger itself.\<close>

fun direct_op :: "('k::linorder, 'v) op \<Rightarrow> ('k, 'v) closed \<Rightarrow> (('k, 'v) observed \<times> ('k, 'v) closed) result" where
  "direct_op (LookUp k) l = Inr (Saw (ledger_read l k), l)"
| "direct_op (Successor key lst) l = Inr (SawKey (ledger_succ l key lst), l)"
| "direct_op (Edit k f) l =
     (case ledger_read l k of
        None \<Rightarrow> Inr (Saw None, l)
      | Some sle \<Rightarrow> (case ledger_rawReplace (kl_key k) (f sle) l of Inl ex \<Rightarrow> Inl ex | Inr l' \<Rightarrow> Inr (Saw (Some sle), l')))"
| "direct_op (Remove k) l =
     (case ledger_read l k of
        None \<Rightarrow> Inr (Saw None, l)
      | Some sle \<Rightarrow> (case ledger_rawErase (kl_key k) l of Inl ex \<Rightarrow> Inl ex | Inr l' \<Rightarrow> Inr (Saw (Some sle), l')))"
| "direct_op (Add k sle) l = (case ledger_rawInsert k sle l of Inl ex \<Rightarrow> Inl ex | Inr l' \<Rightarrow> Inr (Silent, l'))"
| "direct_op (Burn fee) l = Inr (Silent, ledger_rawDestroyXRP fee l)"

text \<open>Through the table of a transaction: \<open>peek\<close>, an edit through the pointer, \<open>update\<close>.\<close>

fun table_op :: "('k, 'v) rview \<Rightarrow> ('k::linorder, 'v) op \<Rightarrow> ('k, 'v) apply_table \<Rightarrow> (('k, 'v) observed \<times> ('k, 'v) apply_table) result" where
  "table_op base (LookUp k) t = Inr (Saw (apply_read base t k), t)"
| "table_op base (Successor key lst) t =
     (case apply_succ base t key lst of
        None \<Rightarrow> Inl (LogicError ''succ'')
      | Some r \<Rightarrow> Inr (SawKey r, t))"
| "table_op base (Edit k f) t =
     (case apply_peek base k t of
        (None, t1) \<Rightarrow> Inr (Saw None, t1)
      | (Some p, t1) \<Rightarrow>
          (case apply_update p (write_sle p (f (sle_at t1 p)) t1) of
             Inl ex \<Rightarrow> Inl ex
           | Inr t' \<Rightarrow> Inr (Saw (Some (sle_at t1 p)), t')))"
| "table_op base (Remove k) t =
     (case apply_peek base k t of
        (None, t1) \<Rightarrow> Inr (Saw None, t1)
      | (Some p, t1) \<Rightarrow>
          (case apply_erase p t1 of
             Inl ex \<Rightarrow> Inl ex
           | Inr t' \<Rightarrow> Inr (Saw (Some (sle_at t1 p)), t')))"
| "table_op base (Add k sle) t =
     (case make_sle k sle t of (p, t1) \<Rightarrow>
        (case apply_insert p t1 of Inl ex \<Rightarrow> Inl ex | Inr t' \<Rightarrow> Inr (Silent, t')))"
| "table_op base (Burn fee) t = Inr (Silent, apply_destroyXRP fee t)"

text \<open>
  One transaction after the other on an open view: each has a table of its own, which is replayed on
  the open view or dropped.
\<close>

fun open_tx :: "('k, 'v) rview \<Rightarrow> bool \<times> ('k::linorder, 'v) op list \<Rightarrow> ('k, 'v) raw_table \<Rightarrow>
    (('k, 'v) observed list \<times> ('k, 'v) raw_table) result" where
  "open_tx base (keep, ops) t =
     (case run (table_op (open_rview base t)) ops no_changes of
        Inl ex \<Rightarrow> Inl ex
      | Inr (bs, tab) \<Rightarrow>
          if \<not> keep then Inr (bs, t)
          else case apply_apply to_table tab t of Inl ex \<Rightarrow> Inl ex | Inr t' \<Rightarrow> Inr (bs, t'))"

fun direct_tx :: "bool \<times> ('k::linorder, 'v) op list \<Rightarrow> ('k, 'v) closed \<Rightarrow> (('k, 'v) observed list \<times> ('k, 'v) closed) result" where
  "direct_tx (keep, ops) l =
     (case run direct_op ops l of Inl ex \<Rightarrow> Inl ex | Inr (bs, l') \<Rightarrow> Inr (bs, if keep then l' else l))"

definition empty_table :: "('k, 'v) raw_table" where
  "empty_table = \<lparr>rt_items = [], rt_dropsDestroyed = 0\<rparr>"

text \<open>A ledger built through an open view over it.\<close>

definition layered :: "('s \<Rightarrow> ('k::linorder, 'v) rview) \<Rightarrow> ('k, 'v, 's) raw_view \<Rightarrow> (bool \<times> ('k, 'v) op list) list \<Rightarrow> 's \<Rightarrow>
    (('k, 'v) observed list list \<times> 's) result" where
  "layered view w txs s =
     (case run (open_tx (view s)) txs empty_table of
        Inl ex \<Rightarrow> Inl ex
      | Inr (bs, t) \<Rightarrow> (case raw_apply w t s of Inl ex \<Rightarrow> Inl ex | Inr s' \<Rightarrow> Inr (bs, s')))"

subsection \<open>The simulation\<close>

definition table_sim :: "('k \<Rightarrow> 'v option) \<Rightarrow> int \<Rightarrow> ('k::linorder, 'v) closed \<Rightarrow> ('k, 'v) apply_table \<Rightarrow> bool" where
  "table_sim m d l t \<longleftrightarrow> at_ok m t \<and> at_clean m t \<and> closed_ok l \<and> ledger_content l = at_content m t \<and>
     cl_drops l = d - at_dropsDestroyed t"

lemma table_simI:
  "at_ok m t \<Longrightarrow> at_clean m t \<Longrightarrow> closed_ok l \<Longrightarrow> ledger_content l = at_content m t \<Longrightarrow>
   cl_drops l = d - at_dropsDestroyed t \<Longrightarrow> table_sim m d l t"
  by (simp add: table_sim_def)

lemma ledger_read_content: "ledger_read l k = checked k (ledger_content l (kl_key k))"
  by (simp add: ledger_read_def ledger_content_def)

lemma raw_results:
  assumes "closed_ok l"
  shows "ledger_rawErase k l = Inr l' \<Longrightarrow>
      closed_ok l' \<and> ledger_content l' = (ledger_content l)(k := None) \<and> cl_drops l' = cl_drops l"
    "ledger_rawInsert k sle l = Inr l' \<Longrightarrow>
      ledger_content l k = None \<and> closed_ok l' \<and> ledger_content l' = (ledger_content l)(k \<mapsto> sle) \<and> cl_drops l' = cl_drops l"
    "ledger_rawReplace k sle l = Inr l' \<Longrightarrow>
      closed_ok l' \<and> ledger_content l' = (ledger_content l)(k \<mapsto> sle) \<and> cl_drops l' = cl_drops l"
  using ledger_target.erase_law [OF assms, of k sle] ledger_target.insert_law [OF assms, of k sle]
    ledger_target.replace_law [OF assms, of k sle]
  by (auto simp: to_ledger_def ledger_rawErase_def ledger_rawInsert_def ledger_rawReplace_def ledger_content_def split: if_splits)

context read_view
begin

lemma peek_simulates:
  assumes "ok s" "table_sim (content s) d l t" "apply_peek (view s) k t = (r, t1)"
  shows "table_sim (content s) d l t1"
    "r = None \<Longrightarrow> ledger_read l k = None"
    "r = Some p \<Longrightarrow> ledger_read l k = Some (sle_at t1 p) \<and> (\<exists>a. a \<noteq> Erase \<and> map_of (at_items t1) (kl_key k) = Some (a, p))"
  using apply_peek_content [OF assms(1) _ assms(3)] assms(2) by (auto simp: table_sim_def ledger_read_content)

lemma edit_simulates:
  assumes "ok s" "table_sim (content s) d l t" "direct_op (Edit k f) l = Inr (c, l')"
  shows "\<exists>t'. table_op (view s) (Edit k f) t = Inr (c, t') \<and> table_sim (content s) d l' t'"
proof -
  obtain r t1 where pk: "apply_peek (view s) k t = (r, t1)" by (cases "apply_peek (view s) k t")
  note peeked = peek_simulates [OF assms(1,2) pk]
  show ?thesis
  proof (cases r)
    case None
    with peeked assms(3) pk show ?thesis by auto
  next
    case (Some p)
    then obtain a where p: "ledger_read l k = Some (sle_at t1 p)" "a \<noteq> Erase" "map_of (at_items t1) (kl_key k) = Some (a, p)"
      using peeked(3) by auto
    have c: "c = Saw (Some (sle_at t1 p))" "ledger_rawReplace (kl_key k) (f (sle_at t1 p)) l = Inr l'"
      using assms(3) p(1) by (auto split: sum.splits)
    have sim: "at_ok (content s) t1" "at_clean (content s) t1" "closed_ok l" "ledger_content l = at_content (content s) t1"
        "cl_drops l = d - at_dropsDestroyed t1"
      using peeked(1) by (simp_all add: table_sim_def)
    show ?thesis
      using edit_content [OF sim(1,2) p(3,2), of "f (sle_at t1 p)"] raw_results(3) [OF sim(3) c(2)] sim c pk Some
      by (auto intro!: table_simI)
  qed
qed

lemma remove_simulates:
  assumes "ok s" "table_sim (content s) d l t" "direct_op (Remove k) l = Inr (c, l')"
  shows "\<exists>t'. table_op (view s) (Remove k) t = Inr (c, t') \<and> table_sim (content s) d l' t'"
proof -
  obtain r t1 where pk: "apply_peek (view s) k t = (r, t1)" by (cases "apply_peek (view s) k t")
  note peeked = peek_simulates [OF assms(1,2) pk]
  show ?thesis
  proof (cases r)
    case None
    with peeked assms(3) pk show ?thesis by auto
  next
    case (Some p)
    then obtain a where p: "ledger_read l k = Some (sle_at t1 p)" "a \<noteq> Erase" "map_of (at_items t1) (kl_key k) = Some (a, p)"
      using peeked(3) by auto
    have c: "c = Saw (Some (sle_at t1 p))" "ledger_rawErase (kl_key k) l = Inr l'"
      using assms(3) p(1) by (auto split: sum.splits)
    have sim: "at_ok (content s) t1" "at_clean (content s) t1" "closed_ok l" "ledger_content l = at_content (content s) t1"
        "cl_drops l = d - at_dropsDestroyed t1"
      using peeked(1) by (simp_all add: table_sim_def)
    show ?thesis
      using apply_erase_content [OF sim(1,2) p(3,2)] raw_results(1) [OF sim(3) c(2)] sim c pk Some
      by (auto intro!: table_simI)
  qed
qed

lemma add_simulates:
  assumes "table_sim (content s) d l t" "direct_op (Add k sle) l = Inr (c, l')"
  shows "\<exists>t'. table_op (view s) (Add k sle) t = Inr (c, t') \<and> table_sim (content s) d l' t'"
proof -
  have sim: "at_ok (content s) t" "at_clean (content s) t" "closed_ok l" "ledger_content l = at_content (content s) t"
      "cl_drops l = d - at_dropsDestroyed t"
    using assms(1) by (simp_all add: table_sim_def)
  have c: "c = Silent" "ledger_rawInsert k sle l = Inr l'" using assms(2) by (auto split: sum.splits)
  note ins = raw_results(2) [OF sim(3) c(2)]
  obtain p t1 where mk: "make_sle k sle t = (p, t1)" by (cases "make_sle k sle t")
  note made = make_sle_keeps [OF sim(1) mk]
  obtain t' where "apply_insert p t1 = Inr t'" "at_ok (content s) t'" "at_clean (content s) t'"
      "at_content (content s) t' = (at_content (content s) t)(k \<mapsto> sle)" "at_dropsDestroyed t' = at_dropsDestroyed t"
    using apply_insert_content [OF made(1) made(8) [OF sim(2)], of k p] made ins sim(4) by auto
  with mk c ins sim show ?thesis by (auto intro!: table_simI)
qed

lemma table_op_simulates:
  assumes "ok s" "table_sim (content s) d l t" "direct_op x l = Inr (c, l')"
  shows "\<exists>t'. table_op (view s) x t = Inr (c, t') \<and> table_sim (content s) d l' t'"
proof (cases x)
  case (LookUp k)
  with assms show ?thesis by (auto simp: apply_read_content [OF assms(1)] ledger_read_content table_sim_def)
next
  case (Successor key lst)
  have sim: "at_ok (content s) t" "closed_ok l" "ledger_content l = at_content (content s) t"
    using assms(2) by (simp_all add: table_sim_def)
  obtain r where "apply_succ (view s) t key lst = Some r" "is_succ (dom (at_content (content s) t)) key lst r"
    using apply_succ_content [OF assms(1) sim(1)] by blast
  moreover have "is_succ (dom (at_content (content s) t)) key lst (ledger_succ l key lst)"
    using ledger_succ_least [OF sim(2)] by (simp add: sim(3))
  ultimately show ?thesis using Successor assms by (auto dest: is_succ_unique)
next
  case (Burn fee)
  have "at_content m (apply_destroyXRP fee t) = at_content m t" "at_ok m (apply_destroyXRP fee t) = at_ok m t"
      "at_clean m (apply_destroyXRP fee t) = at_clean m t" for m :: "'k \<Rightarrow> 'v option"
    by (auto simp: fun_eq_iff apply_destroyXRP_def at_content_def at_ok_def at_clean_def sle_at_def key_at_def split: option.split)
  with assms(2,3) Burn show ?thesis
    by (auto simp: table_sim_def ledger_rawDestroyXRP_def closed_ok_def ledger_content_def apply_destroyXRP_def)
qed (use assms edit_simulates remove_simulates add_simulates in metis)+

end

lemma no_changes_sim:
  "closed_ok l \<Longrightarrow> ledger_content l = m \<Longrightarrow> table_sim m (cl_drops l) l no_changes"
  by (auto simp: table_sim_def no_changes_def at_ok_def at_clean_def at_content_def fun_eq_iff)

text \<open>The open view and the ledger that the same transactions would have made.\<close>

definition open_sim :: "('k \<Rightarrow> 'v option) \<Rightarrow> int \<Rightarrow> ('k::linorder, 'v) closed \<Rightarrow> ('k, 'v) raw_table \<Rightarrow> bool" where
  "open_sim m d l t \<longleftrightarrow> raw_ok m t \<and> closed_ok l \<and> ledger_content l = raw_content m t \<and> cl_drops l = d - rt_dropsDestroyed t"

context read_view
begin

lemma open_tx_simulates:
  assumes ok: "ok s" and sim: "open_sim (content s) d l t" and direct: "direct_tx x l = Inr (c, l')"
  shows "\<exists>t'. open_tx (view s) x t = Inr (c, t') \<and> open_sim (content s) d l' t'"
proof -
  let ?m = "content s"
  obtain keep ops where x: "x = (keep, ops)" by (cases x)
  have sim': "raw_ok ?m t" "closed_ok l" "ledger_content l = raw_content ?m t" "cl_drops l = d - rt_dropsDestroyed t"
    using sim by (simp_all add: open_sim_def)
  obtain l1 where l1: "run direct_op ops l = Inr (c, l1)" "l' = (if keep then l1 else l)"
    using direct x by (auto split: sum.splits)
  have step: "\<exists>b'. table_op (open_rview (view s) t) y b = Inr (c, b') \<and> table_sim (raw_content ?m t) (cl_drops l) a' b'"
    if "table_sim (raw_content ?m t) (cl_drops l) a b" "direct_op y a = Inr (c, a')" for y a b c a'
    using read_view.table_op_simulates [OF open_on, of "(s, t)" "cl_drops l" a b y c a'] that ok sim'(1) by simp
  have "\<exists>tab. run (table_op (open_rview (view s) t)) ops no_changes = Inr (c, tab) \<and>
      table_sim (raw_content ?m t) (cl_drops l) l1 tab"
    by (rule run_simulates [where R = "table_sim (raw_content ?m t) (cl_drops l)", OF _ no_changes_sim [OF sim'(2,3)] l1(1)])
      (erule (1) step)
  then obtain tab where tab: "run (table_op (open_rview (view s) t)) ops no_changes = Inr (c, tab)"
      "table_sim (raw_content ?m t) (cl_drops l) l1 tab" by blast
  then have t: "at_ok (raw_content ?m t) tab" "at_clean (raw_content ?m t) tab" "closed_ok l1"
      "ledger_content l1 = at_content (raw_content ?m t) tab" "cl_drops l1 = cl_drops l - at_dropsDestroyed tab"
    by (simp_all add: table_sim_def)
  obtain t' where "apply_apply to_table tab t = Inr t'" "raw_ok ?m t'" "raw_content ?m t' = committed (raw_content ?m t) tab"
      "- rt_dropsDestroyed t' = - rt_dropsDestroyed t - at_dropsDestroyed tab"
    using open_target.apply_apply_content [OF sim'(1) t(1)] by blast
  then show ?thesis
    using x tab(1) l1(2) sim t sim' committed_clean [OF t(2)] by (auto simp: open_sim_def)
qed

end

text \<open>A store that can be read and that takes raw changes: what a ledger is to the layers above it.\<close>

locale state_store = read_view view content ok + raw_target w content drops ok
  for view :: "'s \<Rightarrow> ('k::linorder, 'v) rview" and content :: "'s \<Rightarrow> 'k \<Rightarrow> 'v option" and ok :: "'s \<Rightarrow> bool"
    and w :: "('k, 'v, 's) raw_view" and drops :: "'s \<Rightarrow> int"
begin

lemma layered_is_direct:
  assumes ok: "ok s" and abs: "closed_ok l" "ledger_content l = content s" "cl_drops l = drops s"
    and direct: "run direct_tx txs l = Inr (bs, l')"
  shows "\<exists>s'. layered view w txs s = Inr (bs, s') \<and> ok s' \<and> closed_ok l' \<and> content s' = ledger_content l' \<and> drops s' = cl_drops l'"
proof -
  have start: "open_sim (content s) (drops s) l empty_table"
    using abs by (auto simp: open_sim_def empty_table_def raw_ok_def raw_content_def fun_eq_iff)
  have "\<exists>t. run (open_tx (view s)) txs empty_table = Inr (bs, t) \<and> open_sim (content s) (drops s) l' t"
    by (rule run_simulates [where R = "open_sim (content s) (drops s)", OF _ start direct]) (rule open_tx_simulates [OF ok])
  then obtain t where t: "run (open_tx (view s)) txs empty_table = Inr (bs, t)" "open_sim (content s) (drops s) l' t" by blast
  moreover obtain s' where "raw_apply w t s = Inr s'" "ok s'" "content s' = raw_content (content s) t"
      "drops s' = drops s - rt_dropsDestroyed t"
    using raw_apply_content [OF ok] t(2) unfolding open_sim_def by blast
  ultimately show ?thesis by (auto simp: layered_def open_sim_def)
qed

end

interpretation ledger_store: state_store ledger_rview ledger_content closed_ok to_ledger cl_drops
  by unfold_locales

lemma closed_eqI:
  assumes "closed_ok l" "closed_ok l'" "ledger_content l = ledger_content l'" "cl_drops l = cl_drops l'"
  shows "l = (l' :: ('k::linorder, 'v) closed)"
  using assms ascending_unique [of "cl_stateMap l" "cl_stateMap l'"]
  by (cases l; cases l') (simp add: closed_ok_def ledger_content_def)

lemma layered_ledger_direct:
  assumes "closed_ok l" "run direct_tx txs l = Inr (bs, l')"
  shows "layered ledger_rview to_ledger txs l = Inr (bs, l')"
  using ledger_store.layered_is_direct [OF assms(1) assms(1) refl refl assms(2)] closed_eqI [of _ l'] by auto

subsection \<open>Where the layers differ from a map\<close>

text \<open>
  The code relies on its callers in two places. An entry that was taken with \<open>peek\<close> and edited, but not
  reported with \<open>update\<close>, stays a cached entry: the transaction reads the edit and the replay leaves it
  out. An \<open>insert\<close> of a key that exists below and was not looked at is not refused by either table;
  it is found when the tables reach the ledger.
\<close>

lemma edit_without_update:
  assumes "closed_ok l" "ledger_read l k = Some sle" "kl_check k sle'"
    and "apply_peek (ledger_rview l) k no_changes = (Some p, t1)" "t = write_sle p sle' t1"
  shows "apply_read (ledger_rview l) t k = Some sle' \<and> apply_apply to_ledger t l = Inr l"
proof -
  let ?m = "ledger_content l"
  have ok: "at_ok ?m no_changes" by (simp add: at_ok_def no_changes_def)
  note peeked = ledger_view.apply_peek_content [OF assms(1) ok assms(4)]
  have t1: "at_items t1 = [(kl_key k, (Cache, p))]" "at_dropsDestroyed t1 = 0"
    using assms(2,4) by (auto simp: apply_peek_def no_changes_def make_sle_def ledger_rview_def)
  then have item: "map_of (at_items t1) (kl_key k) = Some (Cache, p)" by simp
  note w = write_sle_keeps [OF peeked(1) item Action.distinct(1), where sle = sle']
  have "apply_read (ledger_rview l) t k = Some sle'"
    using ledger_view.apply_read_content [OF assms(1)] w(2) assms(3,5) by (simp add: checked_def)
  moreover have "apply_apply to_ledger t l = Inr l"
    using t1 w(3,6) assms(5) by (simp add: apply_apply_def apply_change_def to_ledger_def ledger_rawDestroyXRP_def)
  ultimately show ?thesis ..
qed

lemma insert_over_existing:
  assumes "ledger_content l k \<noteq> None"
  shows "layered ledger_rview to_ledger [(True, [Add k sle, LookUp \<lparr>kl_key = k, kl_check = \<lambda>_. True\<rparr>])] l =
      Inl (LogicError ''Ledger::rawInsert: key already exists'')"
    and "\<exists>t. open_tx (ledger_rview l) (True, [Add k sle, LookUp \<lparr>kl_key = k, kl_check = \<lambda>_. True\<rparr>]) empty_table =
      Inr ([Silent, Saw (Some sle)], t)"
proof -
  have tx: "open_tx (ledger_rview l) (True, [Add k sle, LookUp \<lparr>kl_key = k, kl_check = \<lambda>_. True\<rparr>]) empty_table =
      Inr ([Silent, Saw (Some sle)], \<lparr>rt_items = [(k, (RawInsert, sle))], rt_dropsDestroyed = 0\<rparr>)"
    by (simp add: no_changes_def empty_table_def make_sle_def apply_insert_def key_at_def sle_at_def apply_read_def
      apply_apply_def apply_change_def to_table_def raw_insert_def raw_destroyXRP_def)
  then show "\<exists>t. open_tx (ledger_rview l) (True, [Add k sle, LookUp \<lparr>kl_key = k, kl_check = \<lambda>_. True\<rparr>]) empty_table =
      Inr ([Silent, Saw (Some sle)], t)" by blast
  have "raw_apply to_ledger \<lparr>rt_items = [(k, (RawInsert, sle))], rt_dropsDestroyed = 0\<rparr> l =
      Inl (LogicError ''Ledger::rawInsert: key already exists'')"
    using assms by (simp add: raw_apply_def to_ledger_def ledger_rawDestroyXRP_def ledger_rawInsert_def ledger_content_def)
  then show "layered ledger_rview to_ledger [(True, [Add k sle, LookUp \<lparr>kl_key = k, kl_check = \<lambda>_. True\<rparr>])] l =
      Inl (LogicError ''Ledger::rawInsert: key already exists'')"
    using tx by (simp del: open_tx.simps add: layered_def)
qed

end
