(* ===== verification/SlesIter.thy ===== *)
theory SlesIter
  imports StateLayers
begin

section \<open>Iterating over an open view\<close>

text \<open>
  The iterator over the entries of an open view (\<open>RawStateTable::SlesIterImpl\<close>) walks the base and the
  items of the table side by side. It keeps the entry each of its two positions points at, null at the
  end, and its code dereferences these pointers and steps its positions without always testing them; a
  dereference of null and a step past the end are undefined, which the model has as \<open>None\<close>.
\<close>

record ('k, 'v) sles_iter =
  it_sle0 :: "('k \<times> 'v) option"
  it_iter0 :: "('k \<times> 'v) list"
  it_sle1 :: "('k \<times> 'v) option"
  it_iter1 :: "('k \<times> (RawAction \<times> 'v)) list"

definition sle_of :: "('k \<times> (RawAction \<times> 'v)) list \<Rightarrow> ('k \<times> 'v) option" where
  "sle_of i = (case i of [] \<Rightarrow> None | (k, (_, sle)) # _ \<Rightarrow> Some (k, sle))"

definition entry_of :: "('k \<times> 'v) list \<Rightarrow> ('k \<times> 'v) option" where
  "entry_of i = (case i of [] \<Rightarrow> None | e # _ \<Rightarrow> Some e)"

definition inc0 :: "('k, 'v) sles_iter \<Rightarrow> ('k, 'v) sles_iter option" where
  "inc0 it = (case it_iter0 it of [] \<Rightarrow> None | _ # r \<Rightarrow> Some (it\<lparr>it_iter0 := r, it_sle0 := entry_of r\<rparr>))"

definition inc1 :: "('k, 'v) sles_iter \<Rightarrow> ('k, 'v) sles_iter option" where
  "inc1 it = (case it_iter1 it of [] \<Rightarrow> None | _ # r \<Rightarrow> Some (it\<lparr>it_iter1 := r, it_sle1 := sle_of r\<rparr>))"

function skip :: "('k, 'v) sles_iter \<Rightarrow> ('k, 'v) sles_iter option" where
  "skip it =
     (case it_iter1 it of
        [] \<Rightarrow> Some it
      | (_, (action, _)) # _ \<Rightarrow>
          if action \<noteq> RawErase then Some it
          else case (it_sle0 it, it_sle1 it) of
                 (Some (k0, _), Some (k1, _)) \<Rightarrow>
                   if k0 \<noteq> k1 then Some it
                   else (case inc1 it of
                           None \<Rightarrow> None
                         | Some it1 \<Rightarrow>
                             (case inc0 it1 of
                                None \<Rightarrow> None
                              | Some it2 \<Rightarrow> if it_sle0 it2 = None then Some it2 else skip it2))
               | _ \<Rightarrow> None)"
  by pat_completeness auto
termination
  by (relation "measure (\<lambda>it. length (it_iter1 it))")
    (auto simp: inc1_def inc0_def split: list.splits option.splits if_splits)

declare skip.simps [simp del]

text \<open>The constructor, with the positions it is given.\<close>

definition sles_at :: "('k \<times> (RawAction \<times> 'v)) list \<Rightarrow> ('k \<times> 'v) list \<Rightarrow> ('k, 'v) sles_iter option" where
  "sles_at i1 i0 =
     (let it = \<lparr>it_sle0 = entry_of i0, it_iter0 = i0, it_sle1 = sle_of i1, it_iter1 = i1\<rparr>
      in if i1 \<noteq> [] then skip it else Some it)"

definition at_end :: "('k, 'v) sles_iter \<Rightarrow> bool" where
  "at_end it \<longleftrightarrow> it_iter1 it = [] \<and> it_iter0 it = []"

definition increment :: "('k::linorder, 'v) sles_iter \<Rightarrow> ('k, 'v) sles_iter option" where
  "increment it =
     (case (it_sle1 it, it_sle0 it) of
        (Some _, None) \<Rightarrow> inc1 it
      | (None, Some _) \<Rightarrow> inc0 it
      | (None, None) \<Rightarrow> None
      | (Some (k1, _), Some (k0, _)) \<Rightarrow>
          (case (if k1 = k0 then (case inc1 it of None \<Rightarrow> None | Some it1 \<Rightarrow> inc0 it1)
                 else if k1 < k0 then inc1 it
                 else inc0 it) of
             None \<Rightarrow> None
           | Some it' \<Rightarrow> skip it'))"

definition dereference :: "('k::linorder, 'v) sles_iter \<Rightarrow> ('k \<times> 'v) option" where
  "dereference it =
     (case (it_sle1 it, it_sle0 it) of
        (None, sle0) \<Rightarrow> sle0
      | (Some sle1, None) \<Rightarrow> Some sle1
      | (Some sle1, Some sle0) \<Rightarrow> if fst sle1 \<le> fst sle0 then Some sle1 else Some sle0)"

definition slesBegin :: "('k \<times> 'v) list \<Rightarrow> ('k, 'v) raw_table \<Rightarrow> ('k, 'v) sles_iter option" where
  "slesBegin base t = sles_at (rt_items t) base"

definition slesUpperBound :: "('k::linorder \<times> 'v) list \<Rightarrow> ('k, 'v) raw_table \<Rightarrow> 'k \<Rightarrow> ('k, 'v) sles_iter option" where
  "slesUpperBound base t key = sles_at (upper_bound key (rt_items t)) (upper_bound key base)"

text \<open>
  A loop over the entries from a position to the end. Every step passes an entry, so as many rounds as
  there are entries and items, and one more, are enough.
\<close>

fun walk :: "nat \<Rightarrow> ('k::linorder, 'v) sles_iter \<Rightarrow> ('k \<times> 'v) list option" where
  "walk 0 it = None"
| "walk (Suc n) it =
     (if at_end it then Some []
      else case (dereference it, increment it) of
             (Some e, Some it') \<Rightarrow> (case walk n it' of None \<Rightarrow> None | Some es \<Rightarrow> Some (e # es))
           | _ \<Rightarrow> None)"

subsection \<open>What the walk visits\<close>

fun merged :: "('k::linorder \<times> (RawAction \<times> 'v)) list \<Rightarrow> ('k \<times> 'v) list \<Rightarrow> ('k \<times> 'v) list" where
  "merged [] b = b"
| "merged ((k, (a, sle)) # i) [] = (k, sle) # merged i []"
| "merged ((k, (a, sle)) # i) ((k0, sle0) # b) =
     (if k < k0 then (k, sle) # merged i ((k0, sle0) # b)
      else if k = k0 then (if a = RawErase then merged i b else (k, sle) # merged i b)
      else (k0, sle0) # merged ((k, (a, sle)) # i) b)"

definition side_by_side :: "('k::linorder \<times> (RawAction \<times> 'v)) list \<Rightarrow> ('k \<times> 'v) list \<Rightarrow> bool" where
  "side_by_side i b \<longleftrightarrow> ascending i \<and> ascending b \<and>
     (\<forall>(k, (a, sle)) \<in> set i. a \<noteq> RawInsert \<longleftrightarrow> k \<in> fst ` set b)"

lemma side_by_side_Cons:
  "side_by_side ((k, (a, sle)) # i) b \<longleftrightarrow>
     (\<forall>j \<in> fst ` set i. k < j) \<and> (a \<noteq> RawInsert \<longleftrightarrow> k \<in> fst ` set b) \<and> side_by_side i b"
  by (auto simp: side_by_side_def ascending_Cons)

lemma side_by_sideD: "side_by_side i b \<Longrightarrow> (k, (a, sle)) \<in> set i \<Longrightarrow> a \<noteq> RawInsert \<longleftrightarrow> k \<in> fst ` set b"
  unfolding side_by_side_def by blast

lemma side_by_side_base:
  assumes "side_by_side i ((k0, sle0) # b)" "k0 \<notin> fst ` set i"
  shows "side_by_side i b"
  unfolding side_by_side_def
proof (intro conjI ballI)
  show "ascending i" "ascending b" using assms(1) by (simp_all add: side_by_side_def ascending_Cons)
  fix x assume x: "x \<in> set i"
  obtain k a sle where k: "x = (k, (a, sle))" by (cases x)
  have "k \<noteq> k0" using assms(2) x k by force
  then show "case x of (k, a, sle) \<Rightarrow> a \<noteq> RawInsert \<longleftrightarrow> k \<in> fst ` set b"
    using side_by_sideD [OF assms(1), of k a sle] x k by simp
qed

lemma side_by_side_first: "side_by_side ((k, x) # i) b \<Longrightarrow> b = (k0, sle0) # b' \<Longrightarrow> k < k0 \<Longrightarrow> k \<notin> fst ` set b"
  by (auto simp: side_by_side_def ascending_Cons)

lemma side_by_side_steps:
  assumes "side_by_side ((k, (a, sle)) # i) b"
  shows "b = [] \<Longrightarrow> a = RawInsert" "side_by_side i b"
    "b = (k0, sle0) # b' \<Longrightarrow> k < k0 \<Longrightarrow> a = RawInsert"
    "b = (k, sle0) # b' \<Longrightarrow> a \<noteq> RawInsert \<and> side_by_side i b'"
    "b = (k0, sle0) # b' \<Longrightarrow> k0 < k \<Longrightarrow> side_by_side ((k, (a, sle)) # i) b'"
proof -
  have i: "\<forall>j \<in> fst ` set i. k < j" "a \<noteq> RawInsert \<longleftrightarrow> k \<in> fst ` set b" "side_by_side i b"
    using assms by (simp_all add: side_by_side_Cons)
  show "side_by_side i b" by fact
  show "a = RawInsert" if "b = []" using i(2) that by auto
  show "a = RawInsert" if "b = (k0, sle0) # b'" "k < k0" using i(2) side_by_side_first [OF assms that] by blast
  show "a \<noteq> RawInsert \<and> side_by_side i b'" if "b = (k, sle0) # b'"
    using i that side_by_side_base [of i k sle0 b'] by auto
  show "side_by_side ((k, (a, sle)) # i) b'" if "b = (k0, sle0) # b'" "k0 < k"
  proof (rule side_by_side_base)
    show "side_by_side ((k, (a, sle)) # i) ((k0, sle0) # b')" using assms that(1) by simp
    show "k0 \<notin> fst ` set ((k, (a, sle)) # i)" using i(1) that(2) by auto
  qed
qed

text \<open>The position over the rest of the items and of the base, and skipping from there.\<close>

definition pos :: "('k \<times> (RawAction \<times> 'v)) list \<Rightarrow> ('k \<times> 'v) list \<Rightarrow> ('k, 'v) sles_iter" where
  "pos i b = \<lparr>it_sle0 = entry_of b, it_iter0 = b, it_sle1 = sle_of i, it_iter1 = i\<rparr>"

lemma pos_simps [simp]:
  "it_sle0 (pos i b) = entry_of b" "it_iter0 (pos i b) = b" "it_sle1 (pos i b) = sle_of i" "it_iter1 (pos i b) = i"
  "inc0 (pos i (e # b)) = Some (pos i b)" "inc1 (pos (x # i) b) = Some (pos i b)"
  by (simp_all add: pos_def inc0_def inc1_def)

lemma entry_sle_simps [simp]:
  "entry_of [] = None" "entry_of (e # b) = Some e" "sle_of [] = None" "sle_of ((k, (a, sle)) # i) = Some (k, sle)"
  by (simp_all add: entry_of_def sle_of_def)

lemma entry_of_None [simp]: "entry_of b = None \<longleftrightarrow> b = []"
  by (cases b) simp_all

fun shown :: "('k \<times> (RawAction \<times> 'v)) list \<Rightarrow> ('k \<times> 'v) list \<Rightarrow> bool" where
  "shown ((k, (RawErase, _)) # _) ((k0, _) # _) = (k \<noteq> k0)"
| "shown _ _ = True"

lemma skip_stops:
  assumes "side_by_side i b"
  shows "\<exists>i' b'. skip (pos i b) = Some (pos i' b') \<and> side_by_side i' b' \<and> shown i' b' \<and> merged i' b' = merged i b \<and>
    length i' + length b' \<le> length i + length b"
  using assms
proof (induction i b rule: merged.induct)
  case (1 b)
  then show ?case by (intro exI [of _ "[]"] exI [of _ b]) (simp add: skip.simps)
next
  case (2 k a sle i)
  with side_by_side_steps(1) [OF 2(2)] show ?case
    by (intro exI [of _ "(k, (a, sle)) # i"] exI [of _ "[]"]) (simp add: skip.simps)
next
  case (3 k a sle i k0 sle0 b)
  note st = side_by_side_steps [OF 3(5)]
  show ?case
  proof (cases "a = RawErase \<and> k = k0")
    case True
    then have s: "side_by_side i b" using st(4) [of sle0 b] by simp
    have step: "skip (pos ((k, (a, sle)) # i) ((k0, sle0) # b)) = (if b = [] then Some (pos i b) else skip (pos i b))"
      using True by (subst skip.simps) simp
    show ?thesis
    proof (cases "b = []")
      case b: True
      then show ?thesis using step True s by (intro exI [of _ i] exI [of _ "[]"]) simp
    next
      case False
      then show ?thesis using "3.IH"(2) [OF _ _ _ s] step True by fastforce
    qed
  next
    case False
    then have "skip (pos ((k, (a, sle)) # i) ((k0, sle0) # b)) = Some (pos ((k, (a, sle)) # i) ((k0, sle0) # b))"
      by (auto simp: skip.simps)
    moreover have "shown ((k, (a, sle)) # i) ((k0, sle0) # b)" using False by (cases a) auto
    ultimately show ?thesis using 3(5) by blast
  qed
qed

lemma walk_both:
  assumes "side_by_side ((k, (a, sle)) # i) ((k0, sle0) # b)" "shown ((k, (a, sle)) # i) ((k0, sle0) # b)"
  obtains e i' b' where "dereference (pos ((k, (a, sle)) # i) ((k0, sle0) # b)) = Some e"
    "increment (pos ((k, (a, sle)) # i) ((k0, sle0) # b)) = skip (pos i' b')" "side_by_side i' b'"
    "merged ((k, (a, sle)) # i) ((k0, sle0) # b) = e # merged i' b'"
    "length i' + length b' < length ((k, (a, sle)) # i) + length ((k0, sle0) # b)"
proof -
  note st = side_by_side_steps [OF assms(1)]
  consider "k = k0" | "k < k0" | "k0 < k" by (meson linorder_neqE)
  then show ?thesis
  proof cases
    case 1
    with assms(2) have "a \<noteq> RawErase" by (cases a) auto
    with 1 st(4) [of sle0 b] that [of "(k, sle)" i b] show ?thesis by (auto simp: dereference_def increment_def)
  next
    case 2
    then have "k \<le> k0" "k \<noteq> k0" by auto
    with 2 st(2) that [of "(k, sle)" i "(k0, sle0) # b"] show ?thesis by (auto simp: dereference_def increment_def)
  next
    case 3
    then have "\<not> k \<le> k0" "k \<noteq> k0" "\<not> k < k0" by auto
    with 3 st(5) [of k0 sle0 b] that [of "(k0, sle0)" "(k, (a, sle)) # i" b] show ?thesis
      by (auto simp: dereference_def increment_def)
  qed
qed

lemma walk_visits:
  "side_by_side i b \<Longrightarrow> shown i b \<Longrightarrow> length i + length b < n \<Longrightarrow> walk n (pos i b) = Some (merged i b)"
proof (induction n arbitrary: i b)
  case (Suc n)
  consider "i = []" "b = []" | e b' where "i = []" "b = e # b'" | k a sle i' where "i = (k, (a, sle)) # i'" "b = []"
    | k a sle i' k0 sle0 b' where "i = (k, (a, sle)) # i'" "b = (k0, sle0) # b'"
    by (metis neq_Nil_conv surj_pair)
  then show ?case
  proof cases
    case 1
    then show ?thesis by (simp add: at_end_def)
  next
    case 2
    with Suc.prems have "side_by_side [] b'" by (auto simp: side_by_side_def ascending_Cons)
    with Suc 2 show ?thesis by (simp add: at_end_def dereference_def increment_def)
  next
    case 3
    with Suc.prems have "side_by_side i' []" using side_by_side_steps(2) [of k a sle i' b] by simp
    with Suc 3 show ?thesis by (simp add: at_end_def dereference_def increment_def)
  next
    case 4
    obtain e i1 b1 where 1: "dereference (pos i b) = Some e" "increment (pos i b) = skip (pos i1 b1)" "side_by_side i1 b1"
        "merged i b = e # merged i1 b1" "length i1 + length b1 < length i + length b"
      using walk_both [of k a sle i' k0 sle0 b'] Suc.prems 4 by blast
    obtain i2 b2 where 2: "skip (pos i1 b1) = Some (pos i2 b2)" "side_by_side i2 b2" "shown i2 b2"
        "merged i2 b2 = merged i1 b1" "length i2 + length b2 \<le> length i1 + length b1"
      using skip_stops [OF 1(3)] by blast
    have "walk n (pos i2 b2) = Some (merged i1 b1)" using Suc.IH [OF 2(2,3)] 1(5) 2(4,5) Suc.prems(3) by simp
    moreover have "\<not> at_end (pos i b)" using 4 by (simp add: at_end_def)
    ultimately show ?thesis using 1 2(1) by simp
  qed
qed simp

subsection \<open>The content in key order\<close>

lemma merged_keys: "fst ` set (merged i b) \<subseteq> fst ` set i \<union> fst ` set b"
proof (induction i b rule: merged.induct)
  case (3 k a sle i k0 sle0 b)
  consider "k = k0" | "k < k0" | "k0 < k" by (meson linorder_neqE)
  then show ?case
  proof cases
    case 1
    then show ?thesis using "3.IH"(2,3) by (cases "a = RawErase") auto
  next
    case 2
    show ?thesis using "3.IH"(1) [OF 2] 2 by (simp only: merged.simps if_True list.set image_insert fst_conv) blast
  next
    case 3
    then have "\<not> k < k0" "k \<noteq> k0" by auto
    then show ?thesis using "3.IH"(4) by (simp only: merged.simps if_False list.set image_insert fst_conv) blast
  qed
qed auto

lemma merged_above:
  assumes "\<forall>j \<in> fst ` set i. k < j" "\<forall>j \<in> fst ` set b. k < j"
  shows "\<forall>j \<in> fst ` set (merged i b). k < j"
  using merged_keys [of i b] assms by blast

lemma merged_ascending: "side_by_side i b \<Longrightarrow> ascending (merged i b)"
proof (induction i b rule: merged.induct)
  case (1 b)
  then show ?case by (simp add: side_by_side_def)
next
  case (2 k a sle i)
  have "\<forall>j \<in> fst ` set i. k < j" using 2(2) unfolding side_by_side_Cons by blast
  from merged_above [OF this, of "[]"] have "\<forall>j \<in> fst ` set (merged i []). k < j" by simp
  with 2(1) [OF side_by_side_steps(2) [OF 2(2)]] show ?case by (simp only: merged.simps ascending_Cons fst_conv simp_thms)
next
  case (3 k a sle i k0 sle0 b)
  note st = side_by_side_steps [OF 3(5)]
  have i: "\<forall>j \<in> fst ` set i. k < j" using 3(5) unfolding side_by_side_Cons by blast
  have b: "\<forall>j \<in> fst ` set b. k0 < j" using 3(5) by (simp add: side_by_side_def ascending_Cons)
  consider "k = k0" | "k < k0" | "k0 < k" by (meson linorder_neqE)
  then show ?case
  proof cases
    case 1
    then have s: "side_by_side i b" using st(4) [of sle0 b] by simp
    have "\<forall>j \<in> fst ` set (merged i b). k < j" using merged_above [OF i, of b] b 1 by simp
    with "3.IH"(2,3) s 1 show ?thesis by (cases "a = RawErase") (simp_all add: ascending_Cons)
  next
    case 2
    have "\<forall>j \<in> fst ` set ((k0, sle0) # b). k < j" using b 2 by (auto intro: order.strict_trans)
    from merged_above [OF i this] "3.IH"(1) [OF 2 st(2)] 2 show ?thesis
      by (simp only: merged.simps if_True ascending_Cons fst_conv simp_thms)
  next
    case 3
    then have k: "\<not> k < k0" "k \<noteq> k0" by auto
    have "\<forall>j \<in> fst ` set ((k, (a, sle)) # i). k0 < j" using i 3 by (auto intro: order.strict_trans)
    from merged_above [OF this b] "3.IH"(4) [OF k st(5) [OF refl 3]] k show ?thesis
      by (simp only: merged.simps if_False ascending_Cons fst_conv simp_thms)
  qed
qed

definition overlaid :: "('k \<times> (RawAction \<times> 'v)) list \<Rightarrow> ('k \<times> 'v) list \<Rightarrow> 'k \<Rightarrow> 'v option" where
  "overlaid i b k = (case map_of i k of None \<Rightarrow> map_of b k | Some (a, sle) \<Rightarrow> if a = RawErase then None else Some sle)"

lemma overlaid_skip:
  "k \<notin> fst ` set i \<Longrightarrow> overlaid i ((k, sle) # b) j = (if j = k then Some sle else overlaid i b j)"
  by (simp add: overlaid_def map_of_eq_None_iff [THEN iffD2] split: option.split)

lemma overlaid_item:
  "overlaid ((k, (a, sle)) # i) b j = (if j = k then if a = RawErase then None else Some sle else overlaid i b j)"
  by (simp add: overlaid_def)

lemma overlaid_both:
  "j \<noteq> k \<Longrightarrow> overlaid i ((k, sle) # b) j = overlaid i b j"
  by (simp add: overlaid_def split: option.split)

lemma merged_content: "side_by_side i b \<Longrightarrow> map_of (merged i b) j = overlaid i b j"
proof (induction i b rule: merged.induct)
  case (1 b)
  then show ?case by (simp add: overlaid_def)
next
  case (2 k a sle i)
  note st = side_by_side_steps [OF 2(2)]
  show ?case using 2(1) [OF st(2)] st(1) by (simp add: overlaid_item)
next
  case (3 k a sle i k0 sle0 b)
  note st = side_by_side_steps [OF 3(5)]
  have i: "\<forall>j \<in> fst ` set i. k < j" using 3(5) unfolding side_by_side_Cons by blast
  consider "k = k0" | "k < k0" | "k0 < k" by (meson linorder_neqE)
  then show ?case
  proof cases
    case 1
    then have s: "side_by_side i b" using st(4) [of sle0 b] by simp
    have "k \<notin> fst ` set (merged i b)"
      using i 3(5) 1 merged_keys [of i b] by (fastforce simp: side_by_side_def ascending_Cons)
    then have "map_of (merged i b) k = None" by (simp add: map_of_eq_None_iff)
    with "3.IH"(2,3) s 1 show ?thesis
      by (cases "j = k"; cases "a = RawErase") (simp_all add: overlaid_item overlaid_both)
  next
    case 2
    with "3.IH"(1) [OF 2 st(2)] st(3) [OF refl 2] show ?thesis by (simp add: overlaid_item)
  next
    case 3
    then have k: "\<not> k < k0" "k \<noteq> k0" by auto
    have "k0 \<notin> fst ` set ((k, (a, sle)) # i)" using i 3 by auto
    from overlaid_skip [OF this, of sle0 b j] "3.IH"(4) [OF k st(5) [OF refl 3]] k show ?thesis by simp
  qed
qed

text \<open>From the beginning and from any key, over a table that is consistent with its base.\<close>

lemma side_by_side_table:
  assumes "closed_ok l" "raw_ok (ledger_content l) t"
  shows "side_by_side (rt_items t) (cl_stateMap l)"
  unfolding side_by_side_def
proof (intro conjI ballI)
  show a: "ascending (rt_items t)" "ascending (cl_stateMap l)" using assms by (simp_all add: raw_ok_def closed_ok_def)
  fix x assume "x \<in> set (rt_items t)"
  then obtain k b sle where x: "x = (k, (b, sle))" "map_of (rt_items t) k = Some (b, sle)"
    using ascending_map_of [OF a(1)] by (metis surj_pair)
  have "b = RawInsert \<longleftrightarrow> ledger_content l k = None" by (rule raw_okD [OF assms(2) x(2)])
  then show "case x of (k, b, sle) \<Rightarrow> b \<noteq> RawInsert \<longleftrightarrow> k \<in> fst ` set (cl_stateMap l)"
    using x(1) by (simp add: ledger_content_def map_of_eq_None_iff)
qed

lemma side_by_side_upper:
  assumes "side_by_side i b"
  shows "side_by_side (upper_bound key i) (upper_bound key b)"
  unfolding side_by_side_def
proof (intro conjI ballI)
  have a: "ascending i" "ascending b" using assms by (simp_all add: side_by_side_def)
  then show "ascending (upper_bound key i)" "ascending (upper_bound key b)" by (simp_all add: ascending_upper_bound)
  fix x assume x: "x \<in> set (upper_bound key i)"
  obtain k c sle where k: "x = (k, (c, sle))" by (cases x)
  have "(k, (c, sle)) \<in> set i" "key < k" using x k upper_bound_set [OF a(1), of key] by auto
  with side_by_sideD [OF assms, of k c sle] upper_bound_set [OF a(2), of key] k
  show "case x of (k, c, sle) \<Rightarrow> c \<noteq> RawInsert \<longleftrightarrow> k \<in> fst ` set (upper_bound key b)" by auto
qed

lemma sles_walk:
  assumes "side_by_side i b" "length i + length b < n"
  shows "\<exists>it. sles_at i b = Some it \<and> walk n it = Some (merged i b)"
proof -
  have "sles_at i b = skip (pos i b)" by (cases i) (simp_all add: sles_at_def pos_def [symmetric], simp add: skip.simps)
  moreover obtain i' b' where "skip (pos i b) = Some (pos i' b')" "side_by_side i' b'" "shown i' b'"
      "merged i' b' = merged i b" "length i' + length b' \<le> length i + length b"
    using skip_stops [OF assms(1)] by blast
  ultimately show ?thesis using walk_visits [of i' b' n] assms(2) by simp
qed

lemma sles_from_begin:
  assumes "closed_ok l" "raw_ok (ledger_content l) t" "length (rt_items t) + length (cl_stateMap l) < n"
  shows "\<exists>it es. slesBegin (cl_stateMap l) t = Some it \<and> walk n it = Some es \<and> ascending es \<and>
    map_of es = raw_content (ledger_content l) t"
proof -
  note s = side_by_side_table [OF assms(1,2)]
  have "map_of (merged (rt_items t) (cl_stateMap l)) = raw_content (ledger_content l) t"
    by (simp add: fun_eq_iff merged_content [OF s] overlaid_def raw_content_def ledger_content_def)
  with sles_walk [OF s assms(3)] merged_ascending [OF s] show ?thesis unfolding slesBegin_def by blast
qed

lemma map_of_upper_bound: "ascending m \<Longrightarrow> map_of (upper_bound key m) k = (if key < k then map_of m k else None)"
proof (cases "key < k")
  case True
  assume a: "ascending m"
  then have "(k, x) \<in> set (upper_bound key m) \<longleftrightarrow> (k, x) \<in> set m" for x using True by (simp add: upper_bound_set)
  then have "map_of (upper_bound key m) k = Some x \<longleftrightarrow> map_of m k = Some x" for x
    by (simp only: ascending_map_of [OF a, symmetric] ascending_map_of [OF ascending_upper_bound [OF a], symmetric])
  then have "map_of (upper_bound key m) k = map_of m k" by (metis not_Some_eq)
  with True show ?thesis by simp
next
  case False
  assume "ascending m"
  then have "k \<notin> fst ` set (upper_bound key m)" using False by (auto simp: upper_bound_set)
  with False show ?thesis by (simp add: map_of_eq_None_iff)
qed

lemma sles_from_key:
  assumes "closed_ok l" "raw_ok (ledger_content l) t" "length (rt_items t) + length (cl_stateMap l) < n"
  shows "\<exists>it es. slesUpperBound (cl_stateMap l) t key = Some it \<and> walk n it = Some es \<and> ascending es \<and>
    map_of es = (\<lambda>k. if key < k then raw_content (ledger_content l) t k else None)"
proof -
  let ?i = "upper_bound key (rt_items t)" and ?b = "upper_bound key (cl_stateMap l)"
  have a: "ascending (rt_items t)" "ascending (cl_stateMap l)" using assms by (simp_all add: raw_ok_def closed_ok_def)
  note s = side_by_side_upper [OF side_by_side_table [OF assms(1,2)], of key]
  have "length ?i \<le> length (rt_items t)" "length ?b \<le> length (cl_stateMap l)"
    by (simp_all add: upper_bound_def length_dropWhile_le)
  then have n: "length ?i + length ?b < n" using assms(3) by simp
  have "map_of (merged ?i ?b) = (\<lambda>k. if key < k then raw_content (ledger_content l) t k else None)"
    by (simp add: fun_eq_iff merged_content [OF s] overlaid_def raw_content_def ledger_content_def 
      map_of_upper_bound [OF a(1)] map_of_upper_bound [OF a(2)] split: option.split)
  with sles_walk [OF s n] merged_ascending [OF s] show ?thesis unfolding slesUpperBound_def by blast
qed

end
