(* ===== verification/SHAMap.thy ===== *)
theory SHAMap
  imports OrderedMap
begin

section \<open>The state tree\<close>

text \<open>
  A ledger keeps its entries in a \<open>SHAMap\<close> (\<^verbatim>\<open>src/libxrpl/shamap/SHAMap.cpp\<close>): a radix tree of fan-out 16
  over the 64 nibbles of a 256-bit key, whose leaves hold the items. This theory models the tree that is
  in memory: \<open>descendThrow\<close> finds every child. The nodes are values; the code reaches the same by
  cloning a node of another map before it writes to it (\<open>unshareNode\<close>). The hashes the nodes cache are
  not part of the model.
\<close>

unbundle bit_operations_syntax

subsection \<open>Node ids\<close>

definition kLEAF_DEPTH :: nat where
  "kLEAF_DEPTH = 64"

definition kBRANCH_FACTOR :: nat where
  "kBRANCH_FACTOR = 16"

record node_id =
  nid_depth :: nat
  nid_id :: u256

definition root_id :: node_id where
  "root_id = \<lparr>nid_depth = 0, nid_id = 0\<rparr>"

text \<open>The first \<open>depth\<close> nibbles of a key, which is stored with its most significant byte first.\<close>

definition depthMask :: "nat \<Rightarrow> u256" where
  "depthMask depth = NOT (mask (4 * (kLEAF_DEPTH - depth)))"

definition getChildNodeID :: "node_id \<Rightarrow> nat \<Rightarrow> node_id result" where
  "getChildNodeID n m =
     (if nid_depth n \<ge> kLEAF_DEPTH then Inl (LogicError ''Request for child node ID of '')
      else if nid_id n \<noteq> nid_id n AND depthMask (nid_depth n) then Inl (LogicError ''Incorrect mask for '')
      else Inr \<lparr>nid_depth = nid_depth n + 1,
                nid_id = nid_id n OR
                  push_bit (8 * (31 - nid_depth n div 2)) (if odd (nid_depth n) then of_nat m else push_bit 4 (of_nat m))\<rparr>)"

definition byte_at :: "u256 \<Rightarrow> nat \<Rightarrow> nat" where
  "byte_at hash i = unat (drop_bit (8 * (31 - i)) hash AND 0xFF)"

definition selectBranch :: "node_id \<Rightarrow> u256 \<Rightarrow> nat" where
  "selectBranch n hash =
     (let branch = byte_at hash (nid_depth n div 2)
      in if odd (nid_depth n) then branch AND 0xF else drop_bit 4 branch)"

definition createID :: "nat \<Rightarrow> u256 \<Rightarrow> node_id" where
  "createID depth key = \<lparr>nid_depth = depth, nid_id = key AND depthMask depth\<rparr>"

subsection \<open>Nodes\<close>

datatype node_type = TnTransactionNm | TnTransactionMd | TnAccountState

datatype 'v tnode = Leaf (leaf_key: u256) (leaf_type: node_type) (leaf_data: 'v) | Inner (branches: "'v tnode option list")

definition empty_inner :: "'v tnode" where
  "empty_inner = Inner (replicate kBRANCH_FACTOR None)"

fun isLeaf :: "'v tnode \<Rightarrow> bool" where
  "isLeaf (Leaf _ _ _) = True"
| "isLeaf (Inner _) = False"

definition isEmptyBranch :: "'v tnode option list \<Rightarrow> nat \<Rightarrow> bool" where
  "isEmptyBranch cs m \<longleftrightarrow> m \<ge> length cs \<or> cs ! m = None"

definition getBranchCount :: "'v tnode option list \<Rightarrow> nat" where
  "getBranchCount cs = length (filter (\<lambda>c. c \<noteq> None) cs)"

fun setChild :: "nat \<Rightarrow> 'v tnode option \<Rightarrow> 'v tnode \<Rightarrow> 'v tnode" where
  "setChild m child (Inner cs) = Inner (cs[m := child])"
| "setChild m child (Leaf k ty v) = Leaf k ty v"

type_synonym 'v node_stack = "('v tnode \<times> node_id) list"

subsection \<open>Walking down\<close>

lemma child_size:
  assumes "Some c \<in> set cs"
  shows "size c < size_list (size_option size) cs"
  using size_list_estimation' [OF assms, of "size c + 1" "size_option size"] by simp

lemma branch_size: "\<not> isEmptyBranch cs b \<Longrightarrow> cs ! b = Some c \<Longrightarrow> size c < Suc (size_list (size_option size) cs)"
  using child_size [of c cs] by (metis isEmptyBranch_def less_SucI not_le nth_mem)

function walkTowardsKey :: "'v tnode \<Rightarrow> node_id \<Rightarrow> u256 \<Rightarrow> 'v node_stack \<Rightarrow> ('v node_stack \<times> 'v tnode option) result" where
  "walkTowardsKey (Leaf k ty v) nodeID key stack = Inr ((Leaf k ty v, nodeID) # stack, Some (Leaf k ty v))"
| "walkTowardsKey (Inner cs) nodeID key stack =
     (let stack' = (Inner cs, nodeID) # stack; branch = selectBranch nodeID key
      in if isEmptyBranch cs branch then Inr (stack', None)
         else case cs ! branch of
                None \<Rightarrow> Inr (stack', None)
              | Some node \<Rightarrow>
                  (case getChildNodeID nodeID branch of
                     Inl ex \<Rightarrow> Inl ex
                   | Inr nodeID' \<Rightarrow> walkTowardsKey node nodeID' key stack'))"
  by pat_completeness auto
termination
  by (relation "measure (\<lambda>(node, _, _, _). size node)") (auto simp: branch_size)

definition findKey :: "'v tnode \<Rightarrow> u256 \<Rightarrow> 'v tnode option result" where
  "findKey root key =
     (case walkTowardsKey root root_id key [] of
        Inl ex \<Rightarrow> Inl ex
      | Inr (_, None) \<Rightarrow> Inr None
      | Inr (_, Some leaf) \<Rightarrow> Inr (if leaf_key leaf \<noteq> key then None else Some leaf))"

definition hasItem :: "'v tnode \<Rightarrow> u256 \<Rightarrow> bool result" where
  "hasItem root key = (case findKey root key of Inl ex \<Rightarrow> Inl ex | Inr leaf \<Rightarrow> Inr (leaf \<noteq> None))"

definition peekItem :: "'v tnode \<Rightarrow> u256 \<Rightarrow> 'v option result" where
  "peekItem root key = (case findKey root key of Inl ex \<Rightarrow> Inl ex | Inr leaf \<Rightarrow> Inr (map_option leaf_data leaf))"

subsection \<open>Changing the tree\<close>

fun dirtyUp :: "'v node_stack \<Rightarrow> u256 \<Rightarrow> 'v tnode \<Rightarrow> 'v tnode" where
  "dirtyUp [] target child = child"
| "dirtyUp ((node, nodeID) # stack) target child =
     dirtyUp stack target (setChild (selectBranch nodeID target) (Some child) node)"

text \<open>
  The loop that makes room for a second item. It pushes empty inner nodes while both keys take the same
  branch; \<open>getChildNodeID\<close> refuses to go below depth 64.
\<close>

function split_leaf :: "node_id \<Rightarrow> u256 \<Rightarrow> u256 \<Rightarrow> 'v node_stack \<Rightarrow> ('v node_stack \<times> node_id) result" where
  "split_leaf nodeID tag other stack =
     (let b1 = selectBranch nodeID tag; b2 = selectBranch nodeID other
      in if b1 \<noteq> b2 then Inr (stack, nodeID)
         else case getChildNodeID nodeID b1 of
                Inl ex \<Rightarrow> Inl ex
              | Inr nodeID' \<Rightarrow> split_leaf nodeID' tag other ((empty_inner, nodeID) # stack))"
  by pat_completeness auto
termination
  by (relation "measure (\<lambda>(nodeID, _, _, _). kLEAF_DEPTH + 1 - nid_depth nodeID)")
    (auto simp: getChildNodeID_def kLEAF_DEPTH_def split: if_splits)

declare split_leaf.simps [simp del]

definition addGiveItem :: "node_type \<Rightarrow> u256 \<Rightarrow> 'v \<Rightarrow> 'v tnode \<Rightarrow> (bool \<times> 'v tnode) result" where
  "addGiveItem type tag item root =
     (case walkTowardsKey root root_id tag [] of
        Inl ex \<Rightarrow> Inl ex
      | Inr ([], _) \<Rightarrow> Inl (LogicError ''SHAMapMissingNode'')
      | Inr ((node, nodeID) # stack, _) \<Rightarrow>
          (case node of
             Inner cs \<Rightarrow>
               Inr (True, dirtyUp stack tag (setChild (selectBranch nodeID tag) (Some (Leaf tag type item)) (Inner cs)))
           | Leaf other ty otherItem \<Rightarrow>
               if other = tag then Inr (False, root)
               else (case split_leaf nodeID tag other stack of
                       Inl ex \<Rightarrow> Inl ex
                     | Inr (stack', nodeID') \<Rightarrow>
                         let inner = setChild (selectBranch nodeID' other) (Some (Leaf other type otherItem))
                                       (setChild (selectBranch nodeID' tag) (Some (Leaf tag type item)) empty_inner)
                         in Inr (True, dirtyUp stack' tag inner))))"

text \<open>\<open>setItem\<close> tells whether the hash of the leaf changed; only then the change is linked upwards.\<close>

definition updateGiveItem :: "(u256 \<Rightarrow> node_type \<Rightarrow> 'v \<Rightarrow> 'h) \<Rightarrow> node_type \<Rightarrow> u256 \<Rightarrow> 'v \<Rightarrow> 'v tnode \<Rightarrow> (bool \<times> 'v tnode) result" where
  "updateGiveItem leafHash type tag item root =
     (case walkTowardsKey root root_id tag [] of
        Inl ex \<Rightarrow> Inl ex
      | Inr ([], _) \<Rightarrow> Inl (LogicError ''SHAMapMissingNode'')
      | Inr ((node, nodeID) # stack, _) \<Rightarrow>
          (case node of
             Inner cs \<Rightarrow> Inr (False, root)
           | Leaf k ty old \<Rightarrow>
               if k \<noteq> tag then Inr (False, root)
               else if ty \<noteq> type then Inr (False, root)
               else if leafHash k ty old \<noteq> leafHash k ty item then Inr (True, dirtyUp stack tag (Leaf k ty item))
               else Inr (True, root)))"

text \<open>The only item below a node. The scan gives up at the second branch that is taken.\<close>

function onlyBelow :: "'v tnode \<Rightarrow> (u256 \<times> 'v) option" where
  "onlyBelow (Leaf k ty v) = Some (k, v)"
| "onlyBelow (Inner cs) =
     (case filter (\<lambda>c. c \<noteq> None) cs of
        [Some node] \<Rightarrow> onlyBelow node
      | _ \<Rightarrow> None)"
  by pat_completeness auto
termination
proof (relation "measure size")
  fix cs :: "'v tnode option list" and x21 x2 node
  assume "filter (\<lambda>c. c \<noteq> None) cs = x21 # x2" "x21 = Some node"
  then have "Some node \<in> set (filter (\<lambda>c. c \<noteq> None) cs)" by simp
  then have "Some node \<in> set cs" by simp
  then show "(node, Inner cs) \<in> measure size" using child_size [of node cs] by simp
qed auto

text \<open>Unlinking a leaf: the way back up takes out nodes with nothing below and pulls a single item up.\<close>

fun del_loop :: "u256 \<Rightarrow> node_type \<Rightarrow> 'v node_stack \<Rightarrow> 'v tnode option \<Rightarrow> 'v tnode \<Rightarrow> 'v tnode" where
  "del_loop key type [] prevNode root = root"
| "del_loop key type ((node, nodeID) # stack) prevNode root =
     (let node' = setChild (selectBranch nodeID key) prevNode node
      in if nid_depth nodeID = 0 then del_loop key type stack None node'
         else if getBranchCount (branches node') = 0 then del_loop key type stack None root
         else if getBranchCount (branches node') = 1
              then (case onlyBelow node' of
                      Some (k, item) \<Rightarrow> del_loop key type stack (Some (Leaf k type item)) root
                    | None \<Rightarrow> del_loop key type stack (Some node') root)
         else del_loop key type stack (Some node') root)"

definition delItem :: "u256 \<Rightarrow> 'v tnode \<Rightarrow> (bool \<times> 'v tnode) result" where
  "delItem key root =
     (case walkTowardsKey root root_id key [] of
        Inl ex \<Rightarrow> Inl ex
      | Inr ([], _) \<Rightarrow> Inl (LogicError ''SHAMapMissingNode'')
      | Inr ((node, nodeID) # stack, _) \<Rightarrow>
          (case node of
             Inner cs \<Rightarrow> Inr (False, root)
           | Leaf k type v \<Rightarrow> if k \<noteq> key then Inr (False, root) else Inr (True, del_loop key type stack None root)))"

subsection \<open>Walking along\<close>

text \<open>
  \<open>belowHelper\<close> with the scan order of \<open>firstBelow\<close> or \<open>lastBelow\<close>. The loop that restarts in the node it
  descended to is a recursion; the branch it passes for the ids of the nodes it pushes stays that of the
  call.
\<close>

definition scan :: "bool \<Rightarrow> 'v tnode option list \<Rightarrow> 'v tnode option" where
  "scan up cs =
     (case filter (\<lambda>c. c \<noteq> None) (if up then cs else rev cs) of [] \<Rightarrow> None | c # _ \<Rightarrow> c)"

lemma scan_size: "scan up cs = Some c \<Longrightarrow> size c < Suc (size_list (size_option size) cs)"
proof -
  assume "scan up cs = Some c"
  then have "Some c \<in> set (filter (\<lambda>c. c \<noteq> None) (if up then cs else rev cs))"
    by (cases "filter (\<lambda>c. c \<noteq> None) (if up then cs else rev cs)") (simp_all only: scan_def list.case list.set_intros option.distinct)
  then have "Some c \<in> set cs" by (simp split: if_splits)
  from child_size [OF this] show ?thesis by simp
qed

function belowHelper :: "bool \<Rightarrow> nat \<Rightarrow> 'v tnode \<Rightarrow> 'v node_stack \<Rightarrow> ('v tnode option \<times> 'v node_stack) result" where
  "belowHelper up branch (Leaf k ty v) stack =
     Inr (Some (Leaf k ty v), (Leaf k ty v, \<lparr>nid_depth = kLEAF_DEPTH, nid_id = k\<rparr>) # stack)"
| "belowHelper up branch (Inner cs) stack =
     (case (case stack of [] \<Rightarrow> Inr root_id | f # _ \<Rightarrow> getChildNodeID (snd f) branch) of
        Inl ex \<Rightarrow> Inl ex
      | Inr nodeID \<Rightarrow>
          (case scan up cs of
             None \<Rightarrow> Inr (None, (Inner cs, nodeID) # stack)
           | Some node \<Rightarrow> belowHelper up branch node ((Inner cs, nodeID) # stack)))"
  by pat_completeness auto
termination
  by (relation "measure (\<lambda>(_, _, node, _). size node)") (auto simp: scan_size)

definition firstBelow :: "'v tnode \<Rightarrow> 'v node_stack \<Rightarrow> nat \<Rightarrow> ('v tnode option \<times> 'v node_stack) result" where
  "firstBelow node stack branch = belowHelper True branch node stack"

definition lastBelow :: "'v tnode \<Rightarrow> 'v node_stack \<Rightarrow> nat \<Rightarrow> ('v tnode option \<times> 'v node_stack) result" where
  "lastBelow node stack branch = belowHelper False branch node stack"

definition peekFirstItem :: "'v tnode \<Rightarrow> ('v tnode option \<times> 'v node_stack) result" where
  "peekFirstItem root =
     (case firstBelow root [] kBRANCH_FACTOR of
        Inl ex \<Rightarrow> Inl ex
      | Inr (None, _) \<Rightarrow> Inr (None, [])
      | Inr (Some leaf, stack) \<Rightarrow> Inr (Some leaf, stack))"

text \<open>The first taken branch from a given one on.\<close>

fun branch_from :: "nat \<Rightarrow> 'v tnode option list \<Rightarrow> (nat \<times> 'v tnode) option" where
  "branch_from i [] = None"
| "branch_from i (None # cs) = branch_from (Suc i) cs"
| "branch_from i (Some c # cs) = Some (i, c)"

text \<open>The loop of \<open>peekNextItem\<close> and of \<open>upperBound\<close> over the inner nodes of the stack.\<close>

fun next_above :: "u256 \<Rightarrow> 'v node_stack \<Rightarrow> ('v tnode option \<times> 'v node_stack) result" where
  "next_above key [] = Inr (None, [])"
| "next_above key ((node, nodeID) # stack) =
     (let from = selectBranch nodeID key + 1
      in case branch_from from (drop from (branches node)) of
           Some (i, child) \<Rightarrow>
             (case firstBelow child ((node, nodeID) # stack) i of
                Inl ex \<Rightarrow> Inl ex
              | Inr (None, _) \<Rightarrow> Inl (LogicError ''SHAMapMissingNode'')
              | Inr (Some leaf, stack') \<Rightarrow> Inr (Some leaf, stack'))
         | None \<Rightarrow> next_above key stack)"

definition peekNextItem :: "u256 \<Rightarrow> 'v node_stack \<Rightarrow> ('v tnode option \<times> 'v node_stack) result" where
  "peekNextItem key stack = next_above key (tl stack)"

definition upperBound :: "'v tnode \<Rightarrow> u256 \<Rightarrow> ('v tnode option \<times> 'v node_stack) result" where
  "upperBound root key =
     (case walkTowardsKey root root_id key [] of
        Inl ex \<Rightarrow> Inl ex
      | Inr ([], _) \<Rightarrow> Inr (None, [])
      | Inr ((node, nodeID) # stack, _) \<Rightarrow>
          if isLeaf node
          then if leaf_key node > key then Inr (Some node, (node, nodeID) # stack) else next_above key stack
          else next_above key ((node, nodeID) # stack))"

text \<open>An iteration with \<open>begin\<close> and \<open>operator++\<close>, and from the result of \<open>upperBound\<close>.\<close>

fun iterate :: "nat \<Rightarrow> ('v tnode option \<times> 'v node_stack) result \<Rightarrow> (u256 \<times> (node_type \<times> 'v)) list result" where
  "iterate n (Inl ex) = Inl ex"
| "iterate n (Inr (None, stack)) = Inr []"
| "iterate 0 (Inr (Some leaf, stack)) = Inl (LogicError ''unfinished'')"
| "iterate (Suc n) (Inr (Some leaf, stack)) =
     (case iterate n (peekNextItem (leaf_key leaf) stack) of
        Inl ex \<Rightarrow> Inl ex
      | Inr es \<Rightarrow> Inr ((leaf_key leaf, (leaf_type leaf, leaf_data leaf)) # es))"

end
