(* ===== verification/SHAMapKeys.thy ===== *)
theory SHAMapKeys
  imports SHAMap
begin

section \<open>Keys and their nibbles\<close>

text \<open>
  A depth stands for the nibbles of a key above it. The code reads them from the bytes of the key; here
  they are the quotient \<open>nibs\<close> of the key as a number, so that the order of keys is the order of paths.
\<close>

definition nibs :: "nat \<Rightarrow> u256 \<Rightarrow> nat" where
  "nibs d k = drop_bit (4 * (64 - d)) (unat k)"

lemma nibs_0 [simp]: "nibs 0 k = 0"
  using unat_bound [of k] by (simp add: nibs_def drop_bit_eq_div)

lemma nibs_64: "nibs 64 k = unat k"
  by (simp add: nibs_def)

lemma nibs_div:
  assumes "d < 64"
  shows "nibs d k = nibs (Suc d) k div 16"
proof -
  have "4 * (64 - d) = 4 + 4 * (64 - Suc d)" using assms by simp
  then have "nibs d k = drop_bit 4 (nibs (Suc d) k)" by (simp add: nibs_def)
  then show ?thesis by (simp add: drop_bit_eq_div)
qed

lemma nibs_Suc: "d < 64 \<Longrightarrow> nibs (Suc d) k = 16 * nibs d k + nibs (Suc d) k mod 16"
  using nibs_div [of d k] by simp

lemma byte_at_bits: "byte_at k i = take_bit 8 (drop_bit (8 * (31 - i)) (unat k))"
proof -
  have "(0xFF :: u256) = mask 8" by (simp add: mask_eq_exp_minus_1)
  then have "byte_at k i = unat (take_bit 8 (drop_bit (8 * (31 - i)) k))"
    unfolding byte_at_def by (simp only: take_bit_eq_mask)
  then show ?thesis by (simp add: unsigned_take_bit_eq unat_drop_bit_eq)
qed

lemma selectBranch_nibs:
  assumes "nid_depth n = d" "d < 64"
  shows "selectBranch n k = nibs (Suc d) k mod 16"
proof -
  have m: "x mod 16 = take_bit 4 x" for x :: nat by (simp add: take_bit_eq_mod)
  show ?thesis
  proof (cases "odd d")
    case True
    then have e: "8 * (31 - d div 2) = 4 * (64 - Suc d)" using assms(2) by presburger
    have "(0xF :: nat) = mask 4" by (simp add: mask_eq_exp_minus_1)
    then have "selectBranch n k = take_bit 4 (byte_at k (d div 2))"
      using True assms(1) by (simp add: selectBranch_def take_bit_eq_mask)
    then show ?thesis by (simp add: byte_at_bits m nibs_def e)
  next
    case False
    then have e: "8 * (31 - d div 2) + 4 = 4 * (64 - Suc d)" using assms(2) by presburger
    have "selectBranch n k = drop_bit 4 (byte_at k (d div 2))" using False assms(1) by (simp add: selectBranch_def)
    also have "\<dots> = take_bit 4 (drop_bit (8 * (31 - d div 2) + 4) (unat k))"
      by (simp add: byte_at_bits drop_bit_take_bit add.commute)
    finally show ?thesis by (simp add: m nibs_def e)
  qed
qed

lemma selectBranch_less: "nid_depth n < 64 \<Longrightarrow> selectBranch n k < 16"
  by (simp add: selectBranch_nibs)

lemma nibs_step: "nid_depth n = d \<Longrightarrow> d < 64 \<Longrightarrow> nibs (Suc d) k = 16 * nibs d k + selectBranch n k"
  using nibs_Suc [of d k] by (simp add: selectBranch_nibs)

lemma nibs_mono: "d \<le> 64 \<Longrightarrow> nibs d k < nibs d k' \<Longrightarrow> k < k'"
  unfolding nibs_def drop_bit_eq_div word_less_nat_alt
  by (metis div_le_mono linorder_not_less)

text \<open>Two keys that differ do so at some depth, so making room for both ends above depth 64.\<close>

lemma nibs_eq_64: "nibs 64 k = nibs 64 k' \<Longrightarrow> k = k'"
  by (metis nibs_64 unsigned_word_eqI)

subsection \<open>Node ids on a path\<close>

definition nid_ok :: "node_id \<Rightarrow> bool" where
  "nid_ok n \<longleftrightarrow> nid_id n = nid_id n AND depthMask (nid_depth n)"

lemma root_id_ok [simp]: "nid_ok root_id" "nid_depth root_id = 0"
  by (simp_all add: nid_ok_def root_id_def)

lemma bit_depthMask: "n < 256 \<Longrightarrow> bit (depthMask d) n \<longleftrightarrow> 4 * (64 - d) \<le> n"
  by (simp add: depthMask_def kLEAF_DEPTH_def bit_not_iff bit_mask_iff not_less)

lemma child_shift:
  assumes "d < 64"
  shows "push_bit (8 * (31 - d div 2)) (if odd d then of_nat m else push_bit 4 (of_nat m)) =
    (push_bit (4 * (63 - d)) (of_nat m) :: u256)"
proof (cases "odd d")
  case True
  then have "8 * (31 - d div 2) = 4 * (63 - d)" using assms by presburger
  with True show ?thesis by (simp only: if_True not_False_eq_True)
next
  case False
  then have "8 * (31 - d div 2) + 4 = 4 * (63 - d)" using assms by presburger
  with False show ?thesis by (simp only: push_bit_push_bit if_False)
qed

lemma child_id:
  assumes "nid_ok n" "nid_depth n = d" "d < 64"
  shows "\<exists>n'. getChildNodeID n m = Inr n' \<and> nid_ok n' \<and> nid_depth n' = Suc d"
proof -
  define y where "y = nid_id n OR push_bit (4 * (63 - d)) (of_nat m)"
  have low: "4 * (64 - Suc d) \<le> j" if j: "bit y j" "j < 256" for j
  proof -
    consider "bit (nid_id n) j" | "bit (push_bit (4 * (63 - d)) (of_nat m :: u256)) j"
      using j(1) unfolding y_def bit_or_iff by blast
    then show ?thesis
    proof cases
      case 1
      then have "bit (depthMask d) j" using assms(1,2) unfolding nid_ok_def by (metis bit_and_iff)
      then show ?thesis using bit_depthMask [OF j(2), of d] by simp
    next
      case 2
      then show ?thesis by (simp add: bit_push_bit_iff)
    qed
  qed
  have "y = y AND depthMask (Suc d)"
  proof (rule bit_word_eqI)
    fix j assume "j < LENGTH(256)"
    then have j: "j < 256" by simp
    show "bit y j \<longleftrightarrow> bit (y AND depthMask (Suc d)) j"
      using low [OF _ j] bit_depthMask [OF j, of "Suc d"] by (metis bit_and_iff)
  qed
  moreover have "getChildNodeID n m = Inr \<lparr>nid_depth = d + 1, nid_id = y\<rparr>"
    using assms child_shift [OF assms(3), of m] unfolding getChildNodeID_def nid_ok_def kLEAF_DEPTH_def y_def by simp
  ultimately show ?thesis by (simp add: nid_ok_def)
qed

end
