(* ===== verification/SHAMapTree.thy ===== *)
theory SHAMapTree
  imports SHAMapKeys
begin

section \<open>The shape of the tree and its items\<close>

text \<open>
  Every inner node below the root has at least two items below it, and a node at depth \<open>d\<close> holds keys
  of one prefix of \<open>d\<close> nibbles. The items in the order of the branches are then in the order of their
  keys, and the tree is determined by them.
\<close>

fun items :: "'v tnode \<Rightarrow> (u256 \<times> (node_type \<times> 'v)) list" where
  "items (Leaf k ty v) = [(k, (ty, v))]"
| "items (Inner cs) = concat (map (\<lambda>c. case c of None \<Rightarrow> [] | Some n \<Rightarrow> items n) cs)"

definition seg :: "'v tnode option \<Rightarrow> (u256 \<times> (node_type \<times> 'v)) list" where
  "seg c = (case c of None \<Rightarrow> [] | Some n \<Rightarrow> items n)"

lemma seg_simps [simp]: "seg None = []" "seg (Some n) = items n"
  by (simp_all add: seg_def)

lemma items_Inner: "items (Inner cs) = concat (map seg cs)"
  by (simp add: seg_def [abs_def])

declare items.simps(2) [simp del]

inductive wf_node :: "nat \<Rightarrow> nat \<Rightarrow> 'v tnode \<Rightarrow> bool" where
  wf_Leaf: "nibs d k = t \<Longrightarrow> d \<le> 64 \<Longrightarrow> wf_node d t (Leaf k ty v)"
| wf_Inner: "d < 64 \<Longrightarrow> length cs = 16 \<Longrightarrow> (\<And>i c. i < 16 \<Longrightarrow> cs ! i = Some c \<Longrightarrow> wf_node (Suc d) (16 * t + i) c) \<Longrightarrow>
     2 \<le> length (items (Inner cs)) \<Longrightarrow> wf_node d t (Inner cs)"

inductive_cases wf_InnerE: "wf_node d t (Inner cs)"
inductive_cases wf_LeafE: "wf_node d t (Leaf k ty v)"

definition wf_branches :: "nat \<Rightarrow> nat \<Rightarrow> 'v tnode option list \<Rightarrow> bool" where
  "wf_branches d t cs \<longleftrightarrow> length cs = 16 \<and> (\<forall>i c. i < 16 \<longrightarrow> cs ! i = Some c \<longrightarrow> wf_node (Suc d) (16 * t + i) c)"

fun wf_root :: "'v tnode \<Rightarrow> bool" where
  "wf_root (Leaf k ty v) = False"
| "wf_root (Inner cs) = wf_branches 0 0 cs"

lemma wf_Inner_iff: "wf_node d t (Inner cs) \<longleftrightarrow> d < 64 \<and> wf_branches d t cs \<and> 2 \<le> length (items (Inner cs))"
  by (auto simp: wf_branches_def elim: wf_InnerE intro: wf_Inner)

lemma wf_branchesD: "wf_branches d t cs \<Longrightarrow> i < 16 \<Longrightarrow> cs ! i = Some c \<Longrightarrow> wf_node (Suc d) (16 * t + i) c"
  by (simp add: wf_branches_def)

lemma wf_branches_update:
  assumes "wf_branches d t cs" "\<And>c. x = Some c \<Longrightarrow> wf_node (Suc d) (16 * t + i) c"
  shows "wf_branches d t (cs[i := x])"
proof (cases "i < length cs")
  case True
  with assms show ?thesis by (auto simp: wf_branches_def nth_list_update)
next
  case False
  with assms show ?thesis by (simp add: list_update_beyond)
qed

lemma wf_items: "wf_node d t n \<Longrightarrow> d \<le> 64 \<and> items n \<noteq> [] \<and> (\<forall>p \<in> set (items n). nibs d (fst p) = t)"
proof (induction rule: wf_node.induct)
  case (wf_Inner d cs t)
  have "nibs d (fst p) = t" if "p \<in> set (items (Inner cs))" for p
  proof -
    from that obtain x where "x \<in> set cs" "p \<in> set (seg x)" by (auto simp: items_Inner)
    then obtain i where i: "i < length cs" "p \<in> set (seg (cs ! i))" by (auto simp: in_set_conv_nth [of x cs])
    then obtain c where c: "cs ! i = Some c" "p \<in> set (items c)" by (cases "cs ! i") auto
    have i16: "i < 16" using i(1) wf_Inner(2) by simp
    have "nibs (Suc d) (fst p) = 16 * t + i" using wf_Inner.IH [OF i16 c(1)] c(2) by blast
    with nibs_div [OF wf_Inner(1), of "fst p"] i16 show ?thesis by simp
  qed
  moreover have "items (Inner cs) \<noteq> []" using \<open>2 \<le> length (items (Inner cs))\<close> by (cases "items (Inner cs)") simp_all
  ultimately show ?case using wf_Inner(1) by simp
qed simp

lemma seg_nibs:
  assumes "wf_branches d t cs" "i < 16" "p \<in> set (seg (cs ! i))"
  shows "nibs (Suc d) (fst p) = 16 * t + i"
  using assms wf_items [of "Suc d" "16 * t + i"] wf_branchesD [OF assms(1,2)] by (cases "cs ! i") auto

lemma seg_Nil: "wf_branches d t cs \<Longrightarrow> i < 16 \<Longrightarrow> seg (cs ! i) = [] \<longleftrightarrow> cs ! i = None"
  using wf_items [of "Suc d" "16 * t + i"] wf_branchesD [of d t cs i] by (cases "cs ! i") auto

subsection \<open>The order of the items\<close>

lemma ascending_append:
  "ascending (xs @ ys) \<longleftrightarrow> ascending xs \<and> ascending ys \<and> (\<forall>p \<in> set xs. \<forall>q \<in> set ys. fst p < fst q)"
  by (auto simp: ascending_def sorted_wrt_append)

lemma ascending_concat:
  "(\<forall>x \<in> set xss. ascending x) \<Longrightarrow> sorted_wrt (\<lambda>x y. \<forall>p \<in> set x. \<forall>q \<in> set y. fst p < fst q) xss \<Longrightarrow> ascending (concat xss)"
  by (induction xss) (auto simp: ascending_append)

lemma branches_ascending:
  assumes "wf_branches d t cs" "d < 64" "\<And>i c. i < 16 \<Longrightarrow> cs ! i = Some c \<Longrightarrow> ascending (items c)"
  shows "ascending (items (Inner cs))"
  unfolding items_Inner
proof (rule ascending_concat)
  have len: "length cs = 16" using assms(1) by (simp add: wf_branches_def)
  show "\<forall>x \<in> set (map seg cs). ascending x"
    using assms(3) len by (auto simp: in_set_conv_nth seg_def split: option.split)
  show "sorted_wrt (\<lambda>x y. \<forall>p \<in> set x. \<forall>q \<in> set y. fst p < fst q) (map seg cs)"
    unfolding sorted_wrt_iff_nth_less
  proof (intro allI impI ballI)
    fix i j p q assume i: "i < j" "j < length (map seg cs)" "p \<in> set (map seg cs ! i)" "q \<in> set (map seg cs ! j)"
    then have "nibs (Suc d) (fst p) = 16 * t + i" "nibs (Suc d) (fst q) = 16 * t + j"
      using seg_nibs [OF assms(1)] len by auto
    with i(1) assms(2) nibs_mono [of "Suc d" "fst p" "fst q"] show "fst p < fst q" by simp
  qed
qed

lemma wf_ascending: "wf_node d t n \<Longrightarrow> ascending (items n)"
proof (induction rule: wf_node.induct)
  case (wf_Inner d cs t)
  then have "wf_branches d t cs" by (simp add: wf_branches_def)
  from branches_ascending [OF this wf_Inner(1)] wf_Inner show ?case by blast
qed (simp add: ascending_def)

lemma root_ascending: "wf_root n \<Longrightarrow> ascending (items n)"
proof (cases n)
  case (Inner cs)
  assume "wf_root n"
  then have b: "wf_branches 0 0 cs" by (simp add: Inner)
  show ?thesis unfolding Inner
    by (rule branches_ascending [OF b]) (auto intro: wf_ascending dest: wf_branchesD [OF b])
qed simp

subsection \<open>The items determine the tree\<close>

lemma filter_concat_one:
  assumes "i < length xss" "\<And>p. p \<in> set (xss ! i) \<Longrightarrow> P p"
    and "\<And>j p. j < length xss \<Longrightarrow> j \<noteq> i \<Longrightarrow> p \<in> set (xss ! j) \<Longrightarrow> \<not> P p"
  shows "filter P (concat xss) = xss ! i"
proof -
  have "xss = take i xss @ xss ! i # drop (Suc i) xss" by (rule id_take_nth_drop [OF assms(1)])
  then have c: "concat xss = concat (take i xss) @ xss ! i @ concat (drop (Suc i) xss)"
    by (metis concat.simps(2) concat_append)
  have "\<not> P p" if "p \<in> set (concat (take i xss))" for p
  proof -
    from that obtain x where "x \<in> set (take i xss)" "p \<in> set x" by auto
    then obtain j where "j < i" "p \<in> set (xss ! j)" using assms(1) by (auto simp: in_set_conv_nth [of x])
    then show ?thesis using assms(1) assms(3) [of j p] by simp
  qed
  moreover have "\<not> P p" if "p \<in> set (concat (drop (Suc i) xss))" for p
  proof -
    from that obtain x where "x \<in> set (drop (Suc i) xss)" "p \<in> set x" by auto
    then obtain j where "j < length xss - Suc i" "p \<in> set (xss ! (Suc i + j))" by (auto simp: in_set_conv_nth [of x])
    then show ?thesis using assms(3) [of "Suc i + j" p] by simp
  qed
  moreover have "filter P (xss ! i) = xss ! i" using assms(2) by (simp add: filter_id_conv)
  ultimately show ?thesis unfolding c by (simp add: filter_empty_conv)
qed

lemma seg_filter:
  assumes "wf_branches d t cs" "i < 16"
  shows "seg (cs ! i) = filter (\<lambda>p. nibs (Suc d) (fst p) = 16 * t + i) (items (Inner cs))"
proof -
  have len: "length cs = 16" using assms(1) by (simp add: wf_branches_def)
  have "filter (\<lambda>p. nibs (Suc d) (fst p) = 16 * t + i) (concat (map seg cs)) = map seg cs ! i"
    by (rule filter_concat_one) (use seg_nibs [OF assms(1)] len assms(2) in auto)
  then show ?thesis using len assms(2) by (simp add: items_Inner)
qed

lemma branches_determined:
  assumes "wf_branches d t cs" "wf_branches d t cs'" "items (Inner cs) = items (Inner cs')"
    "\<And>i c c'. i < 16 \<Longrightarrow> cs ! i = Some c \<Longrightarrow> cs' ! i = Some c' \<Longrightarrow> items c = items c' \<Longrightarrow> c = c'"
  shows "cs = cs'"
proof (rule nth_equalityI)
  show "length cs = length cs'" using assms(1,2) by (simp add: wf_branches_def)
  fix i assume "i < length cs"
  then have i: "i < 16" using assms(1) by (simp add: wf_branches_def)
  have s: "seg (cs ! i) = seg (cs' ! i)" using seg_filter [OF assms(1) i] seg_filter [OF assms(2) i] assms(3) by simp
  then have "cs ! i = None \<longleftrightarrow> cs' ! i = None" using seg_Nil [OF assms(1) i] seg_Nil [OF assms(2) i] by simp
  with s assms(4) [OF i] show "cs ! i = cs' ! i" by (cases "cs ! i"; cases "cs' ! i") auto
qed

lemma wf_determined: "wf_node d t n \<Longrightarrow> wf_node d t n' \<Longrightarrow> items n = items n' \<Longrightarrow> n = n'"
proof (induction arbitrary: n' rule: wf_node.induct)
  case (wf_Leaf d k t ty v)
  show ?case
  proof (cases n')
    case (Inner cs)
    then have "2 \<le> length (items n')" using wf_Leaf(3) by (simp add: wf_Inner_iff)
    moreover have "length (items n') = 1" using wf_Leaf(4) [symmetric] by simp
    ultimately show ?thesis by simp
  qed (use wf_Leaf in auto)
next
  case (wf_Inner d cs t)
  show ?case
  proof (cases n')
    case (Leaf k ty v)
    then have "length (items (Inner cs)) = 1" using wf_Inner.prems(2) by simp
    with \<open>2 \<le> length (items (Inner cs))\<close> show ?thesis by simp
  next
    case (Inner cs')
    have "cs = cs'"
    proof (rule branches_determined)
      show "wf_branches d t cs" using wf_Inner by (simp add: wf_branches_def)
      show b: "wf_branches d t cs'" using wf_Inner.prems(1) Inner by (simp add: wf_Inner_iff)
      show "items (Inner cs) = items (Inner cs')" using wf_Inner.prems(2) Inner by simp
      fix i c c' assume "i < 16" "cs ! i = Some c" "cs' ! i = Some c'" "items c = items c'"
      then show "c = c'" using wf_Inner.IH [of i c c'] wf_branchesD [OF b] by blast
    qed
    with Inner show ?thesis by simp
  qed
qed

lemma root_determined:
  assumes "wf_root n" "wf_root n'" "items n = items n'"
  shows "n = n'"
proof -
  obtain cs cs' where n: "n = Inner cs" "n' = Inner cs'" using assms by (cases n; cases n') auto
  then have b: "wf_branches 0 0 cs" "wf_branches 0 0 cs'" using assms by simp_all
  have "cs = cs'"
    by (rule branches_determined [OF b]) (use assms n wf_determined wf_branchesD [OF b(1)] wf_branchesD [OF b(2)] in blast)+
  with n show ?thesis by simp
qed

end
