(* ===== verification/SHAMapOps.thy ===== *)
theory SHAMapOps
  imports SHAMapTree
begin

section \<open>The operations of the tree on its items\<close>

text \<open>
  The stack of a walk is a context: the items before and after the place it leads to surround those of
  the node put there. Each operation is then one change of a list in key order.
\<close>

subsection \<open>Contexts\<close>

definition before :: "u256 \<Rightarrow> 'v tnode \<Rightarrow> node_id \<Rightarrow> (u256 \<times> (node_type \<times> 'v)) list" where
  "before key n nid = concat (map seg (take (selectBranch nid key) (branches n)))"

definition after :: "u256 \<Rightarrow> 'v tnode \<Rightarrow> node_id \<Rightarrow> (u256 \<times> (node_type \<times> 'v)) list" where
  "after key n nid = concat (map seg (drop (Suc (selectBranch nid key)) (branches n)))"

fun lefts :: "u256 \<Rightarrow> 'v node_stack \<Rightarrow> (u256 \<times> (node_type \<times> 'v)) list" where
  "lefts key [] = []"
| "lefts key ((n, nid) # st) = lefts key st @ before key n nid"

fun rights :: "u256 \<Rightarrow> 'v node_stack \<Rightarrow> (u256 \<times> (node_type \<times> 'v)) list" where
  "rights key [] = []"
| "rights key ((n, nid) # st) = after key n nid @ rights key st"

text \<open>A context for a place at depth \<open>d\<close> that held \<open>c\<close> items.\<close>

fun ctx :: "u256 \<Rightarrow> nat \<Rightarrow> nat \<Rightarrow> 'v node_stack \<Rightarrow> bool" where
  "ctx key d c [] = (d = 0)"
| "ctx key d c ((n, nid) # st) =
     (d = Suc (nid_depth nid) \<and> nid_depth nid < 64 \<and> nid_ok nid \<and> \<not> isLeaf n \<and>
      wf_branches (nid_depth nid) (nibs (nid_depth nid) key) (branches n) \<and>
      (nid_depth nid > 0 \<longrightarrow> 2 \<le> c + length (before key n nid) + length (after key n nid)) \<and>
      ctx key (nid_depth nid) (c + length (before key n nid) + length (after key n nid)) st)"

lemma ctx_mono: "ctx key d c st \<Longrightarrow> c \<le> c' \<Longrightarrow> ctx key d c' st"
proof (induction st arbitrary: d c c')
  case (Cons f st)
  obtain n nid where f: "f = (n, nid)" by (cases f)
  show ?case using Cons.prems Cons.IH [of "nid_depth nid" _ "c' + length (before key n nid) + length (after key n nid)"]
    by (auto simp: f)
qed simp

lemma split_items:
  assumes "b < length cs"
  shows "items (Inner (cs[b := x])) = concat (map seg (take b cs)) @ seg x @ concat (map seg (drop (Suc b) cs))"
  using upd_conv_take_nth_drop [OF assms, of x] by (simp add: items_Inner)

lemma setChild_items:
  assumes "\<not> isLeaf n" "wf_branches d t (branches n)" "nid_depth nid < 64"
  shows "items (setChild (selectBranch nid key) x n) = before key n nid @ seg x @ after key n nid"
proof -
  obtain cs where n: "n = Inner cs" using assms(1) by (cases n) auto
  have "selectBranch nid key < length cs" using assms(2,3) n selectBranch_less by (simp add: wf_branches_def)
  from split_items [OF this, of x] show ?thesis by (simp add: n before_def after_def)
qed

lemma dirtyUp_items:
  "ctx key d c st \<Longrightarrow> items (dirtyUp st key child) = lefts key st @ items child @ rights key st"
proof (induction st arbitrary: d c child)
  case (Cons f st)
  obtain n nid where f: "f = (n, nid)" by (cases f)
  with Cons.prems have n: "\<not> isLeaf n" "wf_branches (nid_depth nid) (nibs (nid_depth nid) key) (branches n)" "nid_depth nid < 64"
    by simp_all
  from Cons f setChild_items [OF n, of key "Some child"] show ?case by auto
qed simp

lemma setChild_wf:
  assumes "\<not> isLeaf n" "wf_branches d (nibs d key) (branches n)" "nid_depth nid = d" "d < 64"
    and "\<And>c. x = Some c \<Longrightarrow> wf_node (Suc d) (nibs (Suc d) key) c"
  shows "\<exists>cs'. setChild (selectBranch nid key) x n = Inner cs' \<and> wf_branches d (nibs d key) cs'"
proof -
  obtain cs where n: "n = Inner cs" using assms(1) by (cases n) auto
  have "wf_branches d (nibs d key) (cs[selectBranch nid key := x])"
    using wf_branches_update [of d "nibs d key" cs x "selectBranch nid key"] assms(2,5) nibs_step [OF assms(3,4), of key] n by simp
  then show ?thesis by (simp add: n)
qed

lemma plug_wf:
  "ctx key d c st \<Longrightarrow> 0 < d \<Longrightarrow> wf_node d (nibs d key) child \<Longrightarrow> c \<le> length (items child) \<Longrightarrow> wf_root (dirtyUp st key child)"
proof (induction st arbitrary: d c child)
  case (Cons f st)
  obtain n nid where f: "f = (n, nid)" by (cases f)
  let ?e = "nid_depth nid" and ?o = "length (before key n nid) + length (after key n nid)"
  from Cons.prems f have n: "\<not> isLeaf n" "wf_branches ?e (nibs ?e key) (branches n)" "?e < 64" "d = Suc ?e"
      "ctx key ?e (c + ?o) st" "?e > 0 \<longrightarrow> 2 \<le> c + ?o"
    by (simp_all add: add.assoc)
  obtain cs' where cs': "setChild (selectBranch nid key) (Some child) n = Inner cs'" "wf_branches ?e (nibs ?e key) cs'"
    using setChild_wf [OF n(1,2) refl n(3), of "Some child"] Cons.prems(3) n(4) by auto
  have len: "length (items (Inner cs')) = length (items child) + ?o"
    using setChild_items [OF n(1,2,3), of key "Some child"] cs'(1) by simp
  show ?case
  proof (cases "?e = 0")
    case True
    then have "st = []" using n(5) by (cases st) auto
    with f cs' True show ?thesis by simp
  next
    case False
    then have "wf_node ?e (nibs ?e key) (Inner cs')" using cs'(2) n(3,6) len Cons.prems(4) by (simp add: wf_Inner_iff)
    from Cons.IH [OF n(5) _ this] False len Cons.prems(4) f cs' show ?thesis by simp
  qed
qed simp

text \<open>The items around a place are below and above the key it is for.\<close>

lemma seg_sides:
  assumes "wf_branches d (nibs d key) cs" "nid_depth nid = d" "d < 64" "j < 16" "p \<in> set (seg (cs ! j))"
  shows "j < selectBranch nid key \<Longrightarrow> fst p < key" "selectBranch nid key < j \<Longrightarrow> key < fst p"
proof -
  have p: "nibs (Suc d) (fst p) = 16 * nibs d key + j" by (rule seg_nibs [OF assms(1,4,5)])
  have k: "nibs (Suc d) key = 16 * nibs d key + selectBranch nid key" by (rule nibs_step [OF assms(2,3)])
  have d: "Suc d \<le> 64" using assms(3) by simp
  show "fst p < key" if "j < selectBranch nid key" using nibs_mono [OF d, of "fst p" key] p k that by simp
  show "key < fst p" if "selectBranch nid key < j" using nibs_mono [OF d, of key "fst p"] p k that by simp
qed

lemma frame_sides:
  assumes "wf_branches d (nibs d key) (branches n)" "nid_depth nid = d" "d < 64"
  shows "p \<in> set (before key n nid) \<Longrightarrow> fst p < key" "p \<in> set (after key n nid) \<Longrightarrow> key < fst p"
proof -
  let ?cs = "branches n" and ?b = "selectBranch nid key"
  have len: "length ?cs = 16" using assms(1) by (simp add: wf_branches_def)
  have b: "?b < 16" using selectBranch_less [of nid key] assms by simp
  show "fst p < key" if p: "p \<in> set (before key n nid)"
  proof -
    from p obtain x where "x \<in> set (take ?b ?cs)" "p \<in> set (seg x)" by (auto simp: before_def)
    then obtain j where "j < ?b" "p \<in> set (seg (?cs ! j))" using len b by (auto simp: in_set_conv_nth [of x])
    with seg_sides(1) [OF assms, of j p] b show ?thesis by simp
  qed
  show "key < fst p" if p: "p \<in> set (after key n nid)"
  proof -
    from p obtain x where "x \<in> set (drop (Suc ?b) ?cs)" "p \<in> set (seg x)" by (auto simp: after_def)
    then obtain j where "j < 16 - Suc ?b" "p \<in> set (seg (?cs ! (Suc ?b + j)))" using len b by (auto simp: in_set_conv_nth [of x])
    with seg_sides(2) [OF assms, of "Suc ?b + j" p] show ?thesis by simp
  qed
qed

lemma ctx_sides:
  "ctx key d c st \<Longrightarrow> (\<forall>p \<in> set (lefts key st). fst p < key) \<and> (\<forall>p \<in> set (rights key st). key < fst p)"
proof (induction st arbitrary: d c)
  case (Cons f st)
  obtain n nid where f: "f = (n, nid)" by (cases f)
  with Cons.prems have n: "wf_branches (nid_depth nid) (nibs (nid_depth nid) key) (branches n)" "nid_depth nid < 64" by simp_all
  from Cons f frame_sides [OF n(1) refl n(2)] show ?case by auto
qed simp

subsection \<open>Where a walk ends\<close>

definition node_ok :: "u256 \<Rightarrow> nat \<Rightarrow> 'v tnode \<Rightarrow> bool" where
  "node_ok key d n \<longleftrightarrow> (if d = 0 then wf_root n else wf_node d (nibs d key) n)"

definition reached :: "u256 \<Rightarrow> 'v tnode \<Rightarrow> 'v tnode \<Rightarrow> node_id \<Rightarrow> 'v node_stack \<Rightarrow> bool" where
  "reached key root node nid st \<longleftrightarrow>
     ctx key (nid_depth nid) (length (items node)) st \<and> nid_ok nid \<and> node_ok key (nid_depth nid) node \<and>
     dirtyUp st key node = root \<and>
     (case node of Leaf _ _ _ \<Rightarrow> True | Inner cs \<Rightarrow> nid_depth nid < 64 \<and> cs ! selectBranch nid key = None)"

lemma node_ok_Inner: "node_ok key d (Inner cs) \<Longrightarrow> d < 64 \<and> wf_branches d (nibs d key) cs \<and> (0 < d \<longrightarrow> 2 \<le> length (items (Inner cs)))"
  by (auto simp: node_ok_def wf_Inner_iff split: if_splits)

lemma walk_reaches:
  assumes "node_ok key (nid_depth nid) n" "nid_ok nid" "ctx key (nid_depth nid) (length (items n)) st" "dirtyUp st key n = root"
  shows "\<exists>node nid' st'. walkTowardsKey n nid key st = Inr ((node, nid') # st', if isLeaf node then Some node else None) \<and>
    reached key root node nid' st'"
  using assms
proof (induction n nid key st rule: walkTowardsKey.induct)
  case (1 k ty v nid key st)
  then show ?case by (simp add: reached_def)
next
  case (2 cs nid key st)
  let ?b = "selectBranch nid key"
  note ok = node_ok_Inner [OF "2.prems"(1)]
  have b: "?b < 16" "length cs = 16" using ok selectBranch_less [of nid key] by (auto simp: wf_branches_def)
  show ?case
  proof (cases "cs ! ?b")
    case None
    with 2 b ok show ?thesis by (simp add: isEmptyBranch_def reached_def)
  next
    case (Some c)
    then have e: "\<not> isEmptyBranch cs ?b" using b by (simp add: isEmptyBranch_def)
    obtain nid' where nid': "getChildNodeID nid ?b = Inr nid'" "nid_ok nid'" "nid_depth nid' = Suc (nid_depth nid)"
      using child_id [OF "2.prems"(2) refl, of ?b] ok by blast
    have c: "wf_node (Suc (nid_depth nid)) (nibs (Suc (nid_depth nid)) key) c"
      using wf_branchesD [of "nid_depth nid" "nibs (nid_depth nid) key" cs ?b c] ok b Some nibs_step [OF refl, of nid key] by simp
    have same: "cs[?b := Some c] = cs" using Some by (metis list_update_id)
    have "items (Inner cs) = before key (Inner cs) nid @ items c @ after key (Inner cs) nid"
      using split_items [of ?b cs "Some c"] b by (simp add: same before_def after_def)
    then have len: "length (items (Inner cs)) = length (items c) + length (before key (Inner cs) nid) + length (after key (Inner cs) nid)"
      by simp
    have "ctx key (Suc (nid_depth nid)) (length (items c)) ((Inner cs, nid) # st)"
      using "2.prems"(2,3) ok len by simp
    moreover have "dirtyUp ((Inner cs, nid) # st) key c = root" using "2.prems"(4) same by simp
    ultimately show ?thesis
      using "2.IH" [OF refl refl e Some nid'(1)] e Some nid' c by (simp add: node_ok_def)
  qed
qed

lemma walk_root:
  assumes "wf_root root"
  obtains node nid st where
    "walkTowardsKey root root_id key [] = Inr ((node, nid) # st, if isLeaf node then Some node else None)"
    "reached key root node nid st"
  using walk_reaches [of key root_id root "[]" root] assms by (auto simp: node_ok_def)

lemma reached_items: "reached key root node nid st \<Longrightarrow> items root = lefts key st @ items node @ rights key st"
  using dirtyUp_items [of key "nid_depth nid" "length (items node)" st node] by (simp add: reached_def)

lemma reached_sides:
  assumes "reached key root node nid st"
  shows "\<forall>p \<in> set (lefts key st). fst p < key" "\<forall>p \<in> set (rights key st). key < fst p"
  using ctx_sides [of key "nid_depth nid" "length (items node)" st] assms by (auto simp: reached_def)

text \<open>A walk that ends at a free branch of an inner node.\<close>

lemma reached_Inner:
  assumes "reached key root (Inner cs) nid st"
  shows "items (Inner cs) = before key (Inner cs) nid @ after key (Inner cs) nid"
    "\<forall>p \<in> set (before key (Inner cs) nid). fst p < key" "\<forall>p \<in> set (after key (Inner cs) nid). key < fst p"
proof -
  have ok: "nid_depth nid < 64" "wf_branches (nid_depth nid) (nibs (nid_depth nid) key) cs" "cs ! selectBranch nid key = None"
    using assms node_ok_Inner [of key "nid_depth nid" cs] by (auto simp: reached_def)
  have "setChild (selectBranch nid key) None (Inner cs) = Inner cs" using ok(3) by (metis list_update_id setChild.simps(1))
  then show "items (Inner cs) = before key (Inner cs) nid @ after key (Inner cs) nid"
    using setChild_items [of "Inner cs" _ _ nid key None] ok by simp
  show "\<forall>p \<in> set (before key (Inner cs) nid). fst p < key" "\<forall>p \<in> set (after key (Inner cs) nid). key < fst p"
    using frame_sides [of "nid_depth nid" key "Inner cs" nid] ok by auto
qed

subsection \<open>Finding\<close>

lemma map_of_sides:
  fixes key :: "'k::linorder"
  assumes "\<forall>p \<in> set L. fst p < key" "\<forall>p \<in> set R. key < fst p"
  shows "map_of (L @ R) key = None" "map_of (L @ (key, x) # R) key = Some x"
    "k \<noteq> key \<Longrightarrow> map_of (L @ (k, x) # R) key = None"
proof -
  have "key \<notin> fst ` set L" using assms(1) by force
  moreover have "key \<notin> fst ` set R" using assms(2) by force
  ultimately have "map_of L key = None" "map_of R key = None" by (simp_all add: map_of_eq_None_iff)
  then show "map_of (L @ R) key = None" "map_of (L @ (key, x) # R) key = Some x" "k \<noteq> key \<Longrightarrow> map_of (L @ (k, x) # R) key = None"
    by (simp_all add: map_add_def)
qed

lemma findKey_items:
  assumes "wf_root root"
  shows "\<exists>r. findKey root key = Inr r \<and>
    (case map_of (items root) key of None \<Rightarrow> r = None | Some (ty, v) \<Rightarrow> r = Some (Leaf key ty v))"
proof -
  obtain node nid st where w: "walkTowardsKey root root_id key [] = Inr ((node, nid) # st, if isLeaf node then Some node else None)"
      "reached key root node nid st"
    using walk_root [OF assms] .
  note i = reached_items [OF w(2)] and s = reached_sides [OF w(2)]
  show ?thesis
  proof (cases node)
    case (Leaf k ty v)
    then have "map_of (items root) key = (if k = key then Some (ty, v) else None)"
      using i map_of_sides(2,3) [OF s, where x = "(ty, v)"] by simp
    then show ?thesis using w(1) Leaf by (simp add: findKey_def)
  next
    case (Inner cs)
    note inn = reached_Inner [OF w(2) [unfolded Inner]]
    have "map_of (items root) key = None"
      using map_of_sides(1) [of "lefts key st @ before key (Inner cs) nid" key "after key (Inner cs) nid @ rights key st"] i inn s Inner
      by auto
    then show ?thesis using w(1) Inner by (simp add: findKey_def)
  qed
qed

lemma peekItem_items:
  "wf_root root \<Longrightarrow> peekItem root key = Inr (map_option snd (map_of (items root) key))"
  using findKey_items [of root key] by (cases "map_of (items root) key") (auto simp: peekItem_def split: prod.splits)

lemma hasItem_items:
  "wf_root root \<Longrightarrow> hasItem root key = Inr (map_of (items root) key \<noteq> None)"
  using findKey_items [of root key] by (cases "map_of (items root) key") (auto simp: hasItem_def split: prod.splits)

subsection \<open>Adding\<close>

lemma map_insert_sides:
  "\<forall>p \<in> set L. fst p < key \<Longrightarrow> \<forall>p \<in> set R. key < fst p \<Longrightarrow> map_insert key x (L @ R) = L @ (key, x) # R"
proof (induction L)
  case Nil
  then show ?case by (cases R) auto
next
  case (Cons p L)
  then have "fst p < key" "\<not> key < fst p" by auto
  with Cons show ?case by (cases p) simp
qed

lemma empty_inner_wf: "wf_branches d t (replicate 16 None)"
  by (simp add: wf_branches_def)

lemma empty_frame: "before key empty_inner nid = []" "after key empty_inner nid = []"
  by (simp_all add: before_def after_def empty_inner_def)

text \<open>Making room: the walk goes on while both keys agree, and ends before depth 64.\<close>

lemma split_leaf_ends:
  assumes "nid_ok nid" "nid_depth nid = d" "d \<le> 64" "tag \<noteq> other" "nibs d tag = nibs d other" "ctx tag d 2 st"
  shows "\<exists>st' nid'. split_leaf nid tag other st = Inr (st', nid') \<and> nid_ok nid' \<and> nid_depth nid' < 64 \<and> d \<le> nid_depth nid' \<and>
    nibs (nid_depth nid') tag = nibs (nid_depth nid') other \<and> selectBranch nid' tag \<noteq> selectBranch nid' other \<and>
    ctx tag (nid_depth nid') 2 st' \<and> lefts tag st' = lefts tag st \<and> rights tag st' = rights tag st"
  using assms
proof (induction "64 - d" arbitrary: nid st d rule: less_induct)
  case less
  have d: "d < 64" using less.prems nibs_eq_64 by (metis le_neq_implies_less)
  show ?case
  proof (cases "selectBranch nid tag = selectBranch nid other")
    case False
    then show ?thesis using less.prems d by (simp add: split_leaf.simps)
  next
    case True
    obtain n' where n': "getChildNodeID nid (selectBranch nid tag) = Inr n'" "nid_ok n'" "nid_depth n' = Suc d"
      using child_id [OF less.prems(1,2) d] by blast
    have step: "split_leaf nid tag other st = split_leaf n' tag other ((empty_inner, nid) # st)"
      using True n' by (simp add: split_leaf.simps [of nid])
    have t: "nibs (Suc d) tag = nibs (Suc d) other" using nibs_step [OF less.prems(2) d] True less.prems(5) by simp
    have "ctx tag (Suc d) 2 ((empty_inner, nid) # st)"
      using less.prems d empty_inner_wf by (simp add: empty_frame) (simp add: empty_inner_def kBRANCH_FACTOR_def)
    then obtain st' nid' where "split_leaf n' tag other ((empty_inner, nid) # st) = Inr (st', nid')" "nid_ok nid'"
        "nid_depth nid' < 64" "Suc d \<le> nid_depth nid'" "nibs (nid_depth nid') tag = nibs (nid_depth nid') other"
        "selectBranch nid' tag \<noteq> selectBranch nid' other" "ctx tag (nid_depth nid') 2 st'"
        "lefts tag st' = lefts tag ((empty_inner, nid) # st)" "rights tag st' = rights tag ((empty_inner, nid) # st)"
      using less.hyps [of "Suc d" n' "(empty_inner, nid) # st", OF _ n'(2,3) _ less.prems(4) t] d diff_less_mono2 [of d "Suc d" 64]
      by (auto simp del: ctx.simps)
    with step show ?thesis by (auto simp: empty_frame)
  qed
qed

text \<open>The new inner node with the two leaves.\<close>

definition two_leaves :: "node_id \<Rightarrow> node_type \<Rightarrow> u256 \<Rightarrow> 'v \<Rightarrow> u256 \<Rightarrow> 'v \<Rightarrow> 'v tnode" where
  "two_leaves nid ty tag v other v' =
     setChild (selectBranch nid other) (Some (Leaf other ty v')) (setChild (selectBranch nid tag) (Some (Leaf tag ty v)) empty_inner)"

lemma two_leaves_wf:
  assumes "nid_depth nid = d" "d < 64" "nibs d tag = nibs d other" "selectBranch nid tag \<noteq> selectBranch nid other"
  shows "wf_branches d (nibs d tag) (branches (two_leaves nid ty tag v other v')) \<and> \<not> isLeaf (two_leaves nid ty tag v other v')"
proof -
  have t: "16 * nibs d tag + selectBranch nid tag = nibs (Suc d) tag" "16 * nibs d tag + selectBranch nid other = nibs (Suc d) other"
    using nibs_step [OF assms(1,2)] assms(3) by simp_all
  have "wf_node (Suc d) (nibs (Suc d) k) (Leaf k ty x)" for k and x :: 'a using assms(2) by (simp add: wf_Leaf)
  then show ?thesis
    using t empty_inner_wf by (auto simp: two_leaves_def empty_inner_def kBRANCH_FACTOR_def intro!: wf_branches_update)
qed

lemma set_concat_seg: "p \<in> set (items (Inner cs)) \<longleftrightarrow> (\<exists>i < length cs. p \<in> set (seg (cs ! i)))"
  by (auto simp: items_Inner in_set_conv_nth [of _ cs]) (metis nth_mem)

lemma two_leaves_items:
  assumes "nid_depth nid = d" "d < 64" "nibs d tag = nibs d other" "selectBranch nid tag \<noteq> selectBranch nid other"
  shows "items (two_leaves nid ty tag v other v') =
    (if tag < other then [(tag, (ty, v)), (other, (ty, v'))] else [(other, (ty, v')), (tag, (ty, v))])"
proof -
  let ?n = "two_leaves nid ty tag v other v'"
  note wf = two_leaves_wf [OF assms, of ty v v']
  let ?cs = "(replicate 16 None)[selectBranch nid tag := Some (Leaf tag ty v), selectBranch nid other := Some (Leaf other ty v')]"
  have n: "?n = Inner ?cs" by (simp add: two_leaves_def empty_inner_def kBRANCH_FACTOR_def)
  have b: "selectBranch nid tag < 16" "selectBranch nid other < 16" using selectBranch_less assms by auto
  have "p \<in> set (items ?n) \<longleftrightarrow> p = (tag, (ty, v)) \<or> p = (other, (ty, v'))" for p
    unfolding n set_concat_seg using b assms(4)
    by (auto simp: nth_list_update nth_replicate split: if_splits)
  then have set: "set (items ?n) = {(tag, (ty, v)), (other, (ty, v'))}" by auto
  have asc: "ascending (items ?n)"
    unfolding n by (rule branches_ascending [OF _ assms(2)]) (use wf n in \<open>auto intro: wf_ascending dest: wf_branchesD\<close>)
  have "tag \<noteq> other" using assms(4) by auto
  show ?thesis
  proof (rule ascending_unique [OF asc])
    show a: "ascending (if tag < other then [(tag, (ty, v)), (other, (ty, v'))] else [(other, (ty, v')), (tag, (ty, v))])"
      using \<open>tag \<noteq> other\<close> by (auto simp: ascending_Cons)
    show "map_of (items ?n) = map_of (if tag < other then [(tag, (ty, v)), (other, (ty, v'))] else [(other, (ty, v')), (tag, (ty, v))])"
      using map_of_inject_set [OF ascending_distinct [OF asc, unfolded keys_distinct_def] ascending_distinct [OF a, unfolded keys_distinct_def]]
        set \<open>tag \<noteq> other\<close> by auto
  qed
qed

definition typed :: "node_type \<Rightarrow> 'v tnode \<Rightarrow> bool" where
  "typed ty n \<longleftrightarrow> (\<forall>p \<in> set (items n). fst (snd p) = ty)"

lemma add_free:
  fixes v :: 'v and ty :: node_type
  assumes "reached tag root (Inner cs) nid st"
  defines "new \<equiv> dirtyUp st tag (setChild (selectBranch nid tag) (Some (Leaf tag ty v)) (Inner cs))"
  shows "wf_root new \<and> map_of (items root) tag = None \<and> items new = map_insert tag (ty, v) (items root)"
proof -
  let ?d = "nid_depth nid" and ?n = "setChild (selectBranch nid tag) (Some (Leaf tag ty v)) (Inner cs)"
  note r = assms(1) [unfolded reached_def]
  have ok: "?d < 64" "wf_branches ?d (nibs ?d tag) cs" "0 < ?d \<longrightarrow> 2 \<le> length (items (Inner cs))"
    using r node_ok_Inner [of tag ?d cs] by auto
  note inn = reached_Inner [OF assms(1)] and s = reached_sides [OF assms(1)]
  have ctx: "ctx tag ?d (length (items (Inner cs))) st" using r by simp
  have n: "items ?n = before tag (Inner cs) nid @ (tag, (ty, v)) # after tag (Inner cs) nid"
    using setChild_items [of "Inner cs" ?d "nibs ?d tag" nid tag "Some (Leaf tag ty v)"] ok by simp
  have leaf: "wf_node (Suc ?d) (nibs (Suc ?d) tag) (Leaf tag ty v)" using ok(1) by (simp add: wf_Leaf)
  obtain cs' where cs': "?n = Inner cs'" "wf_branches ?d (nibs ?d tag) cs'"
    using setChild_wf [of "Inner cs" ?d tag nid "Some (Leaf tag ty v)"] ok leaf by auto
  have len: "length (items ?n) = Suc (length (items (Inner cs)))" using n inn(1) by simp
  have "wf_root new"
  proof (cases "?d = 0")
    case True
    then have "st = []" using ctx by (cases st) auto
    with cs' True show ?thesis by (simp add: new_def)
  next
    case False
    then have "wf_node ?d (nibs ?d tag) ?n" using cs' ok len by (simp add: wf_Inner_iff)
    from plug_wf [OF ctx _ this] False len show ?thesis by (simp add: new_def)
  qed
  moreover have split: "items root = (lefts tag st @ before tag (Inner cs) nid) @ (after tag (Inner cs) nid @ rights tag st)"
    using reached_items [OF assms(1)] inn(1) by simp
  moreover have sides: "\<forall>p \<in> set (lefts tag st @ before tag (Inner cs) nid). fst p < tag"
      "\<forall>p \<in> set (after tag (Inner cs) nid @ rights tag st). tag < fst p"
    using inn(2,3) s by auto
  moreover have "items new = (lefts tag st @ before tag (Inner cs) nid) @ (tag, (ty, v)) # (after tag (Inner cs) nid @ rights tag st)"
    unfolding new_def dirtyUp_items [OF ctx] n by simp
  ultimately show ?thesis using map_insert_sides [OF sides] map_of_sides(1) [OF sides] by simp
qed

lemma add_beside:
  assumes "reached tag root (Leaf other ty v') nid st" "other \<noteq> tag"
  obtains st' nid' where "split_leaf nid tag other st = Inr (st', nid')"
    "wf_root (dirtyUp st' tag (two_leaves nid' ty tag v other v'))"
    "map_of (items root) tag = None"
    "items (dirtyUp st' tag (two_leaves nid' ty tag v other v')) = map_insert tag (ty, v) (items root)"
proof -
  let ?d = "nid_depth nid"
  note r = assms(1) [unfolded reached_def]
  have d: "0 < ?d" using r by (auto simp: node_ok_def split: if_splits)
  then have leaf: "nibs ?d tag = nibs ?d other" "?d \<le> 64" using r by (auto simp: node_ok_def elim: wf_LeafE)
  have "ctx tag ?d 2 st" using r ctx_mono [of tag ?d 1 st 2] by simp
  then obtain st' nid' where sp: "split_leaf nid tag other st = Inr (st', nid')" "nid_ok nid'" "nid_depth nid' < 64" "?d \<le> nid_depth nid'"
      "nibs (nid_depth nid') tag = nibs (nid_depth nid') other" "selectBranch nid' tag \<noteq> selectBranch nid' other"
      "ctx tag (nid_depth nid') 2 st'" "lefts tag st' = lefts tag st" "rights tag st' = rights tag st"
    using split_leaf_ends [of nid ?d tag other st] r leaf assms(2) by blast
  let ?n = "two_leaves nid' ty tag v other v'"
  note two = two_leaves_wf [OF refl sp(3,5,6), of ty v v'] and it = two_leaves_items [OF refl sp(3,5,6), of ty v v']
  have "wf_node (nid_depth nid') (nibs (nid_depth nid') tag) ?n"
    using two it sp(3) by (cases ?n) (auto simp: wf_Inner_iff)
  then have wf: "wf_root (dirtyUp st' tag ?n)" using plug_wf [OF sp(7)] d sp(4) it by simp
  have s: "\<forall>p \<in> set (lefts tag st). fst p < tag" "\<forall>p \<in> set (rights tag st). tag < fst p" using reached_sides [OF assms(1)] .
  have root: "items root = lefts tag st @ (other, (ty, v')) # rights tag st" using reached_items [OF assms(1)] by simp
  have new: "items (dirtyUp st' tag ?n) = lefts tag st @ items ?n @ rights tag st" using dirtyUp_items [OF sp(7)] sp(8,9) by simp
  have "items (dirtyUp st' tag ?n) = map_insert tag (ty, v) (items root)"
  proof (cases "tag < other")
    case True
    then have "\<forall>p \<in> set ((other, (ty, v')) # rights tag st). tag < fst p" using s(2) by simp
    from map_insert_sides [OF s(1) this, of "(ty, v)"] root new it True show ?thesis by simp
  next
    case False
    then have "\<forall>p \<in> set (lefts tag st @ [(other, (ty, v'))]). fst p < tag" using s(1) assms(2) by auto
    from map_insert_sides [OF this s(2), of "(ty, v)"] root new it False show ?thesis by simp
  qed
  moreover have "map_of (items root) tag = None" using map_of_sides(3) [OF s assms(2), of "(ty, v')"] root by simp
  ultimately show ?thesis using that sp(1) wf by blast
qed

lemma addGiveItem_items:
  assumes "wf_root root" "typed ty root"
  shows "\<exists>root'. addGiveItem ty tag v root = Inr (map_of (items root) tag = None, root') \<and> wf_root root' \<and>
    items root' = map_insert tag (ty, v) (items root)"
proof -
  obtain node nid st where w: "walkTowardsKey root root_id tag [] = Inr ((node, nid) # st, if isLeaf node then Some node else None)"
      "reached tag root node nid st"
    using walk_root [OF assms(1)] .
  show ?thesis
  proof (cases node)
    case (Inner cs)
    then show ?thesis using w add_free [of tag root cs nid st ty v] by (simp add: addGiveItem_def)
  next
    case (Leaf other ty' v')
    note i = reached_items [OF w(2)] and s = reached_sides [OF w(2)]
    have ty: "ty' = ty" using assms(2) i Leaf by (simp add: typed_def)
    show ?thesis
    proof (cases "other = tag")
      case True
      then have m: "map_of (items root) tag = Some (ty', v')" using i Leaf map_of_sides(2) [OF s, of "(ty', v')"] by simp
      have asc: "ascending (items root)" by (rule root_ascending [OF assms(1)])
      have "map_of (map_insert tag (ty, v) (items root)) = map_of (items root)" using map_of_map_insert [OF asc] m by simp
      then have "map_insert tag (ty, v) (items root) = items root"
        using ascending_unique [OF ascending_insert [OF asc] asc] by blast
      then show ?thesis using w Leaf True m assms(1) by (simp add: addGiveItem_def)
    next
      case False
      then obtain st' nid' where "split_leaf nid tag other st = Inr (st', nid')"
          "wf_root (dirtyUp st' tag (two_leaves nid' ty tag v other v'))" "map_of (items root) tag = None"
          "items (dirtyUp st' tag (two_leaves nid' ty tag v other v')) = map_insert tag (ty, v) (items root)"
        using add_beside [of tag root other ty v' nid st v] w(2) Leaf ty by blast
      then show ?thesis using w Leaf False ty by (simp add: addGiveItem_def two_leaves_def Let_def)
    qed
  qed
qed

subsection \<open>Updating\<close>

lemma update_sides:
  fixes key :: "'k::linorder"
  assumes "\<forall>p \<in> set L. fst p < key"
  shows "AList.update key y (L @ (key, x) # R) = L @ (key, y) # R"
  using assms by (induction L) auto

lemma updateGiveItem_items:
  assumes "wf_root root" "typed ty root" "\<And>k x y. leafHash k ty x = leafHash k ty y \<Longrightarrow> x = y"
  shows "\<exists>root'. updateGiveItem leafHash ty tag v root = Inr (map_of (items root) tag \<noteq> None, root') \<and> wf_root root' \<and>
    items root' = (if map_of (items root) tag \<noteq> None then AList.update tag (ty, v) (items root) else items root)"
proof -
  obtain node nid st where w: "walkTowardsKey root root_id tag [] = Inr ((node, nid) # st, if isLeaf node then Some node else None)"
      "reached tag root node nid st"
    using walk_root [OF assms(1)] .
  note i = reached_items [OF w(2)] and s = reached_sides [OF w(2)] and r = w(2) [unfolded reached_def]
  show ?thesis
  proof (cases node)
    case (Inner cs)
    have "map_of (items root) tag = None"
      using findKey_items [OF assms(1), of tag] w(1) Inner by (auto simp: findKey_def split: option.splits)
    then show ?thesis using w(1) Inner assms(1) by (simp add: updateGiveItem_def)
  next
    case (Leaf k ty' old)
    have ty: "ty' = ty" using assms(2) i Leaf by (simp add: typed_def)
    show ?thesis
    proof (cases "k = tag")
      case False
      then have "map_of (items root) tag = None" using i Leaf map_of_sides(3) [OF s False, of "(ty', old)"] by simp
      then show ?thesis using w(1) Leaf False assms(1) by (simp add: updateGiveItem_def)
    next
      case True
      let ?n = "Leaf tag ty v"
      have m: "map_of (items root) tag = Some (ty, old)" using i Leaf True ty map_of_sides(2) [OF s, of "(ty, old)"] by simp
      have up: "AList.update tag (ty, v) (items root) = lefts tag st @ (tag, (ty, v)) # rights tag st"
        using update_sides [OF s(1)] i Leaf True by simp
      show ?thesis
      proof (cases "leafHash tag ty old = leafHash tag ty v")
        case same: True
        then have "old = v" using assms(3) by blast
        then show ?thesis using w(1) Leaf True ty m up i assms(1) same by (simp add: updateGiveItem_def)
      next
        case differ: False
        have d: "0 < nid_depth nid" using r Leaf by (auto simp: node_ok_def split: if_splits)
        then have "nid_depth nid \<le> 64" using r Leaf by (auto simp: node_ok_def elim: wf_LeafE)
        then have "wf_node (nid_depth nid) (nibs (nid_depth nid) tag) ?n" by (simp add: wf_Leaf)
        then have "wf_root (dirtyUp st tag ?n)" using plug_wf [of tag "nid_depth nid" 1 st ?n] r Leaf d by simp
        moreover have "items (dirtyUp st tag ?n) = lefts tag st @ (tag, (ty, v)) # rights tag st"
          using dirtyUp_items [of tag "nid_depth nid" "length (items node)" st ?n] r by simp
        ultimately show ?thesis using w(1) Leaf True ty m up differ by (simp add: updateGiveItem_def)
      qed
    qed
  qed
qed

subsection \<open>Deleting\<close>

lemma seg_filtered: "concat (map seg (filter (\<lambda>c. c \<noteq> None) cs)) = concat (map seg cs)"
  by (induction cs) auto

lemma onlyBelow_leaf: "wf_node d t n \<Longrightarrow> onlyBelow n = (case n of Leaf k ty v \<Rightarrow> Some (k, v) | Inner cs \<Rightarrow> None)"
proof (induction rule: wf_node.induct)
  case (wf_Inner d cs t)
  have "onlyBelow (Inner cs) = None"
  proof (cases "filter (\<lambda>c. c \<noteq> None) cs")
    case (Cons x xs)
    show ?thesis
    proof (cases xs)
      case Nil
      then have "x \<in> set (filter (\<lambda>c. c \<noteq> None) cs)" using Cons by simp
      then obtain i c where c: "i < 16" "cs ! i = Some c" "x = Some c" using wf_Inner(2) by (auto simp: in_set_conv_nth [of x cs])
      have "items (Inner cs) = items c" using seg_filtered [of cs] Cons Nil c(3) by (simp add: items_Inner)
      moreover have "2 \<le> length (items (Inner cs))" by fact
      ultimately obtain cs' where "c = Inner cs'" by (cases c) auto
      then show ?thesis using wf_Inner.IH [OF c(1,2)] Cons Nil c(3) by simp
    qed (use Cons in \<open>cases x; simp\<close>)
  qed simp
  then show ?case by simp
qed simp

lemma branches_nibs:
  assumes "wf_branches d t cs" "d < 64" "p \<in> set (items (Inner cs))"
  shows "nibs d (fst p) = t"
proof -
  obtain i where "i < 16" "p \<in> set (seg (cs ! i))" using assms(1,3) by (auto simp: set_concat_seg wf_branches_def)
  with seg_nibs [OF assms(1)] nibs_div [OF assms(2), of "fst p"] show ?thesis by simp
qed

lemma branch_count_le:
  assumes "wf_branches d t cs"
  shows "getBranchCount cs \<le> length (items (Inner cs))"
proof -
  have "1 \<le> length (seg c)" if c: "c \<in> set cs" "c \<noteq> None" for c
  proof -
    obtain i where "i < 16" "cs ! i = c" using c(1) assms by (auto simp: in_set_conv_nth wf_branches_def)
    with seg_Nil [OF assms, of i] c(2) show ?thesis by (cases "seg c") auto
  qed
  then have "length (filter (\<lambda>c. c \<noteq> None) cs) \<le> length (concat (map seg cs))"
  proof (induction cs)
    case (Cons a cs)
    have "length (filter (\<lambda>c. c \<noteq> None) cs) \<le> length (concat (map seg cs))" using Cons by simp
    moreover have "a \<noteq> None \<longrightarrow> 1 \<le> length (seg a)" using Cons.prems [of a] by simp
    ultimately show ?case by auto
  qed simp
  then show ?thesis by (simp add: getBranchCount_def items_Inner)
qed

text \<open>What goes up from a node that lost an item.\<close>

definition pulled :: "node_type \<Rightarrow> 'v tnode \<Rightarrow> 'v tnode option" where
  "pulled ty n =
     (if getBranchCount (branches n) = 0 then None
      else if getBranchCount (branches n) = 1
           then (case onlyBelow n of Some (k, item) \<Rightarrow> Some (Leaf k ty item) | None \<Rightarrow> Some n)
      else Some n)"

lemma del_loop_up:
  "nid_depth nid \<noteq> 0 \<Longrightarrow> del_loop key ty ((n, nid) # st) prev root =
     del_loop key ty st (pulled ty (setChild (selectBranch nid key) prev n)) root"
  by (simp add: pulled_def Let_def split: option.split)

lemma pulled_ok:
  assumes wf: "wf_branches d t cs" "d < 64" and len: "1 \<le> length (items (Inner cs))"
    and ty: "\<forall>p \<in> set (items (Inner cs)). fst (snd p) = ty"
  shows "\<exists>n. pulled ty (Inner cs) = Some n \<and> wf_node d t n \<and> items n = items (Inner cs)"
proof -
  let ?f = "filter (\<lambda>c. c \<noteq> None) cs"
  have cnt: "getBranchCount cs = length ?f" by (simp add: getBranchCount_def)
  have it: "items (Inner cs) = concat (map seg ?f)" using seg_filtered [of cs] by (simp add: items_Inner)
  have nonempty: "?f \<noteq> []" using len unfolding it by (cases ?f) simp_all
  show ?thesis
  proof (cases "length ?f = 1")
    case False
    then have "2 \<le> getBranchCount cs" using nonempty cnt by (cases ?f) (auto simp: Suc_le_eq)
    then have "2 \<le> length (items (Inner cs))" using branch_count_le [OF wf(1)] by simp
    then show ?thesis using False nonempty cnt wf by (simp add: pulled_def wf_Inner_iff)
  next
    case True
    then obtain x where f: "?f = [x]" by (auto simp: length_Suc_conv)
    then have "x \<in> set ?f" by simp
    then obtain i c where c: "i < 16" "cs ! i = Some c" "x = Some c"
      using wf(1) by (auto simp: in_set_conv_nth [of x cs] wf_branches_def)
    have ci: "items c = items (Inner cs)" using it f c(3) by simp
    have cwf: "wf_node (Suc d) (16 * t + i) c" by (rule wf_branchesD [OF wf(1) c(1,2)])
    have ob: "onlyBelow (Inner cs) = onlyBelow c" using f c(3) by simp
    show ?thesis
    proof (cases c)
      case (Leaf k ty' v)
      then have p: "(k, (ty', v)) \<in> set (items (Inner cs))" using ci [symmetric] by simp
      have "nibs d k = t" using branches_nibs [OF wf p] by simp
      moreover have "ty' = ty" using ty p by auto
      moreover have "pulled ty (Inner cs) = Some (Leaf k ty v)"
        using True cnt ob Leaf by (simp add: pulled_def)
      ultimately show ?thesis using ci Leaf wf(2) by (auto simp: wf_Leaf)
    next
      case (Inner cs')
      then have "onlyBelow (Inner cs) = None" using onlyBelow_leaf [OF cwf] ob by simp
      moreover have "2 \<le> length (items (Inner cs))" using cwf Inner ci by (simp add: wf_Inner_iff)
      ultimately show ?thesis using True cnt wf by (simp add: pulled_def wf_Inner_iff)
    qed
  qed
qed

lemma del_loop_ok:
  assumes "ctx key d c st" "0 < d" "c = Suc (length (seg prev))" "\<And>n. prev = Some n \<Longrightarrow> wf_node d (nibs d key) n"
    "\<forall>p \<in> set (lefts key st @ seg prev @ rights key st). fst (snd p) = ty"
  shows "wf_root (del_loop key ty st prev root) \<and> items (del_loop key ty st prev root) = lefts key st @ seg prev @ rights key st"
  using assms
proof (induction st arbitrary: d c prev root)
  case (Cons f st)
  obtain n nid where f: "f = (n, nid)" by (cases f)
  let ?e = "nid_depth nid" and ?o = "length (before key n nid) + length (after key n nid)"
  from Cons.prems f have n: "\<not> isLeaf n" "wf_branches ?e (nibs ?e key) (branches n)" "?e < 64" "d = Suc ?e"
      "ctx key ?e (c + ?o) st" "?e > 0 \<longrightarrow> 2 \<le> c + ?o"
    by (simp_all add: add.assoc)
  obtain cs' where cs': "setChild (selectBranch nid key) prev n = Inner cs'" "wf_branches ?e (nibs ?e key) cs'"
    using setChild_wf [OF n(1,2) refl n(3), of prev] Cons.prems(4) n(4) by auto
  have it: "items (Inner cs') = before key n nid @ seg prev @ after key n nid"
    using setChild_items [OF n(1,2,3), of key prev] cs'(1) by simp
  show ?case
  proof (cases "?e = 0")
    case True
    then have "st = []" using n(5) by (cases st) auto
    with f cs' it True show ?thesis by simp
  next
    case False
    have "1 \<le> length (items (Inner cs'))" using n(6) False it Cons.prems(3) by simp
    moreover have "\<forall>p \<in> set (items (Inner cs')). fst (snd p) = ty" using Cons.prems(5) f it by auto
    ultimately obtain m where m: "pulled ty (Inner cs') = Some m" "wf_node ?e (nibs ?e key) m" "items m = items (Inner cs')"
      using pulled_ok [OF cs'(2) n(3)] by blast
    have "wf_root (del_loop key ty st (Some m) root) \<and>
        items (del_loop key ty st (Some m) root) = lefts key st @ seg (Some m) @ rights key st"
      using Cons.IH [OF n(5), of "Some m"] False m it Cons.prems(3,5) f by simp
    then show ?thesis using del_loop_up [OF False, of key ty n st prev root] cs'(1) m it f by simp
  qed
qed simp

lemma delete_sides:
  fixes key :: "'k::linorder"
  assumes "\<forall>p \<in> set L. fst p < key" "\<forall>p \<in> set R. key < fst p"
  shows "AList.delete key (L @ (key, x) # R) = L @ R" "AList.delete key (L @ R) = L @ R"
    "k \<noteq> key \<Longrightarrow> AList.delete key (L @ (k, x) # R) = L @ (k, x) # R"
proof -
  have "filter (\<lambda>p. key \<noteq> fst p) L = L" "filter (\<lambda>p. key \<noteq> fst p) R = R" using assms by (auto simp: filter_id_conv)
  then show "AList.delete key (L @ (key, x) # R) = L @ R" "AList.delete key (L @ R) = L @ R"
    "k \<noteq> key \<Longrightarrow> AList.delete key (L @ (k, x) # R) = L @ (k, x) # R"
    by (simp_all add: AList.delete_eq case_prod_unfold)
qed

lemma delItem_items:
  assumes "wf_root root" "typed ty root"
  shows "\<exists>root'. delItem key root = Inr (map_of (items root) key \<noteq> None, root') \<and> wf_root root' \<and>
    items root' = AList.delete key (items root)"
proof -
  obtain node nid st where w: "walkTowardsKey root root_id key [] = Inr ((node, nid) # st, if isLeaf node then Some node else None)"
      "reached key root node nid st"
    using walk_root [OF assms(1)] .
  note i = reached_items [OF w(2)] and s = reached_sides [OF w(2)] and r = w(2) [unfolded reached_def]
  have absent: "AList.delete key (items root) = items root" if "map_of (items root) key = None"
    using that by (simp add: map_of_eq_None_iff delete_id)
  show ?thesis
  proof (cases node)
    case (Inner cs)
    have "map_of (items root) key = None"
      using findKey_items [OF assms(1), of key] w(1) Inner by (auto simp: findKey_def split: option.splits)
    then show ?thesis using w(1) Inner assms(1) absent by (simp add: delItem_def)
  next
    case (Leaf k ty' v)
    have ty: "ty' = ty" using assms(2) i Leaf by (simp add: typed_def)
    show ?thesis
    proof (cases "k = key")
      case False
      then have "map_of (items root) key = None" using i Leaf map_of_sides(3) [OF s False, of "(ty', v)"] by simp
      then show ?thesis using w(1) Leaf False assms(1) absent by (simp add: delItem_def)
    next
      case True
      have m: "map_of (items root) key \<noteq> None" using i Leaf True map_of_sides(2) [OF s, of "(ty', v)"] by simp
      have d: "0 < nid_depth nid" using r Leaf by (auto simp: node_ok_def split: if_splits)
      have ctx: "ctx key (nid_depth nid) 1 st" using r Leaf by simp
      have "wf_root (del_loop key ty st None root) \<and> items (del_loop key ty st None root) = lefts key st @ seg None @ rights key st"
        using del_loop_ok [OF ctx d, of None ty root] assms(2) i by (auto simp: typed_def)
      moreover have "AList.delete key (items root) = lefts key st @ rights key st"
        using delete_sides(1) [OF s] i Leaf True by simp
      ultimately show ?thesis using w(1) Leaf True ty m by (simp add: delItem_def)
    qed
  qed
qed

end
