(* ===== verification/SHAMapWalk.thy ===== *)
theory SHAMapWalk
  imports SHAMapOps
begin

section \<open>Walking along the items\<close>

text \<open>
  The stack of an iterator is the context of its leaf, so the items that are still to come are those to
  the right of it. Stepping moves the first of them into place.
\<close>

lemma branch_from_Some:
  "branch_from b cs = Some (i, c) \<Longrightarrow> \<exists>xs ys. cs = xs @ Some c # ys \<and> concat (map seg xs) = [] \<and> i = b + length xs"
proof (induction b cs rule: branch_from.induct)
  case (2 b cs)
  then obtain xs ys where "cs = xs @ Some c # ys" "concat (map seg xs) = []" "i = Suc b + length xs" by auto
  then show ?case by (intro exI [of _ "None # xs"] exI [of _ ys]) simp
next
  case (3 b c' cs)
  then show ?case by (intro exI [of _ "[]"] exI [of _ cs]) simp
qed simp

lemma branch_from_None: "branch_from b cs = None \<Longrightarrow> concat (map seg cs) = []"
  by (induction b cs rule: branch_from.induct) auto

lemma scan_branch_from: "scan True cs = map_option snd (branch_from b cs)"
  by (induction b cs rule: branch_from.induct) (auto simp: scan_def)

lemma nibs_agree:
  assumes "nibs d k = nibs d k'" "e \<le> d" "d \<le> 64"
  shows "nibs e k = nibs e k'"
  using assms(2,1,3)
proof (induction rule: inc_induct)
  case (step n)
  then have "nibs (Suc n) k = nibs (Suc n) k'" by simp
  with nibs_div [of n] step show ?case by simp
qed

lemma select_agree: "nid_depth nid < 64 \<Longrightarrow> nibs (Suc (nid_depth nid)) k = nibs (Suc (nid_depth nid)) k' \<Longrightarrow> selectBranch nid k = selectBranch nid k'"
  by (simp add: selectBranch_nibs)

text \<open>A context depends on its key only through the nibbles above its place.\<close>

lemma ctx_two: "ctx k d c st \<Longrightarrow> ctx k d 2 st"
proof (induction st arbitrary: d c)
  case (Cons f st)
  obtain n nid where f: "f = (n, nid)" by (cases f)
  let ?o = "length (before k n nid) + length (after k n nid)"
  have "ctx k (nid_depth nid) 2 st" using Cons f by auto
  from ctx_mono [OF this, of "2 + ?o"] Cons.prems f show ?case by (simp add: add.assoc)
qed simp

lemma ctx_agree:
  "ctx k (Suc d) 2 st \<Longrightarrow> nibs d k = nibs d k' \<Longrightarrow> ctx k' (Suc d) 2 st"
proof (induction st arbitrary: d)
  case (Cons f st)
  obtain n nid where f: "f = (n, nid)" by (cases f)
  let ?o = "\<lambda>k. length (before k n nid) + length (after k n nid)"
  have c: "nid_depth nid = d" "d < 64" "nid_ok nid" "\<not> isLeaf n" "wf_branches d (nibs d k) (branches n)"
      "ctx k d (2 + ?o k) st"
    using Cons.prems(1) f by (auto simp: add.assoc)
  have "ctx k' d 2 st"
  proof (cases st)
    case Nil
    then show ?thesis using c(6) by simp
  next
    case st: (Cons g st')
    then obtain e where e: "d = Suc e" "e < 64" using c(6) by (cases g) auto
    have "nibs e k = nibs e k'" using nibs_agree [OF Cons.prems(2), of e] e c(2) by simp
    then show ?thesis using Cons.IH [of e] ctx_two [OF c(6)] e by simp
  qed
  then have "ctx k' d (2 + ?o k') st" by (rule ctx_mono) simp
  then show ?case using c Cons.prems(2) f by (simp add: add.assoc)
qed simp

lemma rights_agree: "ctx k d c st \<Longrightarrow> d \<le> 64 \<Longrightarrow> nibs d k = nibs d k' \<Longrightarrow> rights k' st = rights k st"
proof (induction st arbitrary: d c)
  case (Cons f st)
  obtain n nid where f: "f = (n, nid)" by (cases f)
  let ?e = "nid_depth nid"
  have c: "d = Suc ?e" "?e < 64" "ctx k ?e (c + length (before k n nid) + length (after k n nid)) st" using Cons.prems(1) f by auto
  have "selectBranch nid k = selectBranch nid k'" by (rule select_agree [OF c(2)]) (use Cons.prems(3) c(1) in simp)
  moreover have e: "nibs ?e k = nibs ?e k'" using nibs_agree [OF Cons.prems(3), of ?e] c Cons.prems(2) by simp
  moreover have "rights k' st = rights k st" using Cons.IH [OF c(3) _ e] c(2) by simp
  ultimately show ?case using f by (simp add: after_def)
qed simp

text \<open>Going down to the first item below a node.\<close>

lemma first_child:
  assumes "wf_branches d t cs" "d < 64" "b \<le> 16" "branch_from b (drop b cs) = Some (i, c)" "nid_depth nid = d"
  shows "b \<le> i \<and> i < 16 \<and> cs ! i = Some c \<and> wf_node (Suc d) (16 * t + i) c \<and>
    concat (map seg (drop b cs)) = items c @ concat (map seg (drop (Suc i) cs)) \<and>
    (\<forall>p \<in> set (items c). nibs d (fst p) = t \<and> selectBranch nid (fst p) = i)"
proof -
  have len: "length cs = 16" using assms(1) by (simp add: wf_branches_def)
  obtain xs ys where xy: "drop b cs = xs @ Some c # ys" "concat (map seg xs) = []" "i = b + length xs"
    using branch_from_Some [OF assms(4)] by blast
  have "length (drop b cs) = length (xs @ Some c # ys)" using xy(1) by simp
  then have i: "i < 16" using len xy(3) assms(3) by simp
  have "cs ! i = drop b cs ! length xs" using len assms(3) xy(3) by simp
  also have "\<dots> = Some c" unfolding xy(1) by simp
  finally have c: "cs ! i = Some c" .
  have "drop (Suc i) cs = drop (Suc (length xs)) (drop b cs)" unfolding drop_drop xy(3) by (simp add: add.commute)
  also have "\<dots> = ys" unfolding xy(1) by simp
  finally have ys: "drop (Suc i) cs = ys" .
  have wf: "wf_node (Suc d) (16 * t + i) c" by (rule wf_branchesD [OF assms(1) i c])
  have p: "nibs d (fst p) = t \<and> selectBranch nid (fst p) = i" if "p \<in> set (items c)" for p
  proof -
    have "nibs (Suc d) (fst p) = 16 * t + i" using wf_items [OF wf] that by blast
    then show ?thesis using nibs_div [OF assms(2), of "fst p"] selectBranch_nibs [OF assms(5,2), of "fst p"] i by simp
  qed
  have "concat (map seg (drop b cs)) = items c @ concat (map seg (drop (Suc i) cs))"
    unfolding ys xy(1) using xy(2) by simp
  moreover have "b \<le> i" using xy(3) by simp
  ultimately show ?thesis using i c wf p by blast
qed

definition arrives :: "('v tnode option \<times> 'v node_stack) result \<Rightarrow> (u256 \<times> (node_type \<times> 'v)) list \<Rightarrow> bool" where
  "arrives r es \<longleftrightarrow>
     (case es of
        [] \<Rightarrow> \<exists>st. r = Inr (None, st)
      | (k, (ty, v)) # R \<Rightarrow>
          \<exists>nid st d. r = Inr (Some (Leaf k ty v), (Leaf k ty v, nid) # st) \<and> ctx k d 2 st \<and> rights k st = R)"

lemma firstBelow_arrives:
  assumes "wf_node d t n" "0 < d" "st \<noteq> []" "nid_ok (snd (hd st))" "Suc (nid_depth (snd (hd st))) = d"
    "\<And>p. p \<in> set (items n) \<Longrightarrow> ctx (fst p) d 2 st" "\<And>p. p \<in> set (items n) \<Longrightarrow> rights (fst p) st = R"
  shows "arrives (belowHelper True b n st) (items n @ R)"
  using assms
proof (induction arbitrary: st R rule: wf_node.induct)
  case (wf_Leaf d k t ty v)
  then show ?case by (auto simp: arrives_def)
next
  case (wf_Inner d cs t)
  have b: "wf_branches d t cs" using wf_Inner(1,2,3) by (simp add: wf_branches_def)
  obtain f st0 where st: "st = f # st0" using wf_Inner.prems(2) by (cases st) auto
  obtain nid where nid: "getChildNodeID (snd f) b = Inr nid" "nid_ok nid" "nid_depth nid = d"
    using child_id [of "snd f" "nid_depth (snd f)" b] wf_Inner.prems(3,4) wf_Inner.hyps(1) st by auto
  have "branch_from 0 cs \<noteq> None"
  proof
    assume "branch_from 0 cs = None"
    then have "items (Inner cs) = []" using branch_from_None by (simp only: items_Inner)
    with \<open>2 \<le> length (items (Inner cs))\<close> show False by simp
  qed
  then obtain i c where c: "branch_from 0 cs = Some (i, c)" "scan True cs = Some c"
    using scan_branch_from [of cs 0] by (cases "branch_from 0 cs") auto
  note fc = first_child [OF b wf_Inner.hyps(1), of 0 i c nid, simplified, OF c(1) nid(3)]
  have sub: "p \<in> set (items (Inner cs))" if "p \<in> set (items c)" for p using that fc by (simp add: items_Inner)
  let ?st = "(Inner cs, nid) # st" and ?R = "concat (map seg (drop (Suc i) cs)) @ R"
  have "arrives (belowHelper True b c ?st) (items c @ ?R)"
  proof (rule wf_Inner.IH)
    show "i < 16" "cs ! i = Some c" using fc by auto
    show "0 < Suc d" "?st \<noteq> []" "nid_ok (snd (hd ?st))" "Suc (nid_depth (snd (hd ?st))) = Suc d" using nid by simp_all
    fix p assume p: "p \<in> set (items c)"
    show "ctx (fst p) (Suc d) 2 ?st"
      using wf_Inner.prems(5) [OF sub [OF p]] ctx_mono [of "fst p" d 2 st] fc p b nid wf_Inner.hyps(1) by (simp add: add.assoc)
    show "rights (fst p) ?st = ?R" using wf_Inner.prems(6) [OF sub [OF p]] fc p by (simp add: after_def)
  qed
  moreover have "items (Inner cs) @ R = items c @ ?R" using fc by (simp add: items_Inner)
  moreover have "belowHelper True b (Inner cs) st = belowHelper True b c ?st" using st nid(1) c(2) by simp
  ultimately show ?case by simp
qed

lemma next_above_arrives: "ctx key d 2 st \<Longrightarrow> arrives (next_above key st) (rights key st)"
proof (induction st arbitrary: d)
  case Nil
  then show ?case by (simp add: arrives_def)
next
  case (Cons f st)
  obtain n nid where f: "f = (n, nid)" by (cases f)
  let ?e = "nid_depth nid" and ?b = "selectBranch nid key + 1"
  have c: "?e < 64" "nid_ok nid" "\<not> isLeaf n" "wf_branches ?e (nibs ?e key) (branches n)" "d = Suc ?e"
      "ctx key ?e (2 + length (before key n nid) + length (after key n nid)) st"
    using Cons.prems f by auto
  have b16: "?b \<le> 16" using selectBranch_less [OF c(1), of key] by simp
  show ?case
  proof (cases "branch_from ?b (drop ?b (branches n))")
    case None
    then have "after key n nid = []" using branch_from_None [OF None] by (simp add: after_def)
    then show ?thesis using Cons.IH [OF ctx_two [OF c(6)]] None f by simp
  next
    case (Some ic)
    obtain i ch where ic: "ic = (i, ch)" by (cases ic)
    note fc = first_child [OF c(4,1) b16 Some [unfolded ic] refl]
    let ?R = "concat (map seg (drop (Suc i) (branches n))) @ rights key st"
    have "arrives (belowHelper True i ch ((n, nid) # st)) (items ch @ ?R)"
    proof (rule firstBelow_arrives [where d = "Suc ?e"])
      show "wf_node (Suc ?e) (16 * nibs ?e key + i) ch" using fc by blast
      show "0 < Suc ?e" "(n, nid) # st \<noteq> []" "nid_ok (snd (hd ((n, nid) # st)))" "Suc (nid_depth (snd (hd ((n, nid) # st)))) = Suc ?e"
        using c by simp_all
      fix p assume p: "p \<in> set (items ch)"
      then have pk: "nibs ?e key = nibs ?e (fst p)" "selectBranch nid (fst p) = i" using fc by auto
      show "ctx (fst p) (Suc ?e) 2 ((n, nid) # st)" using ctx_agree [of key ?e "(n, nid) # st" "fst p"] Cons.prems c(5) f pk by simp
      show "rights (fst p) ((n, nid) # st) = ?R" using rights_agree [OF c(6) _ pk(1)] c(1) pk by (simp add: after_def)
    qed
    moreover have "after key n nid @ rights key st = items ch @ ?R" using fc by (simp add: after_def)
    moreover obtain k ty v R where "items ch = (k, (ty, v)) # R"
      using fc wf_items [of "Suc ?e" "16 * nibs ?e key + i" ch] by (cases "items ch") auto
    ultimately show ?thesis using Some ic f by (auto simp: firstBelow_def arrives_def)
  qed
qed

subsection \<open>Iteration and the upper bound\<close>

lemma iterate_arrives: "arrives r es \<Longrightarrow> length es \<le> n \<Longrightarrow> iterate n r = Inr es"
proof (induction es arbitrary: r n)
  case Nil
  then show ?case by (auto simp: arrives_def)
next
  case (Cons e es)
  obtain k ty v where e: "e = (k, (ty, v))" by (cases e)
  obtain nid st d where r: "r = Inr (Some (Leaf k ty v), (Leaf k ty v, nid) # st)" "ctx k d 2 st" "rights k st = es"
    using Cons.prems(1) by (auto simp: arrives_def e)
  obtain n' where n: "n = Suc n'" "length es \<le> n'" using Cons.prems(2) by (cases n) auto
  have "arrives (peekNextItem k ((Leaf k ty v, nid) # st)) es"
    using next_above_arrives [OF r(2)] r(3) by (simp add: peekNextItem_def)
  from Cons.IH [OF this n(2)] show ?case by (simp add: r(1) e n(1))
qed

lemma upper_bound_sides:
  fixes key :: "'k::linorder"
  assumes "\<forall>p \<in> set L. fst p \<le> key" "\<forall>p \<in> set R. key < fst p"
  shows "upper_bound key (L @ R) = R"
proof -
  have "dropWhile (\<lambda>p. fst p \<le> key) R = R" using assms(2) by (cases R) auto
  then show ?thesis using assms(1) by (simp add: upper_bound_def dropWhile_append2)
qed

lemma upperBound_arrives:
  assumes "wf_root root"
  shows "arrives (upperBound root key) (upper_bound key (items root))"
proof -
  obtain node nid st where w: "walkTowardsKey root root_id key [] = Inr ((node, nid) # st, if isLeaf node then Some node else None)"
      "reached key root node nid st"
    using walk_root [OF assms] .
  note i = reached_items [OF w(2)] and s = reached_sides [OF w(2)] and r = w(2) [unfolded reached_def]
  have ctx: "ctx key (nid_depth nid) 2 st" using r ctx_two by blast
  show ?thesis
  proof (cases node)
    case (Leaf k ty v)
    show ?thesis
    proof (cases "k > key")
      case True
      have d: "0 < nid_depth nid" using r Leaf by (auto simp: node_ok_def split: if_splits)
      then obtain e where e: "nid_depth nid = Suc e" by (cases "nid_depth nid") auto
      have kd: "nibs (Suc e) key = nibs (Suc e) k" "Suc e \<le> 64" using r Leaf e by (auto simp: node_ok_def elim: wf_LeafE)
      have "nibs e key = nibs e k" using nibs_agree [OF kd(1), of e] kd(2) by simp
      then have "ctx k (Suc e) 2 st" using ctx_agree ctx e by metis
      moreover have "rights k st = rights key st" using rights_agree [OF ctx _, of k] kd e by simp
      moreover have "upper_bound key (items root) = (k, (ty, v)) # rights key st"
        using upper_bound_sides [of "lefts key st" key "(k, (ty, v)) # rights key st"] i s Leaf True by (auto simp: less_imp_le)
      ultimately show ?thesis using w(1) Leaf True by (auto simp: upperBound_def arrives_def)
    next
      case False
      then have "upper_bound key (items root) = rights key st"
        using upper_bound_sides [of "lefts key st @ [(k, (ty, v))]" key "rights key st"] i s Leaf by (auto simp: less_imp_le not_less)
      then show ?thesis using next_above_arrives [OF ctx] w(1) Leaf False by (simp add: upperBound_def)
    qed
  next
    case (Inner cs)
    note inn = reached_Inner [OF w(2) [unfolded Inner]]
    have ok: "nid_depth nid < 64" "wf_branches (nid_depth nid) (nibs (nid_depth nid) key) cs"
      using r Inner node_ok_Inner [of key "nid_depth nid" cs] by auto
    have "ctx key (Suc (nid_depth nid)) 2 ((Inner cs, nid) # st)"
      using ctx_mono [OF ctx] ok r by (simp add: add.assoc)
    from next_above_arrives [OF this]
    have "arrives (next_above key ((Inner cs, nid) # st)) (after key (Inner cs) nid @ rights key st)" by simp
    moreover have "\<forall>p \<in> set (lefts key st @ before key (Inner cs) nid). fst p \<le> key"
        "\<forall>p \<in> set (after key (Inner cs) nid @ rights key st). key < fst p"
      using s inn(2,3) by (auto simp: less_imp_le)
    from upper_bound_sides [OF this] have "upper_bound key (items root) = after key (Inner cs) nid @ rights key st"
      using i inn(1) Inner by simp
    ultimately show ?thesis using w(1) Inner by (simp add: upperBound_def)
  qed
qed

lemma peekFirstItem_arrives:
  assumes "wf_root root"
  shows "arrives (peekFirstItem root) (items root)"
proof -
  obtain cs where root: "root = Inner cs" "wf_branches 0 0 cs" using assms by (cases root) auto
  show ?thesis
  proof (cases "branch_from 0 cs")
    case None
    then have "scan True cs = None" "items root = []"
      using scan_branch_from [of cs 0] branch_from_None [OF None] by (simp_all add: root items_Inner)
    then show ?thesis by (simp add: root peekFirstItem_def firstBelow_def arrives_def)
  next
    case (Some ic)
    obtain i c where ic: "ic = (i, c)" by (cases ic)
    then have sc: "scan True cs = Some c" using scan_branch_from [of cs 0] Some by simp
    note fc = first_child [OF root(2), of 0 i c root_id, simplified, OF Some [unfolded ic]]
    have "arrives (belowHelper True kBRANCH_FACTOR c [(Inner cs, root_id)]) (items c @ concat (map seg (drop (Suc i) cs)))"
    proof (rule firstBelow_arrives [where d = 1])
      show "wf_node 1 i c" using fc by simp
      show "(0 :: nat) < 1" "[(Inner cs, root_id)] \<noteq> []" "nid_ok (snd (hd [(Inner cs, root_id)]))"
        "Suc (nid_depth (snd (hd [(Inner cs, root_id)]))) = 1" by simp_all
      fix p assume "p \<in> set (items c)"
      then show "ctx (fst p) 1 2 [(Inner cs, root_id)]" "rights (fst p) [(Inner cs, root_id)] = concat (map seg (drop (Suc i) cs))"
        using root(2) fc by (simp_all add: after_def)
    qed
    then have "arrives (firstBelow root [] kBRANCH_FACTOR) (items root)"
      using sc fc by (simp add: firstBelow_def root items_Inner)
    then show ?thesis by (auto simp: peekFirstItem_def arrives_def split: list.splits prod.splits)
  qed
qed

end
