(* ===== verification/TreeLedger.thy ===== *)
theory TreeLedger
  imports StateSessions SlesIter SHAMapWalk
begin

section \<open>The ledger over the state tree\<close>

text \<open>
  The operations a closed ledger offers to the layers above it (\<^verbatim>\<open>src/libxrpl/ledger/Ledger.cpp\<close>), on the
  tree that holds its entries. The tree is shown to provide what the layers rely on, so that a run of
  transactions through both tables into the tree leaves what it leaves on a plain ordered map.

  The reading functions of the tree throw only where a node is missing or too deep; \<open>peekItem_items\<close>,
  \<open>hasItem_items\<close> and \<open>upperBound_arrives\<close> show that they do not, so the default below is not reached.
\<close>

record 'v tree_ledger =
  tl_stateMap :: "'v tnode"
  tl_drops :: int

subsection \<open>Reading\<close>

definition tree_exists :: "'v tree_ledger \<Rightarrow> (u256, 'v) keylet \<Rightarrow> bool" where
  "tree_exists l k = (case hasItem (tl_stateMap l) (kl_key k) of Inl ex \<Rightarrow> False | Inr b \<Rightarrow> b)"

definition tree_read :: "'v tree_ledger \<Rightarrow> (u256, 'v) keylet \<Rightarrow> 'v option" where
  "tree_read l k =
     (case peekItem (tl_stateMap l) (kl_key k) of
        Inl ex \<Rightarrow> None
      | Inr None \<Rightarrow> None
      | Inr (Some sle) \<Rightarrow> if \<not> kl_check k sle then None else Some sle)"

definition tree_succ :: "'v tree_ledger \<Rightarrow> u256 \<Rightarrow> u256 option \<Rightarrow> u256 option" where
  "tree_succ l key lst =
     (case upperBound (tl_stateMap l) key of
        Inl ex \<Rightarrow> None
      | Inr (None, _) \<Rightarrow> None
      | Inr (Some item, _) \<Rightarrow>
          (case lst of None \<Rightarrow> Some (leaf_key item)
           | Some l' \<Rightarrow> if leaf_key item \<ge> l' then None else Some (leaf_key item)))"

definition tree_rview :: "'v tree_ledger \<Rightarrow> (u256, 'v) rview" where
  "tree_rview l = \<lparr>rv_exists = tree_exists l, rv_read = tree_read l, rv_succ = tree_succ l\<rparr>"

subsection \<open>Raw changes\<close>

definition tree_rawErase :: "u256 \<Rightarrow> 'v tree_ledger \<Rightarrow> 'v tree_ledger result" where
  "tree_rawErase k l =
     (case delItem k (tl_stateMap l) of
        Inl ex \<Rightarrow> Inl ex
      | Inr (found, root) \<Rightarrow> if \<not> found then Inl (LogicError ''Ledger::rawErase: key not found'') else Inr (l\<lparr>tl_stateMap := root\<rparr>))"

definition tree_rawInsert :: "u256 \<Rightarrow> 'v \<Rightarrow> 'v tree_ledger \<Rightarrow> 'v tree_ledger result" where
  "tree_rawInsert k sle l =
     (case addGiveItem TnAccountState k sle (tl_stateMap l) of
        Inl ex \<Rightarrow> Inl ex
      | Inr (done, root) \<Rightarrow> if \<not> done then Inl (LogicError ''Ledger::rawInsert: key already exists'') else Inr (l\<lparr>tl_stateMap := root\<rparr>))"

definition tree_rawReplace :: "(u256 \<Rightarrow> node_type \<Rightarrow> 'v \<Rightarrow> 'h) \<Rightarrow> u256 \<Rightarrow> 'v \<Rightarrow> 'v tree_ledger \<Rightarrow> 'v tree_ledger result" where
  "tree_rawReplace h k sle l =
     (case updateGiveItem h TnAccountState k sle (tl_stateMap l) of
        Inl ex \<Rightarrow> Inl ex
      | Inr (done, root) \<Rightarrow> if \<not> done then Inl (LogicError ''Ledger::rawReplace: key not found'') else Inr (l\<lparr>tl_stateMap := root\<rparr>))"

definition tree_rawDestroyXRP :: "int \<Rightarrow> 'v tree_ledger \<Rightarrow> 'v tree_ledger" where
  "tree_rawDestroyXRP fee l = l\<lparr>tl_drops := tl_drops l - fee\<rparr>"

definition to_tree :: "(u256 \<Rightarrow> node_type \<Rightarrow> 'v \<Rightarrow> 'h) \<Rightarrow> (u256, 'v, 'v tree_ledger) raw_view" where
  "to_tree h = \<lparr>w_erase = (\<lambda>k sle. tree_rawErase k), w_insert = tree_rawInsert, w_replace = tree_rawReplace h,
     w_destroy = tree_rawDestroyXRP\<rparr>"

subsection \<open>The tree as a store\<close>

text \<open>The hash of a leaf tells different entries of a key apart.\<close>

definition collision_free :: "(u256 \<Rightarrow> node_type \<Rightarrow> 'v \<Rightarrow> 'h) \<Rightarrow> bool" where
  "collision_free h \<longleftrightarrow> (\<forall>k ty x y. h k ty x = h k ty y \<longrightarrow> x = y)"

definition tree_ok :: "(u256 \<Rightarrow> node_type \<Rightarrow> 'v \<Rightarrow> 'h) \<Rightarrow> 'v tree_ledger \<Rightarrow> bool" where
  "tree_ok h l \<longleftrightarrow> wf_root (tl_stateMap l) \<and> typed TnAccountState (tl_stateMap l) \<and> collision_free h"

definition entries :: "'v tree_ledger \<Rightarrow> (u256 \<times> 'v) list" where
  "entries l = map (\<lambda>(k, x). (k, snd x)) (items (tl_stateMap l))"

definition tree_content :: "'v tree_ledger \<Rightarrow> u256 \<Rightarrow> 'v option" where
  "tree_content l = map_of (entries l)"

lemma entries_map_of: "tree_content l k = map_option snd (map_of (items (tl_stateMap l)) k)"
  by (simp add: tree_content_def entries_def map_of_map)

lemma entries_ascending: "tree_ok h l \<Longrightarrow> ascending (entries l)"
  using root_ascending [of "tl_stateMap l"]
  by (simp add: tree_ok_def entries_def ascending_def comp_def case_prod_unfold)

lemma upper_bound_entries: "upper_bound key (entries l) = map (\<lambda>(k, x). (k, snd x)) (upper_bound key (items (tl_stateMap l)))"
  by (simp add: upper_bound_def entries_def dropWhile_map comp_def case_prod_unfold)

lemma tree_succ_ledger:
  assumes "tree_ok h l"
  shows "tree_succ l key lst = ledger_succ \<lparr>cl_stateMap = entries l, cl_drops = d\<rparr> key lst"
proof -
  have "arrives (upperBound (tl_stateMap l) key) (upper_bound key (items (tl_stateMap l)))"
    by (rule upperBound_arrives) (use assms in \<open>simp add: tree_ok_def\<close>)
  then show ?thesis
    by (cases "upper_bound key (items (tl_stateMap l))")
      (auto simp: arrives_def tree_succ_def ledger_succ_def upper_bound_entries split: option.splits)
qed

interpretation tree_view: read_view tree_rview tree_content "tree_ok h" for h :: "u256 \<Rightarrow> node_type \<Rightarrow> 'v \<Rightarrow> 'h"
proof
  fix l :: "'v tree_ledger" and k :: "(u256, 'v) keylet" and key lst
  assume ok: "tree_ok h l"
  then have wf: "wf_root (tl_stateMap l)" by (simp add: tree_ok_def)
  show "rv_read (tree_rview l) k = checked k (tree_content l (kl_key k))"
    by (auto simp: tree_rview_def tree_read_def checked_def peekItem_items [OF wf] entries_map_of split: option.splits)
  show "rv_exists (tree_rview l) k" if "rv_read (tree_rview l) k \<noteq> None"
    using that by (auto simp: tree_rview_def tree_read_def tree_exists_def peekItem_items [OF wf] hasItem_items [OF wf] split: option.splits)
  show "\<not> rv_exists (tree_rview l) k" if "tree_content l (kl_key k) = None"
    using that by (simp add: tree_rview_def tree_exists_def hasItem_items [OF wf] entries_map_of)
  have "closed_ok \<lparr>cl_stateMap = entries l, cl_drops = 0\<rparr>" using entries_ascending [OF ok] by (simp add: closed_ok_def)
  from ledger_succ_least [OF this, of key lst]
  show "is_succ (dom (tree_content l)) key lst (rv_succ (tree_rview l) key lst)"
    by (simp add: tree_rview_def tree_succ_ledger [OF ok, of key lst 0] ledger_content_def tree_content_def)
qed

lemma typed_insert: "ascending (items n) \<Longrightarrow> typed ty n \<Longrightarrow> items n' = map_insert k (ty, v) (items n) \<Longrightarrow> typed ty n'"
  by (auto simp: typed_def map_insert_set)

lemma typed_delete: "typed ty n \<Longrightarrow> items n' = AList.delete k (items n) \<Longrightarrow> typed ty n'"
  by (simp add: typed_def AList.delete_eq)

lemma in_update: "p \<in> set (AList.update k y xs) \<Longrightarrow> p = (k, y) \<or> p \<in> set xs"
  by (induction xs) (auto split: if_splits)

lemma typed_update: "typed ty n \<Longrightarrow> items n' = AList.update k (ty, v) (items n) \<Longrightarrow> typed ty n'"
  by (auto simp: typed_def dest!: in_update)

lemma tree_okD:
  assumes "tree_ok h l"
  shows "wf_root (tl_stateMap l)" "typed TnAccountState (tl_stateMap l)" "ascending (items (tl_stateMap l))"
    "\<And>k x y. h k TnAccountState x = h k TnAccountState y \<Longrightarrow> x = y"
  using assms root_ascending [of "tl_stateMap l"] by (auto simp: tree_ok_def collision_free_def)

lemma tree_okI:
  "tree_ok h l \<Longrightarrow> wf_root root \<Longrightarrow> typed TnAccountState root \<Longrightarrow> tree_ok h (l\<lparr>tl_stateMap := root\<rparr>)"
  by (simp add: tree_ok_def)

text \<open>Each raw change, on the entries.\<close>

lemma tree_rawErase_content:
  assumes "tree_ok h l" "tree_content l k \<noteq> None"
  shows "\<exists>l'. tree_rawErase k l = Inr l' \<and> tree_ok h l' \<and> tree_content l' = (tree_content l)(k := None) \<and> tl_drops l' = tl_drops l"
proof -
  note ok = tree_okD [OF assms(1)]
  obtain root where r: "delItem k (tl_stateMap l) = Inr (True, root)" "wf_root root" "items root = AList.delete k (items (tl_stateMap l))"
    using delItem_items [OF ok(1,2), of k] assms(2) by (auto simp: entries_map_of)
  have "tree_content (l\<lparr>tl_stateMap := root\<rparr>) = (tree_content l)(k := None)"
    by (auto simp: fun_eq_iff entries_map_of r(3) map_of_delete)
  then show ?thesis using r tree_okI [OF assms(1) r(2) typed_delete [OF ok(2) r(3)]] by (simp add: tree_rawErase_def)
qed

lemma tree_rawInsert_content:
  assumes "tree_ok h l" "tree_content l k = None"
  shows "\<exists>l'. tree_rawInsert k sle l = Inr l' \<and> tree_ok h l' \<and> tree_content l' = (tree_content l)(k \<mapsto> sle) \<and> tl_drops l' = tl_drops l"
proof -
  note ok = tree_okD [OF assms(1)]
  have n: "map_of (items (tl_stateMap l)) k = None" using assms(2) by (simp add: entries_map_of)
  obtain root where r: "addGiveItem TnAccountState k sle (tl_stateMap l) = Inr (True, root)" "wf_root root"
      "items root = map_insert k (TnAccountState, sle) (items (tl_stateMap l))"
    using addGiveItem_items [OF ok(1,2), of k sle] n by auto
  have "tree_content (l\<lparr>tl_stateMap := root\<rparr>) = (tree_content l)(k \<mapsto> sle)"
    by (auto simp: fun_eq_iff entries_map_of r(3) map_of_map_insert [OF ok(3)] n)
  then show ?thesis using r tree_okI [OF assms(1) r(2) typed_insert [OF ok(3,2) r(3)]] by (simp add: tree_rawInsert_def)
qed

lemma tree_rawReplace_content:
  assumes "tree_ok h l" "tree_content l k \<noteq> None"
  shows "\<exists>l'. tree_rawReplace h k sle l = Inr l' \<and> tree_ok h l' \<and> tree_content l' = (tree_content l)(k \<mapsto> sle) \<and> tl_drops l' = tl_drops l"
proof -
  note ok = tree_okD [OF assms(1)]
  have n: "map_of (items (tl_stateMap l)) k \<noteq> None" using assms(2) by (simp add: entries_map_of)
  obtain root where r: "updateGiveItem h TnAccountState k sle (tl_stateMap l) = Inr (True, root)" "wf_root root"
      "items root = AList.update k (TnAccountState, sle) (items (tl_stateMap l))"
    using updateGiveItem_items [OF ok(1,2), of h k sle] ok(4) n by auto
  have "tree_content (l\<lparr>tl_stateMap := root\<rparr>) = (tree_content l)(k \<mapsto> sle)"
    by (auto simp: fun_eq_iff entries_map_of r(3) map_of_update)
  then show ?thesis using r tree_okI [OF assms(1) r(2) typed_update [OF ok(2) r(3)]] by (simp add: tree_rawReplace_def)
qed

interpretation tree_target: raw_target "to_tree h" tree_content tl_drops "tree_ok h" for h :: "u256 \<Rightarrow> node_type \<Rightarrow> 'v \<Rightarrow> 'h"
proof
  fix l :: "'v tree_ledger" and k sle fee
  assume ok: "tree_ok h l"
  show "\<exists>l'. w_erase (to_tree h) k sle l = Inr l' \<and> tree_ok h l' \<and> tree_content l' = (tree_content l)(k := None) \<and> tl_drops l' = tl_drops l"
    if "tree_content l k \<noteq> None"
    using tree_rawErase_content [OF ok that] by (simp add: to_tree_def)
  show "\<exists>l'. w_insert (to_tree h) k sle l = Inr l' \<and> tree_ok h l' \<and> tree_content l' = (tree_content l)(k \<mapsto> sle) \<and> tl_drops l' = tl_drops l"
    if "tree_content l k = None"
    using tree_rawInsert_content [OF ok that] by (simp add: to_tree_def)
  show "\<exists>l'. w_replace (to_tree h) k sle l = Inr l' \<and> tree_ok h l' \<and> tree_content l' = (tree_content l)(k \<mapsto> sle) \<and> tl_drops l' = tl_drops l"
    if "tree_content l k \<noteq> None"
    using tree_rawReplace_content [OF ok that] by (simp add: to_tree_def)
  show "tree_ok h (w_destroy (to_tree h) fee l) \<and> tree_content (w_destroy (to_tree h) fee l) = tree_content l \<and>
      tl_drops (w_destroy (to_tree h) fee l) = tl_drops l - fee"
    using ok by (simp add: to_tree_def tree_rawDestroyXRP_def tree_ok_def tree_content_def entries_def)
qed

interpretation tree_store: state_store tree_rview tree_content "tree_ok h" "to_tree h" tl_drops for h :: "u256 \<Rightarrow> node_type \<Rightarrow> 'v \<Rightarrow> 'h"
  by unfold_locales

subsection \<open>The tree is determined by its entries\<close>

definition plain :: "'v tree_ledger \<Rightarrow> (u256, 'v) closed" where
  "plain l = \<lparr>cl_stateMap = entries l, cl_drops = tl_drops l\<rparr>"

lemma plain_ok: "tree_ok h l \<Longrightarrow> closed_ok (plain l)"
  using entries_ascending by (simp add: plain_def closed_ok_def)

lemma plain_content: "ledger_content (plain l) = tree_content l" "cl_drops (plain l) = tl_drops l"
  by (simp_all add: plain_def ledger_content_def tree_content_def)

lemma items_of_entries:
  assumes "typed ty n"
  shows "items n = map (\<lambda>(k, v). (k, (ty, v))) (map (\<lambda>(k, x). (k, snd x)) (items n))"
proof -
  have "map (\<lambda>x. (fst x, (ty, snd (snd x)))) (items n) = items n"
    by (rule map_idI) (use assms in \<open>auto simp: typed_def\<close>)
  then show ?thesis by (simp add: comp_def case_prod_unfold)
qed

lemma tree_determined:
  assumes "tree_ok h l" "tree_ok h' l'" "tree_content l = tree_content l'"
  shows "tl_stateMap l = tl_stateMap l'"
proof -
  note ok = tree_okD [OF assms(1)] and ok' = tree_okD [OF assms(2)]
  have "entries l = entries l'"
    using ascending_unique [OF entries_ascending [OF assms(1)] entries_ascending [OF assms(2)]] assms(3) by (simp add: tree_content_def)
  then have "items (tl_stateMap l) = items (tl_stateMap l')"
    using items_of_entries [OF ok(2)] items_of_entries [OF ok'(2)] by (simp add: entries_def)
  then show ?thesis using root_determined [OF ok(1) ok'(1)] by blast
qed

text \<open>The same transactions over the tree and over a plain ordered map.\<close>

lemma tree_layered:
  assumes "tree_ok h l" "run direct_tx txs (plain l) = Inr (bs, m)"
  shows "\<exists>l'. layered tree_rview (to_tree h) txs l = Inr (bs, l') \<and> tree_ok h l' \<and> plain l' = m"
proof -
  obtain l' where l': "layered tree_rview (to_tree h) txs l = Inr (bs, l')" "tree_ok h l'" "closed_ok m"
      "tree_content l' = ledger_content m" "tl_drops l' = cl_drops m"
    using tree_store.layered_is_direct [OF assms(1) plain_ok [OF assms(1)] plain_content assms(2)] by blast
  then have "plain l' = m" using closed_eqI [OF plain_ok [OF l'(2)] l'(3)] plain_content [of l'] by simp
  with l' show ?thesis by blast
qed

definition empty_ledger :: "int \<Rightarrow> 'v tree_ledger" where
  "empty_ledger d = \<lparr>tl_stateMap = empty_inner, tl_drops = d\<rparr>"

lemma empty_ledger_ok: "collision_free h \<Longrightarrow> tree_ok h (empty_ledger d)"
  using empty_inner_wf [of 0 0]
  by (auto simp: tree_ok_def empty_ledger_def empty_inner_def kBRANCH_FACTOR_def typed_def items_Inner)

lemma empty_ledger_plain: "plain (empty_ledger d) = \<lparr>cl_stateMap = [], cl_drops = d\<rparr>"
  by (simp add: plain_def empty_ledger_def entries_def empty_inner_def items_Inner)

end
