(* ===== verification/StateSamples.thy ===== *)
theory StateSamples
  imports TreeLedger
begin

section \<open>A session of transactions\<close>

text \<open>
  Three transactions on the layers of state: the first adds two entries whose keys share a nibble and
  edits one of them, the second removes it and is dropped, the third removes it and is kept.
\<close>

definition s_session :: "(bool \<times> (u256, nat) op list) list" where
  "s_session =
     [(True, [Add 0x51 7, Add 0x52 9, Edit \<lparr>kl_key = 0x51, kl_check = \<lambda>_. True\<rparr> Suc]),
      (False, [Remove \<lparr>kl_key = 0x51, kl_check = \<lambda>v. v > 5\<rparr>]),
      (True, [Successor 0x50 None, Remove \<lparr>kl_key = 0x51, kl_check = \<lambda>_. True\<rparr>, Burn 10])]"

lemma s_session_run:
  "run direct_tx s_session \<lparr>cl_stateMap = [], cl_drops = 100\<rparr> =
     Inr ([[Silent, Silent, Saw (Some 7)], [Saw (Some 8)], [SawKey (Some 0x51), Saw (Some 8), Silent]],
       \<lparr>cl_stateMap = [(0x52, 9)], cl_drops = 90\<rparr>)"
  by (simp add: s_session_def ledger_rawInsert_def ledger_rawReplace_def ledger_rawErase_def ledger_rawDestroyXRP_def
      ledger_read_def ledger_succ_def checked_def upper_bound_def AList.delete_eq)

lemma s_session_hash: "collision_free (\<lambda>k ty v. v)"
  by (simp add: collision_free_def)

end
