(* ===== verification/Spec2Isabelle.thy ===== *)
theory Spec2Isabelle
  imports Samples StateSamples
begin

text \<open>
  \<^bold>\<open>Verification of the ledger logic of FalconLedger.\<close>

  FalconLedger is a fork of the XRP ledger server in which validators post bonds, are scored and paid from a
  treasury, and in which fees are split between burning and that treasury. The development models the part of
  the program that decides what the next ledger is: the transactors of the fork, the framework that applies a
  transaction, the code that builds a ledger from an agreed set of transactions, and what happens at the end
  of a ledger. All paths below are relative to \<^verbatim>\<open>src/\<close> of the repository.

  \<^bold>\<open>State.\<close> A ledger is a \<open>view\<close>: its sequence number, the drops its header counts, and the state map, an
  association list from keys to entries. Keys are the constructors of the keylets (\<^verbatim>\<open>Indexes.cpp\<close>), so distinct
  keylets are distinct keys; entries are records with the fields of \<^verbatim>\<open>ledger_entries.macro\<close>, optional fields as
  options. Sequence numbers, scores and basis points are 32-bit words, page numbers 64-bit, identifiers 160 or
  256 bits; drops are integers, with the 64-bit conversions of the code written out. Result codes are the
  datatype \<open>ter\<close>; what the code throws is the left side of a sum.

  \<^bold>\<open>Theories and what they show.\<close>
  \<^item> \<open>Prelude\<close>, \<open>QXRPConstants\<close>, \<open>WideArith\<close>: result codes, word and list lemmas, the locales \<open>ledger_lock\<close> (a
    waiting time in ledgers) and \<open>step_system\<close> (an invariant and a relation along a sequence of steps); the constants
    of \<^verbatim>\<open>QXRPConstants.h\<close>; \<^verbatim>\<open>WideArith.h\<close>, equal to integer arithmetic where it is used.
  \<^item> \<open>PoPLEmission\<close>, \<open>RewardEpoch\<close>: the emission schedule and the epoch boundary (\<^verbatim>\<open>PoPLEmission.h\<close>, \<^verbatim>\<open>RewardEpoch.cpp\<close>).
  \<^item> \<open>LedgerState\<close>, \<open>Directory\<close>: the state, the locales \<open>state_map\<close> and \<open>metered_map\<close> with the accounting of drops; the
    paged directories of \<^verbatim>\<open>ApplyView.cpp\<close>, an implementation of the locale \<open>entry_directory\<close>.
  \<^item> \<open>NodeKeys\<close>, \<open>Bonding\<close>, \<open>Slashing\<close>, \<open>BondLifecycle\<close>: keys, the bond transactors and their interleavings as a step
    relation.
  \<^item> \<open>ApplyContext\<close>, \<open>Rewards\<close>, \<open>Scoring\<close>: the split of a fee, the three reward claims, the scoring of validators.
  \<^item> \<open>Governance\<close>, \<open>Names\<close>: proposals and votes, which refine an abstract ballot, and the tally; account names.
  \<^item> \<open>Invariants\<close>, \<open>Transactor\<close>, \<open>TxFrame\<close>, \<open>TxSafety\<close>: the invariant checkers, the path of one transaction through
    \<^verbatim>\<open>applySteps.cpp\<close> and \<^verbatim>\<open>Transactor.cpp\<close>, what each transactor may touch, and what every transaction guarantees.
  \<^item> \<open>CanonicalTXSet\<close>, \<open>SkipList\<close>, \<open>NegativeUNL\<close>, \<open>BuildLedger\<close>: the order of a transaction set, the hashes of
    ancestors, the negative UNL, and the building of a ledger (\<^verbatim>\<open>BuildLedger.cpp\<close>, \<^verbatim>\<open>apply.cpp\<close>), with the invariant that
    every ledger of a chain satisfies.
  \<^item> \<open>OrderedMap\<close>, \<open>StateTables\<close>, \<open>StateLayers\<close>, \<open>StateSessions\<close>, \<open>SlesIter\<close>: \<open>std::map\<close> as an ascending list; the tables
    \<open>ApplyStateTable\<close> and \<open>RawStateTable\<close> through which code changes a ledger, with their entries as objects in a store; the
    locales \<open>read_view\<close>, \<open>raw_target\<close> and \<open>state_store\<close>, which say what a layer needs of the one below it; runs through
    the layers against runs on one map; the iterator of an open view.
  \<^item> \<open>SHAMap\<close>, \<open>SHAMapKeys\<close>, \<open>SHAMapTree\<close>, \<open>SHAMapOps\<close>, \<open>SHAMapWalk\<close>, \<open>TreeLedger\<close>: the radix tree of the state, its shape
    and its operations as changes of an ordered list, and the ledger over it (\<^verbatim>\<open>Ledger.cpp\<close>) as an interpretation of
    \<open>state_store\<close>.
  \<^item> \<open>Samples\<close>, \<open>StateSamples\<close>: concrete ledgers and transactions on which the properties below are exercised.

  \<^bold>\<open>Parameters.\<close> The record \<open>env\<close> collects what the code takes from elsewhere: hashes of keys, the decoding and
  signature check of a validation, the currency of an AMM's shares, and the amendments. \<open>apply_params\<close> holds the flags of an
  application and the outcome of the signature check, \<open>scoring_inputs\<close> the validations the node holds.

  \<^bold>\<open>Loops.\<close> All functions are total. The passes over a transaction set are the three of the code; \<open>dirDelete\<close> erases
  a page per round and ends for that reason; the splitting of a leaf goes one level down a round and ends above depth 64;
  every other loop runs over a list. Fuel is used in two places, with as many rounds as there are entries and one more: the
  search for a successor through a table, and loops over an iterator; the properties show that it does not run out.

  \<^bold>\<open>Not modelled.\<close> Multi-signing, delegation, batches and sponsorship; metadata and the threading of previous
  transactions; the transactors inherited from the XRP ledger (payments, offers, AMM, NFTs, vaults, lending, bridges), whose
  entries appear only where the fork reads them; serialization, the hashes of
  tree nodes and the fetching of missing ones, copy-on-write (the model's nodes are values); the overlay network, storage and RPC,
  which are input and output.
\<close>

section \<open>The chain of ledgers\<close>

text \<open>
  C1. Take any ledger whose entries hold the drops that its header counts, and build any number of ledgers on
  it with \<open>buildLedger\<close>, from whatever transaction sets, validations and parameters. Then the entries of the
  last ledger still hold exactly the drops its header counts, none of them holds a negative amount, and the
  supply has not grown.
\<close>

theorem chain_supply:
  fixes cs :: "ledger_input list"
  assumes "ledger_ok e v"
  defines "v' \<equiv> fold (ledger_step e) cs v"
  shows "held v' = v_drops v' \<and> solvent v' \<and> wf_view v' \<and> v_drops v' \<le> v_drops v \<and> v_drops v' \<le> kINITIAL_XRP"
  using chain.run_law [OF assms(1), of cs]
  by (auto simp: v'_def ledger_ok_def extends_def supply_gap_def sound_view_def)

theorem chain_supply_witness:
  "ledger_ok s_env s_bonded \<and>
   (let v' = fold (ledger_step s_env) [(s_ap, s_si, 5, [(keyOf 0 s_later, s_later)]), (s_ap, s_si, 6, [])] s_bonded
    in held v' = v_drops v' \<and> v_drops v' \<le> v_drops s_bonded)"
  using s_bonded_ok chain_supply [OF s_bonded_ok] unfolding Let_def by blast

text \<open>
  C2. In every ledger of the chain the entries of the economy are well formed: a bond is stored under the
  identifier of its consensus key, is registered and empty, bonded with at least the minimum, or unbonding with
  a start ledger, and its slash multiplier is at most 100 percent; the pool left of an epoch is between zero and
  what the epoch emitted.
\<close>

theorem chain_entries:
  fixes cs :: "ledger_input list"
  assumes "ledger_ok e v"
  defines "v' \<equiv> fold (ledger_step e) cs v"
  shows "(\<forall>i b. read_bond v' i = Some b \<longrightarrow> e_calcValidatorBondID e (bond_ConsensusKey b) = i \<and> bond_SlashMultiplier b \<le> 10000
      \<and> (bond_BondStatus b = kBOND_STATUS_REGISTERED \<and> bond_BondedAmount b = 0
         \<or> bond_BondStatus b = kBOND_STATUS_BONDED \<and> 1000000000 \<le> bond_BondedAmount b
         \<or> bond_BondStatus b = kBOND_STATUS_UNBONDING \<and> bond_UnbondingStartLedger b \<noteq> None))
    \<and> (\<forall>ep. read_epoch v' = Some ep \<longrightarrow> 0 \<le> ep_EpochPoolBalance ep \<and> ep_EpochPoolBalance ep \<le> ep_EmissionRate ep)"
proof -
  from chain.run_law [OF assms(1), of cs] have "bonds_ok e v'" "epoch_ok v'"
    by (auto simp: v'_def ledger_ok_def chain_ok_def)
  moreover have "kQXRP_MIN_BOND_DROPS = 1000000000" "kBPS_DENOM = 10000" by (simp_all add: qxrp_const)
  ultimately show ?thesis by (auto simp: bonds_ok_def bond_ok_def epoch_ok_def split: option.splits)
qed

theorem chain_entries_witness:
  "ledger_ok s_env s_bonded \<and> read_bond (fold (ledger_step s_env) [] s_bonded) 2 = Some (s_bond kBOND_STATUS_BONDED 2000000000)
   \<and> e_calcValidatorBondID s_env (bond_ConsensusKey (s_bond kBOND_STATUS_BONDED 2000000000)) = 2"
proof -
  have "read_bond s_bonded 2 = Some (s_bond kBOND_STATUS_BONDED 2000000000)" by (simp add: s_bonded_def s_view_def read_defs find_sle_def)
  with chain_entries [OF s_bonded_ok, of "[]"] s_bonded_ok show ?thesis by simp
qed





section \<open>One transaction\<close>

text \<open>
  C5. A transaction that is not applied leaves a closed ledger exactly as it was. One that is applied has succeeded
  or claimed a fee, keeps the difference between the drops held and the drops counted (what it burns it burns
  from both), never makes an entry negative, and keeps bonds and the reward epoch well formed.
\<close>

theorem transaction_conserves:
  assumes "apply_tx e ap t v = (r, applied, v')" "sound_view v" "chain_ok e v" "wf_tx t" "\<not> ap_open ap"
  shows "(\<not> applied \<longrightarrow> v' = v) \<and> (applied \<longrightarrow> r = tesSUCCESS \<or> isTecClaim r)
    \<and> held v' - v_drops v' = held v - v_drops v \<and> solvent v' \<and> wf_view v' \<and> chain_ok e v' \<and> v_seq v' = v_seq v"
  using apply_tx_keeps [OF assms] by (auto simp: conserves_def supply_gap_def sound_view_def)

theorem transaction_conserves_witness:
  "\<exists>v'. apply_tx s_env s_ap (s_tx (ValidatorUnbond [0xFB, 1])) s_bonded = (tesSUCCESS, True, v')
     \<and> held v' - v_drops v' = 0 \<and> solvent v'"
  using transaction_conserves [OF sample_unbond] sample_unbond s_bonded_ok
  by (simp add: ledger_ok_def supply_gap_def wf_tx_def s_tx_def s_ap_def)

text \<open>
  C6. A transaction that fails with a claimed fee changes nothing but the account root, the tickets and the owner
  directory of the payer, and the treasury that receives its part of the fee: whatever the transactor had
  written before it failed is gone.
\<close>

theorem failed_transaction_touches_only_payer:
  assumes "apply_tx e ap t v = (r, True, v')" "r \<noteq> tesSUCCESS" "sound_view v" "chain_ok e v" "wf_tx t"
    and "k \<noteq> KAccount (tx_Account t)" "\<not> page_of (KOwnerDir (tx_Account t)) k" "\<forall>n. k \<noteq> KTicket (tx_Account t) n"
    and "k \<noteq> KAccount (e_TreasuryAccountID e)"
  shows "find_sle v' k = find_sle v k"
  using assms by (intro apply_tx_claim_frame) auto

theorem failed_transaction_touches_only_payer_witness:
  "\<exists>v'. apply_tx s_env s_ap (s_tx (ReleaseBond 2)) s_bonded = (tecNO_PERMISSION, True, v')
     \<and> find_sle v' (KBond 2) = find_sle s_bonded (KBond 2)"
  using failed_transaction_touches_only_payer [OF sample_release, of "KBond 2"] sample_release s_bonded_ok
  by (simp add: ledger_ok_def wf_tx_def s_tx_def samples(1))

text \<open>
  C7. Once a transaction has been applied, whether it succeeded or only paid its fee, applying it again to the
  resulting ledger, under any parameters, is refused and changes nothing: its sequence number or its ticket is
  used up.
\<close>

theorem no_replay:
  assumes "apply_tx e ap t v = (r, True, v')" "sound_view v" "chain_ok e v" "wf_tx t"
  shows "\<exists>r'. apply_tx e ap' t v' = (r', False, v') \<and> proxy_used t v v'"
  using apply_tx_no_replay [OF assms] apply_tx_uses_proxy [OF assms] by blast

theorem no_replay_witness:
  "\<exists>v' r'. apply_tx s_env s_ap (s_tx (ValidatorUnbond [0xFB, 1])) s_bonded = (tesSUCCESS, True, v')
     \<and> apply_tx s_env s_ap (s_tx (ValidatorUnbond [0xFB, 1])) v' = (r', False, v')"
  using no_replay [OF sample_unbond] sample_unbond s_bonded_ok
  by (simp add: ledger_ok_def wf_tx_def s_tx_def)



text \<open>
  C9. \<open>destroyXRP\<close> splits a fee without losing a drop: what is burnt is the burn rate times the fee, rounded down,
  is between 40 and 70 percent of it and less than all of it, the supply falls by that, and the treasury gets
  exactly the rest.
\<close>

theorem fee_split_exact:
  assumes "0 < fee" "fee < 2 ^ 63" "read_account v (e_TreasuryAccountID e) = Some a"
  shows "\<exists>burnt. burnt = fee * uint (fee_burnBps v) div 10000
    \<and> fee * 4000 div 10000 \<le> burnt \<and> burnt \<le> fee * 7000 div 10000 \<and> burnt < fee
    \<and> v_drops (destroyXRP e v fee) = v_drops v - burnt
    \<and> map_option acc_Balance (read_account (destroyXRP e v fee) (e_TreasuryAccountID e)) = Some (acc_Balance a + (fee - burnt))"
  using destroyXRP_treasury [OF assms] fee_burn_bounds [of fee v] fee_burn_exact [of fee v] assms(1,2) by auto

theorem fee_split_exact_witness:
  "\<exists>burnt. burnt = 6 \<and> v_drops (destroyXRP s_env s_bonded 10) = v_drops s_bonded - burnt
    \<and> map_option acc_Balance (read_account (destroyXRP s_env s_bonded 10) 99) = Some (10000000 + (10 - burnt))"
  using fee_split_exact [of 10 s_bonded s_env "s_account 99 10000000"]
  by (simp add: samples s_bonded_def read_defs find_sle_def fee_burnBps_def qxrp_const)

section \<open>The layers of ledger state\<close>

text \<open>
  C10. A transaction works on an \<open>ApplyStateTable\<close> over an \<open>OpenView\<close>, whose \<open>RawStateTable\<close> lies over the closed
  ledger, which keeps its entries in a SHAMap. Let any transactions look entries up, ask for the next key, edit, remove
  and add entries and burn drops, each with a table of its own that is replayed on the open view or dropped, and replay
  the open view on the ledger at the end. If the same operations can be executed one after the other on a plain ordered
  map, then nothing in the layers throws, every operation observes the same through them, and the tree ends with exactly
  those entries and drops, again well formed.
\<close>

theorem layers_refine_map:
  assumes "tree_ok h l" "run direct_tx txs (plain l) = Inr (bs, m)"
  shows "\<exists>l'. layered tree_rview (to_tree h) txs l = Inr (bs, l') \<and> tree_ok h l' \<and> plain l' = m"
  using assms by (rule tree_layered)

theorem layers_refine_map_witness:
  "\<exists>l'. layered tree_rview (to_tree (\<lambda>k ty v. v)) s_session (empty_ledger 100) =
     Inr ([[Silent, Silent, Saw (Some 7)], [Saw (Some 8)], [SawKey (Some 0x51), Saw (Some 8), Silent]], l') \<and>
     plain l' = \<lparr>cl_stateMap = [(0x52, 9)], cl_drops = 90\<rparr>"
  using layers_refine_map [OF empty_ledger_ok [OF s_session_hash], of s_session 100] s_session_run
  by (auto simp: empty_ledger_plain)

text \<open>
  C11. The state tree depends on the entries alone. Take two histories of transactions from the empty ledger, in any order
  and with any detours, that end with the same entries. Then the trees they leave are the same node for node, and so are
  their root hashes: deletion takes back everything that insertion had added to the shape.
\<close>

theorem state_tree_history_free:
  assumes "collision_free h" "run direct_tx txs \<lparr>cl_stateMap = [], cl_drops = d\<rparr> = Inr (bs, m)"
    "run direct_tx txs' \<lparr>cl_stateMap = [], cl_drops = d'\<rparr> = Inr (bs', m')" "cl_stateMap m = cl_stateMap m'"
  shows "\<exists>l l'. layered tree_rview (to_tree h) txs (empty_ledger d) = Inr (bs, l) \<and>
    layered tree_rview (to_tree h) txs' (empty_ledger d') = Inr (bs', l') \<and> tl_stateMap l = tl_stateMap l'"
proof -
  obtain l where l: "layered tree_rview (to_tree h) txs (empty_ledger d) = Inr (bs, l)" "tree_ok h l" "plain l = m"
    using tree_layered [OF empty_ledger_ok [OF assms(1)]] assms(2) by (metis empty_ledger_plain)
  obtain l' where l': "layered tree_rview (to_tree h) txs' (empty_ledger d') = Inr (bs', l')" "tree_ok h l'" "plain l' = m'"
    using tree_layered [OF empty_ledger_ok [OF assms(1)]] assms(3) by (metis empty_ledger_plain)
  have "tree_content l = tree_content l'"
    using l(3) l'(3) assms(4) plain_content(1) [of l] plain_content(1) [of l'] by (simp add: ledger_content_def)
  with l l' tree_determined show ?thesis by blast
qed

theorem state_tree_history_free_witness:
  "\<exists>l l'. layered tree_rview (to_tree (\<lambda>k ty v. v)) s_session (empty_ledger 100) =
      Inr ([[Silent, Silent, Saw (Some 7)], [Saw (Some 8)], [SawKey (Some 0x51), Saw (Some 8), Silent]], l) \<and>
    layered tree_rview (to_tree (\<lambda>k ty v. v)) [(True, [Add 0x52 9])] (empty_ledger 5) = Inr ([[Silent]], l') \<and>
    tl_stateMap l = tl_stateMap l'"
  using state_tree_history_free [OF s_session_hash s_session_run, where txs' = "[(True, [Add 0x52 9])]" and d' = 5
    and bs' = "[[Silent]]" and m' = "\<lparr>cl_stateMap = [(0x52, 9)], cl_drops = 5\<rparr>"]
  by (simp add: ledger_rawInsert_def)





section \<open>Validators and their bonds\<close>



text \<open>
  C15. A bond that is released has waited out its lock. The release pays the owner exactly the bonded amount, removes
  the bond and removes exactly its entry from the owner's directory.
\<close>

theorem release_returns_stake:
  assumes "ReleaseBond_preclaim target v = tesSUCCESS" "ReleaseBond_doApply target v = Inr (tesSUCCESS, v')"
    and "read_bond v target = Some bond" "0 \<le> bond_BondedAmount bond" "owner_dir_ok v (bond_Account bond)"
    and "bond_UnbondingStartLedger bond = Some start" "unat start + 262800 < 2 ^ 32"
  shows "unat start + 262800 \<le> unat (v_seq v) \<and> read_bond v' target = None
    \<and> map_option acc_Balance (read_account v' (bond_Account bond))
      = map_option (\<lambda>a. acc_Balance a + bond_BondedAmount bond) (read_account v (bond_Account bond))
    \<and> owner_entries v' (bond_Account bond) = owner_entries v (bond_Account bond) - {(bond_OwnerNode bond, KBond target)}"
  using ReleaseBond_result [OF assms(2-5)] ReleaseBond_locked [OF assms(1,3,6,7)] by blast

theorem release_returns_stake_witness:
  "\<exists>v'. ReleaseBond_doApply 2 s_released = Inr (tesSUCCESS, v') \<and> read_bond v' 2 = None
     \<and> map_option acc_Balance (read_account v' 7) = Some 7000000000"
  using release_returns_stake [OF _ sample_released, of "(s_bond kBOND_STATUS_UNBONDING 2000000000)\<lparr>bond_UnbondingStartLedger := Some 1000000\<rparr>" 1000000]
    sample_released
  by (simp add: s_released_def samples ReleaseBond_preclaim_def bond_too_soon_def owner_dir_ok_def dir_ok_def page_indexes_def
      keylet_page_def read_defs find_sle_def qxrp_const kDIR_NODE_MAX_ENTRIES_def)

text \<open>
  C16. A slash succeeds only on two validations, signed by the key of the bond, of the same ledger sequence and
  different ledger hashes. It then burns the whole bond, from the entry and from the supply alike, starts the
  unbonding, counts the slash, and touches nothing else: nobody is paid.
\<close>

theorem slash_needs_proof:
  assumes "ValidatorSlash_doApply e t target offense e1 e2 v = Inr (tesSUCCESS, v')" "sound_view v"
  shows "\<exists>bond v1 v2. read_bond v target = Some bond
      \<and> e_parseValidation e (getL e1) = Some v1 \<and> e_parseValidation e (getL e2) = Some v2
      \<and> val_SignerPublic v1 = bond_ConsensusKey bond \<and> val_SignerPublic v2 = bond_ConsensusKey bond
      \<and> val_LedgerSequence v1 = val_LedgerSequence v2 \<and> val_LedgerHash v1 \<noteq> val_LedgerHash v2
      \<and> v_drops v' = v_drops v - bond_BondedAmount bond
      \<and> read_bond v' target = Some (slashed_bond t (v_seq v) bond) \<and> bond_BondedAmount (slashed_bond t (v_seq v) bond) = 0
      \<and> (\<forall>k. k \<noteq> KBond target \<longrightarrow> find_sle v' k = find_sle v k)"
  using assms(1)
proof (cases rule: ValidatorSlash_successE)
  case (1 bond)
  have "0 \<le> bond_BondedAmount bond"
    using solventD [of v "KBond target" "SBond bond"] assms(2) read_SomeD(2) [OF 1(1)] by (simp add: sound_view_def)
  with 1 show ?thesis
    by (auto simp: verifyDoubleSignEvidence_iff burnXRP_def rawDestroyXRP_def slashed_bond_def find_sle_def put_def read_bond_def)
qed

theorem slash_needs_proof_witness:
  "\<exists>v'. ValidatorSlash_doApply s_env (s_tx (ValidatorSlash 2 1 (Some [1]) (Some [2]))) 2 1 (Some [1]) (Some [2]) s_bonded = Inr (tesSUCCESS, v')
     \<and> v_drops v' = v_drops s_bonded - 2000000000"
proof -
  let ?t = "s_tx (ValidatorSlash 2 1 (Some [1]) (Some [2]))"
  obtain v' where v': "ValidatorSlash_doApply s_env ?t 2 1 (Some [1]) (Some [2]) s_bonded = Inr (tesSUCCESS, v')"
    by (simp add: ValidatorSlash_doApply_def verifyDoubleSignEvidence_iff s_bonded_def samples read_defs find_sle_def qxrp_const Let_def)
  from slash_needs_proof [OF this] s_bonded_ok v' show ?thesis
    by (auto simp: ledger_ok_def) (auto simp: s_bonded_def samples read_defs find_sle_def)
qed

section \<open>Rewards\<close>

text \<open>
  C17. Whatever claims of the three kinds are made in whatever order by whatever accounts, what they take from the
  treasury together is at most what was left of the epoch's pool, and no drop is created or lost.
\<close>

theorem claims_never_exceed_pool:
  assumes "sound_view v" "epoch_ok v"
  shows "treasury_drops e v - treasury_drops e (fold (claim_step e) cs v) \<le> epoch_pool v
    \<and> held (fold (claim_step e) cs v) - v_drops (fold (claim_step e) cs v) = held v - v_drops v"
  using claims_bounded_by_pool [OF assms, of e cs] by (simp add: supply_gap_def)

theorem claims_never_exceed_pool_witness:
  "treasury_drops s_env s_bonded - treasury_drops s_env (fold (claim_step s_env)
     [CReward (s_tx (ClaimReward [0xFB, 1])) [0xFB, 1], CReward (s_tx (ClaimReward [0xFB, 1])) [0xFB, 1]] s_bonded) \<le> 1000000"
proof -
  have "sound_view s_bonded" "epoch_ok s_bonded" using s_bonded_ok by (simp_all add: ledger_ok_def chain_ok_def)
  moreover have "epoch_pool s_bonded = 1000000"
    by (simp add: epoch_pool_def s_bonded_def samples read_defs find_sle_def)
  ultimately show ?thesis
    using claims_never_exceed_pool [of s_bonded s_env "[CReward (s_tx (ClaimReward [0xFB, 1])) [0xFB, 1], CReward (s_tx (ClaimReward [0xFB, 1])) [0xFB, 1]]"]
    by simp
qed

text \<open>
  C18. No reward is paid twice in an epoch: after a claim that paid, the same validator, and the same provider of the
  same vault or pool, is refused.
\<close>

theorem reward_claimed_once:
  assumes "epoch_ok v" "v' \<noteq> v" "tx_Account t' = tx_Account t"
  shows "(ClaimReward_doApply e t ck v = Inr (tesSUCCESS, v') \<longrightarrow> ClaimReward_doApply e t' ck v' = Inr (tecDUPLICATE, v'))
    \<and> (ClaimLPReward_doApply e t k v = Inr (tesSUCCESS, v') \<longrightarrow> ClaimLPReward_preclaim t' k v' \<noteq> tesSUCCESS)
    \<and> (ClaimAmmLpReward_doApply e t a1 a2 v = Inr (tesSUCCESS, v') \<longrightarrow> ClaimAmmLpReward_preclaim e t' a1 a2 v' \<noteq> tesSUCCESS)"
  using assms ClaimReward_once ClaimLPReward_once ClaimAmmLpReward_once by blast

theorem reward_claimed_once_witness:
  "\<exists>v'. ClaimReward_doApply s_env (s_tx (ClaimReward [0xFB, 1])) [0xFB, 1] s_bonded = Inr (tesSUCCESS, v') \<and> v' \<noteq> s_bonded
     \<and> ClaimReward_doApply s_env (s_tx (ClaimReward [0xFB, 1])) [0xFB, 1] v' = Inr (tecDUPLICATE, v')"
proof -
  let ?t = "s_tx (ClaimReward [0xFB, 1])"
  obtain v' where v': "ClaimReward_doApply s_env ?t [0xFB, 1] s_bonded = Inr (tesSUCCESS, v')" "v' \<noteq> s_bonded"
    by (rule sample_claim)
  with reward_claimed_once [of s_bonded v' ?t ?t s_env "[0xFB, 1]"] s_bonded_ok show ?thesis
    by (auto simp: ledger_ok_def chain_ok_def)
qed

text \<open>
  C19. Right after a scoring run, the shares that all bonded validators can claim add up to at most the validators'
  basket, as long as the sum of the scores fits its 32-bit field: the denominator \<open>applyValidatorScoring\<close> records is
  the one the claims need.
\<close>

theorem scored_shares_fit:
  fixes si :: scoring_inputs and seq :: u32
  assumes "wf_view v" "e_featureProofOfParticipation e" "seq \<noteq> 0" "seq mod kFLAG_LEDGER_INTERVAL = 0"
    and "si_skipHashes si = Some anc" "256 \<le> length anc" "read_epoch v = Some ep" "epoch_ok v" "scores_bounded v"
  defines "v' \<equiv> applyValidatorScoring e si seq v"
  assumes "finite S" "\<forall>i \<in> S. \<exists>b. read_bond v' i = Some b \<and> is_target (SBond b)"
    and "0 < bonded_scores v'" "bonded_scores v' < 2 ^ 32 - 1"
  shows "\<exists>ep'. read_epoch v' = Some ep' \<and>
    (\<Sum>i\<in>S. muldiv64 (validatorPoolDrops ep') (getU (bond_CompositeScore (the (read_bond v' i))))
       (getU (ep_AggregateCompositeScore ep'))) \<le> validatorPoolDrops ep'"
  unfolding v'_def
  by (rule scored_claims_fit [OF assms(1-9)]) (use assms(11-) in \<open>auto simp: v'_def\<close>)

theorem scored_shares_fit_witness:
  "\<exists>ep'. read_epoch (applyValidatorScoring s_env s_si 1555200 s_bonded) = Some ep' \<and>
    (\<Sum>i\<in>{2}. muldiv64 (validatorPoolDrops ep')
       (getU (bond_CompositeScore (the (read_bond (applyValidatorScoring s_env s_si 1555200 s_bonded) i))))
       (getU (ep_AggregateCompositeScore ep'))) \<le> validatorPoolDrops ep'"
proof -
  obtain b where b: "read_bond (applyValidatorScoring s_env s_si 1555200 s_bonded) 2 = Some b" "is_target (SBond b)"
    "0 < bonded_scores (applyValidatorScoring s_env s_si 1555200 s_bonded)"
    "bonded_scores (applyValidatorScoring s_env s_si 1555200 s_bonded) < 10000" by (rule sample_scored)
  have w: "wf_view s_bonded" "epoch_ok s_bonded"
    using s_bonded_ok by (simp_all add: ledger_ok_def sound_view_def chain_ok_def)
  have p: "e_featureProofOfParticipation s_env" "si_skipHashes s_si = Some (replicate 256 0)"
    by (simp_all add: s_env_def s_si_def)
  have ep: "read_epoch s_bonded = Some s_epoch" by (simp add: s_bonded_def s_view_def read_defs find_sle_def)
  have sb: "scores_bounded s_bonded"
    by (auto simp: scores_bounded_def score_bounded_def s_bonded_def samples find_sle_def qxrp_const split: if_splits)
  from b have "\<forall>i \<in> {2}. \<exists>b. read_bond (applyValidatorScoring s_env s_si 1555200 s_bonded) i = Some b \<and> is_target (SBond b)" by blast
  with b show ?thesis
    by (intro scored_shares_fit [OF w(1) p(1) _ _ p(2) _ ep w(2) sb]) (simp_all add: kFLAG_LEDGER_INTERVAL_def)
qed

text \<open>
  C20. The three baskets of an epoch, computed by three different routines with their own rounding, never add up to
  more than the epoch emits, whatever numbers of liquidity providers \<open>applyRewardEpoch\<close> counted.
\<close>

theorem baskets_partition_emission:
  assumes "0 \<le> ep_EmissionRate ep" "ep_EmissionRate ep < 2 ^ 63"
    and "getU (ep_LPAllocationBps ep) = poplLpParticipationBps n" "getU (ep_AmmLPAllocationBps ep) = poplAmmLpParticipationBps m"
  shows "validatorPoolDrops ep + uint (lp_basket ep) + uint (amm_basket ep) \<le> ep_EmissionRate ep"
proof (rule baskets_fit [OF assms(1,2)])
  show "uint (getU (ep_LPAllocationBps ep)) + uint (getU (ep_AmmLPAllocationBps ep)) \<le> 10000"
    using unat_poplLp [of n] unat_poplLp [of m] assms(3,4) uint_int_unat [of "poplLpParticipationBps n"]
      uint_int_unat [of "poplLpParticipationBps m"] by (simp add: poplAmm_eq_poplLp)
qed

theorem baskets_partition_emission_witness:
  "validatorPoolDrops s_epoch + uint (lp_basket s_epoch) + uint (amm_basket s_epoch) \<le> 1000000"
  using baskets_partition_emission [of s_epoch 5 0]
  by (simp add: s_epoch_def poplLpParticipationBps_def poplAmmLpParticipationBps_def qxrp_const Let_def)



section \<open>Governance\<close>

text \<open>
  C22. The packed byte string of voters and the two saturating counters of a proposal implement a ballot: a list of
  distinct bonds and two unbounded sums. A vote that passes its checks casts the score of the voting bond on
  that ballot, and the same bond cannot vote again on the result, under any key or account.
\<close>

theorem vote_refines_ballot:
  assumes "GovernanceVote_doApply e t ck k vote v = Inr (tesSUCCESS, v')" "GovernanceVote_preclaim e t ck k v = tesSUCCESS"
    and "read_proposal v k = Some p" "represents p b"
  shows "(\<exists>p' bond. read_proposal v' k = Some p' \<and> read_bond v (e_calcValidatorBondID e ck) = Some bond
      \<and> represents p' (cast (e_calcValidatorBondID e ck) (vote = 1) (unat (getU (bond_CompositeScore bond))) b))
    \<and> (\<forall>t' ck'. e_calcValidatorBondID e ck' = e_calcValidatorBondID e ck \<longrightarrow> GovernanceVote_preclaim e t' ck' k v' \<noteq> tesSUCCESS)"
  using GovernanceVote_refines [OF assms] GovernanceVote_once [OF assms] by blast

theorem vote_refines_ballot_witness:
  "\<exists>v' p'. GovernanceVote_doApply s_env (s_tx (GovernanceVote [0xFB, 1] (KProposal 7 3) 1)) [0xFB, 1] (KProposal 7 3) 1 s_voting = Inr (tesSUCCESS, v')
     \<and> read_proposal v' (KProposal 7 3) = Some p' \<and> represents p' (cast 2 True 9000 \<lparr>b_voters = [], b_for = 0, b_against = 0\<rparr>)"
proof -
  let ?t = "s_tx (GovernanceVote [0xFB, 1] (KProposal 7 3) 1)" and ?k = "KProposal 7 3"
  obtain v' where v': "GovernanceVote_doApply s_env ?t [0xFB, 1] ?k 1 s_voting = Inr (tesSUCCESS, v')"
    by (simp add: GovernanceVote_doApply_def s_voting_def samples read_defs find_sle_def Let_def)
  have "GovernanceVote_preclaim s_env ?t [0xFB, 1] ?k s_voting = tesSUCCESS"
    using hasVoted_packed [of "[]" 2]
    by (simp add: GovernanceVote_preclaim_def s_voting_def samples s_proposal_def new_proposal_def read_defs find_sle_def Let_def qxrp_const)
  moreover have "read_proposal s_voting ?k = Some s_proposal" by (simp add: s_voting_def samples read_defs find_sle_def)
  moreover have "represents s_proposal \<lparr>b_voters = [], b_for = 0, b_against = 0\<rparr>"
    by (simp add: s_proposal_def new_proposal_ballot)
  ultimately have "\<exists>p' bond. read_proposal v' ?k = Some p' \<and> read_bond s_voting (e_calcValidatorBondID s_env [0xFB, 1]) = Some bond
      \<and> represents p' (cast (e_calcValidatorBondID s_env [0xFB, 1]) (1 = (1 :: u32)) (unat (getU (bond_CompositeScore bond))) \<lparr>b_voters = [], b_for = 0, b_against = 0\<rparr>)"
    using vote_refines_ballot [OF v'] by blast
  moreover have "e_calcValidatorBondID s_env [0xFB, 1] = 2" "read_bond s_voting 2 = Some (s_bond kBOND_STATUS_BONDED 2000000000)"
    by (simp_all add: s_voting_def samples read_defs find_sle_def)
  ultimately show ?thesis using v' by (auto simp: s_bond_def)
qed

text \<open>
  C23. The tally decides every expired open proposal it is given: it passes when the scores in favour are at least
  67 percent of the aggregate score, and the aggregate is not zero, and is rejected otherwise; the votes are kept,
  and a burn rate that governance recorded within its limits stays within them.
\<close>

theorem tally_decides:
  assumes "e_featureProofOfParticipation e" "distinct ks" "k \<in> set ks" "KGovParams \<notin> set ks" "read_proposal v k = Some p"
    and "pr_ProposalState p = 0" "pr_ProposalExpiry p \<le> seq" "read_epoch v = Some ep" "params_ok v"
  shows "\<exists>p'. read_proposal (applyGovernanceTally e v seq ks) k = Some p'
    \<and> pr_ProposalState p' = (if 0 < unat (getU (ep_AggregateCompositeScore ep))
          \<and> 6700 * unat (getU (ep_AggregateCompositeScore ep)) \<le> 10000 * unat (getU (pr_VotedFor p)) then 1 else 2)
    \<and> pr_VotedFor p' = pr_VotedFor p \<and> pr_VoterList p' = pr_VoterList p \<and> params_ok (applyGovernanceTally e v seq ks)"
proof -
  let ?agg = "getU (ep_AggregateCompositeScore ep)"
  have eq: "applyGovernanceTally e v seq ks = fold (tally_one seq ?agg) ks v"
    using assms(1,3,8) by (auto simp: applyGovernanceTally_def)
  have "params_ok (fold (tally_one seq ?agg) ks v)"
    using assms(4,9) by (rule tally_fold_params_ok)
  with tally_fold_decides [OF assms(2-7), of ?agg] show ?thesis unfolding eq proposal_passed_iff by blast
qed

theorem tally_decides_witness:
  "\<exists>p'. read_proposal (applyGovernanceTally s_env s_voting 1728100 [KProposal 7 3]) (KProposal 7 3) = Some p' \<and> pr_ProposalState p' = 2"
proof -
  have "e_featureProofOfParticipation s_env" by (simp add: s_env_def)
  moreover have "read_proposal s_voting (KProposal 7 3) = Some s_proposal" "read_epoch s_voting = Some s_epoch" "params_ok s_voting"
    by (simp_all add: s_voting_def s_view_def read_defs find_sle_def params_ok_def)
  moreover have "pr_ProposalState s_proposal = 0" "pr_ProposalExpiry s_proposal \<le> 1728100" "getU (pr_VotedFor s_proposal) = 0"
    "getU (ep_AggregateCompositeScore s_epoch) = 18000"
    by (simp_all add: s_proposal_def new_proposal_def qxrp_const s_epoch_def)
  ultimately show ?thesis
    using tally_decides [of s_env "[KProposal 7 3]" "KProposal 7 3" s_voting s_proposal 1728100 s_epoch] by auto
qed



section \<open>Account names\<close>

text \<open>
  C25. The character loop of \<open>normalizeName\<close> computes a declarative normal form: the lower-case name, accepted exactly
  when it has 3 to 32 letters, digits and single inner dots. A normal form is its own normal form.
\<close>

theorem name_normal_form:
  "normalizeName raw = (if well_formed_name (map tolower raw) then Some (map tolower raw) else None)
   \<and> (normalizeName raw = Some name \<longrightarrow> normalizeName name = Some name)"
  using normalizeName_spec normalizeName_idem by blast

theorem name_normal_form_witness:
  "normalizeName [0x41, 0x2E, 0x62] = Some [0x61, 0x2E, 0x62] \<and> normalizeName [0x61, 0x2E, 0x62] = Some [0x61, 0x2E, 0x62]"
  using name_normal_form [of "[0x41, 0x2E, 0x62]" "[0x61, 0x2E, 0x62]"]
  by (simp add: well_formed_name_def tolower_def is_alnum_def dot_def qxrp_const)

text \<open>
  C26. The three name transactors keep the book of names consistent: every name is stored under itself with the full
  bond, its owner exists and points back at it, so no account ever holds two names.
\<close>

theorem names_stay_unique:
  assumes "names_ok v"
    and "NameSet_doApply e t name v = Inr (tesSUCCESS, v') \<and> NameSet_preclaim t name v = tesSUCCESS
      \<or> NameUnbond_doApply t raw v = Inr (tesSUCCESS, v') \<or> NameRelease_doApply name v = Inr (tesSUCCESS, v')"
  shows "names_ok v' \<and> (\<forall>s s' n n'. read_name v' (KAccountName s) = Some n \<longrightarrow> read_name v' (KAccountName s') = Some n'
      \<longrightarrow> nm_Account n = nm_Account n' \<longrightarrow> s = s')"
proof -
  have "names_ok v'" using assms NameSet_names_ok NameUnbond_names_ok NameRelease_names_ok by blast
  then show ?thesis using one_name_per_account by blast
qed

theorem names_stay_unique_witness:
  "\<exists>v'. NameRelease_doApply [0x61, 0x62, 0x63] s_named = Inr (tesSUCCESS, v') \<and> names_ok v'"
  using names_stay_unique [OF s_named_ok, of s_env undefined "[0x61, 0x62, 0x63]"] sample_name_released by blast

section \<open>Directories\<close>





section \<open>The ledger chain\<close>

text \<open>
  C29. If the skip lists of a ledger stand for its chain of ancestors, they do so after \<open>updateSkipList\<close> has recorded the
  parent in the next ledger. \<open>hashOfSeq\<close> then finds every one of the last 256 ancestors and every 256th of the
  older ones, always returns the right hash, and finds nothing else.
\<close>

theorem skip_list_answers:
  assumes "skip_inv s0 h v" "Suc (unat (v_seq v)) < 2 ^ 32"
  shows "\<exists>v'. v' = updateSkipList (h (unat (v_seq v))) (v\<lparr>v_seq := v_seq v + 1\<rparr>) \<and> skip_inv s0 h v'
    \<and> (\<forall>m. s0 \<le> unat m \<longrightarrow> hashOfSeq (h (unat (v_seq v'))) (h (unat (v_seq v') - 1)) v' m =
        (if unat m \<le> unat (v_seq v') \<and> (unat (v_seq v') - unat m \<le> 256 \<or> unat m mod 256 = 0) then Some (h (unat m)) else None))"
  using skip_inv_step [OF assms] hashOfSeq_correct by blast

theorem skip_list_answers_witness:
  "\<exists>v'. v' = updateSkipList 11 \<lparr>v_seq = 2, v_drops = 0, v_sles = []\<rparr> \<and> hashOfSeq 12 11 v' 1 = Some 11"
proof -
  have "skip_inv 1 (\<lambda>n. of_nat n + 10) \<lparr>v_seq = 1, v_drops = 0, v_sles = []\<rparr>"
    by (simp add: skip_inv_def read_skip_def find_sle_def long_list_def)
  from skip_list_answers [OF this] obtain v' :: view where
    v': "v' = updateSkipList 11 \<lparr>v_seq = 2, v_drops = 0, v_sles = []\<rparr>"
    "\<forall>m. 1 \<le> unat m \<longrightarrow> hashOfSeq (of_nat (unat (v_seq v')) + 10) (of_nat (unat (v_seq v') - 1) + 10) v' m =
        (if unat m \<le> unat (v_seq v') \<and> (unat (v_seq v') - unat m \<le> 256 \<or> unat m mod 256 = 0) then Some (of_nat (unat m) + 10) else None)"
    by auto
  have "v_seq v' = 2" by (simp add: v'(1) updateSkipList_def Let_def put_def)
  with v'(2) have "hashOfSeq 12 11 v' 1 = Some 11" by (drule_tac x = 1 in spec) simp
  with v'(1) show ?thesis by blast
qed

text \<open>
  C30. The vote and the pseudo transactions agree. In the ledger before a flag ledger \<open>doVoting\<close> does not throw, proposes at
  most one validator to disable and one to re-enable, and the flag ledger that \<open>updateNegativeUNL\<close> prepares accepts
  all it proposed.
\<close>

theorem negative_unl_votes_accepted:
  assumes "nunl_view_ok prev" "isFlagLedger (v_seq prev + 1)" "inj_on f (set unlKeys \<union> set (nextNegUnl prev))"
    and "\<forall>k \<in> set unlKeys. publicKeyType k \<noteq> None"
  shows "\<exists>txs news'. doVoting f me h prev unlKeys g news = Inr (txs, news') \<and> length txs \<le> 2 \<and> accepts txs (flag_view prev)"
  by (rule doVoting_accepted [OF assms])

theorem negative_unl_votes_accepted_witness:
  "\<exists>txs news'. doVoting (\<lambda>k. of_nat (length k)) 1 5 \<lparr>v_seq = 255, v_drops = 0, v_sles = []\<rparr> [[0xFB]] (\<lambda>h n. []) [] = Inr (txs, news')
     \<and> length txs \<le> 2 \<and> accepts txs (flag_view \<lparr>v_seq = 255, v_drops = 0, v_sles = []\<rparr>)"
  by (rule negative_unl_votes_accepted)
    (simp_all add: nunl_view_ok_def nextNegUnl_def negativeUNL_def validatorToDisable_def validatorToReEnable_def isFlagLedger_def
      read_negative_unl_def find_sle_def publicKeyType_def pqPublicKeyType_def falcon_const kFLAG_LEDGER_INTERVAL_def)

text \<open>
  C31. At a flag ledger the validator recorded for disabling joins the negative UNL and the one recorded for re-enabling
  leaves it; nothing else moves, both records are cleared, and the list has no duplicates.
\<close>

theorem negative_unl_moves:
  assumes "nunl_view_ok v"
  shows "set (nunl_disabled (current_nunl (updateNegativeUNL v)))
      = set (nunl_disabled (current_nunl v)) - set_option (nu_ValidatorToReEnable (current_nunl v)) \<union> set_option (nu_ValidatorToDisable (current_nunl v))
    \<and> nu_ValidatorToDisable (current_nunl (updateNegativeUNL v)) = None \<and> nu_ValidatorToReEnable (current_nunl (updateNegativeUNL v)) = None
    \<and> distinct (nunl_disabled (current_nunl (updateNegativeUNL v))) \<and> nunl_view_ok (updateNegativeUNL v)"
  using updateNegativeUNL_current [OF assms] updateNegativeUNL_ok [OF assms] by blast

theorem negative_unl_moves_witness:
  "set (nunl_disabled (current_nunl (updateNegativeUNL s_listed))) = {[0xFB, 2]}"
  using negative_unl_moves [OF s_listed_ok] by (simp add: s_listed_current)

text \<open>
  C32. A canonical transaction set is in the order of its keys after every insertion, whatever the salt, and within it the
  transactions of one account come in the order of their sequence numbers, before those that use tickets.
\<close>

theorem canonical_order_respects_sequence:
  assumes "canonical_ok salt m"
  shows "canonical_ok salt (insert_tx salt t m)
    \<and> (\<forall>i j. i < j \<longrightarrow> j < length m \<longrightarrow> tx_Account (snd (m ! i)) = tx_Account (snd (m ! j))
        \<longrightarrow> getSeqProxy (snd (m ! i)) \<le> getSeqProxy (snd (m ! j)))"
  using canonical_ok_insert [OF assms] canonical_account_order [OF assms] by blast

theorem canonical_order_respects_sequence_witness:
  "canonical_ok 3 (insert_tx 3 (s_tx (ReleaseBond 2)) (insert_tx 3 s_later []))"
  using canonical_order_respects_sequence [OF canonical_ok_insert [OF canonical_ok_Nil]] by blast

section \<open>Scores and arithmetic\<close>

text \<open>
  C33. The signals of a score measure what they are named after. The uptime a scoring run computes for a validator is the
  number of the last 256 ledgers for which some validation of it is known, as a fraction; the consistency is what the
  longest run of missed ledgers leaves of 100 percent.
\<close>

theorem signals_exact:
  fixes si :: scoring_inputs and seq :: u32
  assumes "nid \<in> tg_nodeID ` set ts" "map_of (window_stats si seq anc ts) nid = Some st"
  shows "unat (uptimeBps st) = card {i. i < 256 \<and> voted_at si seq nid i} * 10000 div 256
    \<and> (\<exists>gap i. absent_run (presence_bits si seq nid 256) i gap
        \<and> (\<forall>j n. absent_run (presence_bits si seq nid 256) j n \<longrightarrow> n \<le> gap)
        \<and> unat (consistencyFromPresence (ws_present st)) = 10000 - gap * 10000 div 256)"
proof -
  have st: "st = fold (node_ancestor si seq anc nid) [0..<256] fresh_stats"
    using assms by (simp add: map_of_window_stats)
  note w = window_presence [of 256 si seq anc nid, folded st]
  have p: "ws_present st = presence_bits si seq nid 256" using w by simp
  have l: "length (presence_bits si seq nid 256) = 256" by (simp add: presence_bits_def)
  let ?g = "unat (gap_loop (presence_bits si seq nid 256) 0 0)"
  from gap_loop_longest [of "presence_bits si seq nid 256"] l
  have "\<exists>i. absent_run (presence_bits si seq nid 256) i ?g" "\<And>j n. absent_run (presence_bits si seq nid 256) j n \<Longrightarrow> n \<le> ?g"
    by auto
  moreover have "unat (consistencyFromPresence (ws_present st)) = 10000 - ?g * 10000 div 256"
    using consistencyFromPresence_value [of "presence_bits si seq nid 256"] l p by (cases "presence_bits si seq nid 256") auto
  ultimately show ?thesis using uptimeBps_window [OF p] w by blast
qed

theorem signals_exact_witness:
  "\<exists>st. map_of (window_stats s_si 512 (replicate 256 0) [\<lparr>tg_key = KBond 2, tg_bond = s_bond 1 5, tg_nodeID = 2\<rparr>]) 2 = Some st
     \<and> unat (uptimeBps st) = card {i. i < 256 \<and> voted_at s_si 512 2 i} * 10000 div 256"
proof -
  let ?ts = "[\<lparr>tg_key = KBond 2, tg_bond = s_bond 1 5, tg_nodeID = 2\<rparr>]"
  obtain st where st: "map_of (window_stats s_si 512 (replicate 256 0) ?ts) 2 = Some st" by (simp add: map_of_window_stats)
  with signals_exact [OF _ st] show ?thesis by simp
qed

text \<open>
  C34. The split multiplication and division of \<open>WideArith.h\<close>, which never forms the full product of the amount, equals
  multiplication and division over the integers whenever the factor is at most the divisor (and, for the signed
  one, their product fits 63 bits).
\<close>

theorem muldiv_exact:
  assumes "0 \<le> a" "a < 2 ^ 63" "b \<le> d" "0 < d" "uint b * uint d \<le> 2 ^ 63" "x \<le> y"
  shows "muldiv64 a b d = a * uint b div uint d \<and> unat (muldivU64 z x y) = unat z * unat x div unat y \<and> muldivU64 z x y \<le> z"
  using muldiv64_exact [OF assms(1-5)] muldivU64_exact [OF assms(6)] muldivU64_le [OF assms(6)] by blast

theorem muldiv_exact_witness: "muldiv64 9000000000000000000 6500 10000 = 5850000000000000000"
  using muldiv_exact [of 9000000000000000000 6500 10000 1 2 3] by simp



section \<open>Emission\<close>



text \<open>
  C37. For epochs 1 to 366 the 32-bit computation of \<open>cidEmissionBps\<close> gives the documented schedule: a linear
  decline, rounded to the nearest basis point, that never increases, starts at 25 and stops at the floor of 3. The
  numerator is unsigned: at epoch 367 it wraps, and the rate jumps from the floor to 7636 (76 percent of the treasury in
  one epoch).
\<close>

theorem cid_schedule_followed:
  assumes "1 \<le> unat e" "unat e \<le> 366"
  shows "uint (cidEmissionBps e) = cid_schedule (unat e)
    \<and> 3 \<le> cid_schedule (unat e) \<and> cid_schedule (unat e) \<le> 25
    \<and> (\<forall>m. unat e \<le> m \<longrightarrow> cid_schedule m \<le> cid_schedule (unat e))
    \<and> cid_schedule 366 = 3 \<and> uint (cidEmissionBps 367) = 7636"
proof -
  have "cid_schedule 366 = 3" by (simp add: cid_schedule_def)
  moreover have "uint (cidEmissionBps 367) = 7636" using cid_wrapped [of 367] by simp
  ultimately show ?thesis using cid_exact [OF assms] cid_schedule_bounds [OF assms(1)] by (auto intro: cid_schedule_antimono)
qed

theorem cid_schedule_followed_witness: "uint (cidEmissionBps 8) = cid_schedule 8 \<and> uint (cidEmissionBps 8) \<le> 25"
  using cid_schedule_followed [of 8] by simp

end
